(* ===== verification/Prelude.thy ===== *)
theory Prelude
  imports Main "HOL-Library.AList" "HOL-Library.Multiset"
begin

text \<open>
  Shared vocabulary of the development: the error type and the result type of fallible
  operations, the Python built-ins the sources use (ceiling division, slices, negative
  indices, dictionaries in insertion order), and the generic lemmas the components share.
\<close>

section \<open>Errors and results\<close>

text \<open>
  A raise of the source is a value. \<open>Diverges\<close> stands for a loop of the source that never
  ends: it is the result of a call that does not return.
\<close>

datatype py_error =
    ValueError | RuntimeError | AssertionError | IndexError | KeyError
  | OverflowError | ZeroDivisionError | AttributeError | NotImplementedError | TypeError | StopIteration | Diverges

type_synonym 'a result = "py_error + 'a"

named_theorems res_simps "equations that run the result monad"
named_theorems dict_simps "equations about Python dictionaries"

definition bindE :: "'a result \<Rightarrow> ('a \<Rightarrow> 'b result) \<Rightarrow> 'b result" where
  "bindE m f = (case m of Inl e \<Rightarrow> Inl e | Inr x \<Rightarrow> f x)"

definition assertE :: "bool \<Rightarrow> unit result" where
  "assertE b = (if b then Inr () else Inl AssertionError)"

lemma bindE_Inl [simp, res_simps]: "bindE (Inl e) f = Inl e"
  and bindE_Inr [simp, res_simps]: "bindE (Inr x) f = f x"
  by (simp_all add: bindE_def)

lemma bindE_assoc: "bindE (bindE m f) g = bindE m (\<lambda>x. bindE (f x) g)"
  by (cases m) simp_all

lemma bindE_Inr_iff: "bindE m f = Inr y \<longleftrightarrow> (\<exists>x. m = Inr x \<and> f x = Inr y)"
  by (cases m) simp_all

lemma bindE_InrE:
  assumes "bindE m f = Inr y"
  obtains x where "m = Inr x" "f x = Inr y"
  using assms by (auto simp: bindE_Inr_iff)

lemma bindE_cong [fundef_cong]:
  "m = m' \<Longrightarrow> (\<And>x. m' = Inr x \<Longrightarrow> f x = f' x) \<Longrightarrow> bindE m f = bindE m' f'"
  by (cases m') simp_all

lemma assertE_True [simp, res_simps]: "assertE True = Inr ()"
  and assertE_False [simp, res_simps]: "assertE False = Inl AssertionError"
  by (simp_all add: assertE_def)

lemma assertE_Inr_iff [simp]: "assertE b = Inr u \<longleftrightarrow> b"
  by (simp add: assertE_def)

text \<open>Running a fallible operation over a list, threading a state, as a \<open>for\<close> loop does.\<close>

fun foldE :: "('a \<Rightarrow> 's \<Rightarrow> 's result) \<Rightarrow> 'a list \<Rightarrow> 's \<Rightarrow> 's result" where
  "foldE f [] s = Inr s"
| "foldE f (x # xs) s = bindE (f x s) (foldE f xs)"

lemma foldE_append: "foldE f (xs @ ys) s = bindE (foldE f xs s) (foldE f ys)"
proof (induction xs arbitrary: s)
  case (Cons x xs)
  then show ?case by (cases "f x s") simp_all
qed simp

lemma foldE_cong [fundef_cong]:
  "xs = ys \<Longrightarrow> s = t \<Longrightarrow> (\<And>x s. x \<in> set ys \<Longrightarrow> f x s = g x s) \<Longrightarrow> foldE f xs s = foldE g ys t"
proof (induction xs arbitrary: ys s t)
  case (Cons x xs)
  then show ?case by (auto intro!: bindE_cong)
qed simp

text \<open>
  The two induction rules of a loop: an invariant the body keeps holds at the end, and a
  body that never raises from a good state gives a loop that never raises.
\<close>

lemma foldE_invariant:
  assumes "foldE f xs s = Inr t" and "P s"
    and "\<And>x s t. x \<in> set xs \<Longrightarrow> P s \<Longrightarrow> f x s = Inr t \<Longrightarrow> P t"
  shows "P t"
  using assms
proof (induction xs arbitrary: s)
  case (Cons x xs)
  from Cons.prems(1) obtain u where u: "f x s = Inr u" "foldE f xs u = Inr t"
    by (auto elim: bindE_InrE)
  have "P u" using Cons.prems(3)[OF _ Cons.prems(2) u(1)] by simp
  with u(2) show ?case using Cons.IH Cons.prems(3) by (meson list.set_intros(2))
qed simp

lemma foldE_total:
  assumes "P s" and "\<And>x s. x \<in> set xs \<Longrightarrow> P s \<Longrightarrow> \<exists>t. f x s = Inr t \<and> P t"
  shows "\<exists>t. foldE f xs s = Inr t \<and> P t"
  using assms
proof (induction xs arbitrary: s)
  case (Cons x xs)
  from Cons.prems obtain u where "f x s = Inr u" "P u" by (meson list.set_intros(1))
  moreover have "\<exists>t. foldE f xs u = Inr t \<and> P t"
    using Cons.IH Cons.prems(2) \<open>P u\<close> by simp
  ultimately show ?case by auto
qed simp

section \<open>Python integers and slices\<close>

text \<open>\<open>vllm.utils.math_utils.cdiv\<close>: \<open>-(a // -b)\<close>, with Python's floor division.\<close>

definition cdiv :: "int \<Rightarrow> int \<Rightarrow> int" where
  "cdiv a b = - (a div (- b))"

lemma zdiv_ge_iff: "0 < (b::int) \<Longrightarrow> n \<le> a div b \<longleftrightarrow> n * b \<le> a"
proof -
  assume b: "0 < b"
  have "n \<le> a div b \<longleftrightarrow> 0 \<le> a div b + (- n)" by linarith
  also have "a div b + (- n) = (a + (- n) * b) div b"
    using b div_mult_self1[of b a "- n"] by linarith
  also have "0 \<le> \<dots> \<longleftrightarrow> n * b \<le> a" using b by (simp add: pos_imp_zdiv_nonneg_iff)
  finally show ?thesis .
qed

lemma cdiv_le_iff: "0 < b \<Longrightarrow> cdiv a b \<le> n \<longleftrightarrow> a \<le> n * b"
  using zdiv_ge_iff[of b "- n" "- a"] by (auto simp: cdiv_def div_minus_right)

lemma cdiv_ge_iff: "0 < b \<Longrightarrow> n \<le> cdiv a b \<longleftrightarrow> (n - 1) * b < a"
  using cdiv_le_iff[of b a "n - 1"] by auto

lemma cdiv_mult [simp]: "0 < b \<Longrightarrow> cdiv (n * b) b = n"
  by (rule antisym) (simp_all add: cdiv_le_iff cdiv_ge_iff)

lemma cdiv_nonneg: "0 < b \<Longrightarrow> 0 \<le> a \<Longrightarrow> 0 \<le> cdiv a b"
  by (simp add: cdiv_ge_iff)

lemma cdiv_mono: "0 < b \<Longrightarrow> a \<le> a' \<Longrightarrow> cdiv a b \<le> cdiv a' b"
  using cdiv_le_iff[of b a "cdiv a' b"] cdiv_le_iff[of b a' "cdiv a' b"] by auto

lemma cdiv_eq: "0 < b \<Longrightarrow> cdiv a b = (a + b - 1) div b"
proof (rule antisym)
  assume b: "0 < b"
  have "(cdiv a b - 1) * b < a" using cdiv_ge_iff[OF b, of "cdiv a b" a] by simp
  then have "cdiv a b * b \<le> a + b - 1" by (simp add: left_diff_distrib)
  then show "cdiv a b \<le> (a + b - 1) div b" using zdiv_ge_iff[OF b] by simp
  have "(a + b - 1) div b * b \<le> a + b - 1" using zdiv_ge_iff[OF b, of "(a + b - 1) div b" "a + b - 1"] by simp
  then show "(a + b - 1) div b \<le> cdiv a b" using cdiv_ge_iff[OF b] by (simp add: left_diff_distrib)
qed

lemma floor_le_cdiv: "0 < b \<Longrightarrow> a div b \<le> cdiv a b"
proof -
  assume b: "0 < b"
  have "a div b * b \<le> a" using zdiv_ge_iff[OF b, of "a div b" a] by simp
  then show ?thesis using cdiv_ge_iff[OF b, of "a div b" a] b by (simp add: left_diff_distrib)
qed

text \<open>
  Slices \<open>xs[i:]\<close>, \<open>xs[:j]\<close> and \<open>xs[i:j]\<close>: a negative bound counts from the end and is
  clipped at the start, a bound past the end is clipped at the end. Indexing
  \<open>xs[i]\<close> raises out of range.
\<close>

definition slice_bound :: "'a list \<Rightarrow> int \<Rightarrow> nat" where
  "slice_bound xs i = nat (if i < 0 then i + int (length xs) else i)"

definition slice_from :: "'a list \<Rightarrow> int \<Rightarrow> 'a list" where
  "slice_from xs i = drop (slice_bound xs i) xs"

definition slice_to :: "'a list \<Rightarrow> int \<Rightarrow> 'a list" where
  "slice_to xs j = take (slice_bound xs j) xs"

definition py_slice :: "'a list \<Rightarrow> int \<Rightarrow> int \<Rightarrow> 'a list" where
  "py_slice xs i j = drop (slice_bound xs i) (take (slice_bound xs j) xs)"

definition py_nth :: "'a list \<Rightarrow> int \<Rightarrow> 'a result" where
  "py_nth xs i =
     (if i < - int (length xs) \<or> int (length xs) \<le> i then Inl IndexError
      else Inr (xs ! nat (if i < 0 then i + int (length xs) else i)))"

lemma slice_bound_nonneg [simp]: "0 \<le> i \<Longrightarrow> slice_bound xs i = nat i"
  by (simp add: slice_bound_def)

lemma slice_from_nonneg [simp]: "0 \<le> i \<Longrightarrow> slice_from xs i = drop (nat i) xs"
  by (simp add: slice_from_def)

lemma slice_to_nonneg [simp]: "0 \<le> i \<Longrightarrow> slice_to xs i = take (nat i) xs"
  by (simp add: slice_to_def)

lemma py_slice_nonneg [simp]: "0 \<le> i \<Longrightarrow> 0 \<le> j \<Longrightarrow> py_slice xs i j = drop (nat i) (take (nat j) xs)"
  by (simp add: py_slice_def)

lemma length_py_slice:
  "0 \<le> i \<Longrightarrow> i \<le> j \<Longrightarrow> j \<le> int (length xs) \<Longrightarrow> length (py_slice xs i j) = nat (j - i)"
  by (simp add: nat_diff_distrib)

lemma set_py_slice_subset: "set (py_slice xs i j) \<subseteq> set xs"
  unfolding py_slice_def by (meson set_drop_subset set_take_subset subset_trans)

lemma set_slice_from_subset: "set (slice_from xs i) \<subseteq> set xs"
  unfolding slice_from_def by (rule set_drop_subset)

lemma py_nth_nonneg: "0 \<le> i \<Longrightarrow> i < int (length xs) \<Longrightarrow> py_nth xs i = Inr (xs ! nat i)"
  by (simp add: py_nth_def)

lemma py_nth_InrD: "0 \<le> i \<Longrightarrow> py_nth xs i = Inr x \<Longrightarrow> i < int (length xs) \<and> x = xs ! nat i"
  by (auto simp: py_nth_def Let_def split: if_splits)

section \<open>Dictionaries in insertion order\<close>

text \<open>
  A Python dictionary is an association list with distinct keys. Assigning to a present key
  keeps its position, assigning to a new key appends, deleting removes the entry.
\<close>

type_synonym ('k, 'v) dict = "('k \<times> 'v) list"

abbreviation dget :: "('k, 'v) dict \<Rightarrow> 'k \<Rightarrow> 'v option" where
  "dget d k \<equiv> map_of d k"

abbreviation dset :: "'k \<Rightarrow> 'v \<Rightarrow> ('k, 'v) dict \<Rightarrow> ('k, 'v) dict" where
  "dset k v d \<equiv> AList.update k v d"

abbreviation ddel :: "'k \<Rightarrow> ('k, 'v) dict \<Rightarrow> ('k, 'v) dict" where
  "ddel k d \<equiv> AList.delete k d"

abbreviation dkeys :: "('k, 'v) dict \<Rightarrow> 'k list" where
  "dkeys d \<equiv> map fst d"

abbreviation dict_ok :: "('k, 'v) dict \<Rightarrow> bool" where
  "dict_ok d \<equiv> distinct (dkeys d)"

definition dsum :: "('v \<Rightarrow> 'n :: comm_monoid_add) \<Rightarrow> ('k, 'v) dict \<Rightarrow> 'n" where
  "dsum f d = sum_list (map (f \<circ> snd) d)"

lemma dget_dset [simp, dict_simps]: "dget (dset k v d) l = (if l = k then Some v else dget d l)"
  by (simp add: update_conv')

lemma dget_ddel [simp, dict_simps]: "dget (ddel k d) l = (if l = k then None else dget d l)"
  by (simp add: delete_conv')

lemma dict_ok_dset [simp, dict_simps]: "dict_ok d \<Longrightarrow> dict_ok (dset k v d)"
  by (rule distinct_update)

lemma dict_ok_ddel [simp, dict_simps]: "dict_ok d \<Longrightarrow> dict_ok (ddel k d)"
  by (rule distinct_delete)

lemma dget_None_iff: "dget d k = None \<longleftrightarrow> k \<notin> set (dkeys d)"
  by (simp add: map_of_eq_None_iff)

lemma ddel_absent: "dget d k = None \<Longrightarrow> ddel k d = d"
  by (simp add: delete_id map_of_eq_None_iff)

lemma dsum_Nil [simp]: "dsum f [] = 0"
  and dsum_Cons [simp]: "dsum f (p # d) = f (snd p) + dsum f d"
  by (simp_all add: dsum_def)

lemma dsum_dset:
  "dict_ok d \<Longrightarrow>
   dsum f (dset k v d) + (case dget d k of None \<Rightarrow> 0 | Some w \<Rightarrow> f w) = dsum f d + f v"
proof (induction d)
  case (Cons p d)
  show ?case
  proof (cases "fst p = k")
    case True
    with Cons.prems show ?thesis by (cases p) (simp add: ac_simps)
  next
    case False
    with Cons show ?thesis by (cases p) (simp add: ac_simps)
  qed
qed simp

lemma dsum_ddel:
  "dict_ok d \<Longrightarrow> dsum f (ddel k d) + (case dget d k of None \<Rightarrow> 0 | Some w \<Rightarrow> f w) = dsum f d"
proof (induction d)
  case (Cons p d)
  show ?case
  proof (cases "fst p = k")
    case True
    with Cons.prems have "dget d k = None" by (simp add: dget_None_iff)
    with True show ?thesis by (cases p) (simp add: ac_simps ddel_absent)
  next
    case False
    with Cons show ?thesis by (cases p) (simp add: ac_simps)
  qed
qed simp

lemma dsum_zero_iff: "dsum f d = (0::nat) \<longleftrightarrow> (\<forall>p \<in> set d. f (snd p) = 0)"
  by (induction d) auto

lemma dget_le_dsum: "dget d k = Some v \<Longrightarrow> f v \<le> (dsum f d :: nat)"
  by (induction d) (auto split: if_splits)

section \<open>Lists\<close>

lemma hd_last_neq [simp]:
  "xs \<noteq> [] \<Longrightarrow> x \<notin> set xs \<Longrightarrow> hd xs \<noteq> x" "xs \<noteq> [] \<Longrightarrow> x \<notin> set xs \<Longrightarrow> x \<noteq> hd xs"
  "xs \<noteq> [] \<Longrightarrow> x \<notin> set xs \<Longrightarrow> last xs \<noteq> x" "xs \<noteq> [] \<Longrightarrow> x \<notin> set xs \<Longrightarrow> x \<noteq> last xs"
  by auto

lemma count_list_filter: "P x \<Longrightarrow> count_list (filter P xs) x = count_list xs x"
  by (induction xs) auto

lemma count_list_rev_eq: "count_list (rev xs) x = count_list xs x"
  by (induction xs) auto

lemma count_list_distinct: "distinct xs \<Longrightarrow> count_list xs x = (if x \<in> set xs then 1 else 0)"
  by (induction xs) auto

lemma count_list_zero_iff: "count_list xs x = 0 \<longleftrightarrow> x \<notin> set xs"
  by (induction xs) auto

lemma count_list_update:
  "i < length xs \<Longrightarrow>
   count_list (xs[i := y]) x + (if xs ! i = x then 1 else 0) = count_list xs x + (if y = x then 1 else 0)"
proof (induction xs arbitrary: i)
  case (Cons a xs)
  show ?case
  proof (cases i)
    case (Suc j)
    with Cons.IH[of j] Cons.prems show ?thesis by auto
  qed auto
qed simp

end
