(* ===== verification/Free_Queue.thy ===== *)
theory Free_Queue
  imports Prelude "HOL-Library.Word"
begin

text \<open>
  The free block queue of \<open>vllm/v1/core/kv_cache_utils.py\<close>: \<open>KVCacheBlock\<close> objects in an
  explicit store and \<open>FreeKVCacheBlockQueue\<close>, the doubly linked list threaded through their
  \<open>prev_free_block\<close> and \<open>next_free_block\<close> fields. The queue refines a list of references
  (\<open>fq_rep\<close>); the locale \<open>free_list\<close> is the contract its client, the block pool, relies on.
\<close>

section \<open>Blocks and the store\<close>

type_synonym bytes = "8 word list"

text \<open>
  A reference to a \<open>KVCacheBlock\<close> object: the two fake ends of the list, or the block with
  the given index in \<open>BlockPool.blocks\<close>.
\<close>

datatype bref = Head | Tail | Blk nat

record kv_block =
  block_id :: int
  ref_cnt :: int
  block_hash :: "bytes option"
  prev_free_block :: "bref option"
  next_free_block :: "bref option"
  is_null :: bool

definition new_block :: "int \<Rightarrow> kv_block" where
  "new_block i = \<lparr>block_id = i, ref_cnt = 0, block_hash = None,
     prev_free_block = None, next_free_block = None, is_null = False\<rparr>"

type_synonym bheap = "bref \<Rightarrow> kv_block"

definition set_next :: "bheap \<Rightarrow> bref \<Rightarrow> bref option \<Rightarrow> bheap" where
  "set_next h r v = h(r := (h r)\<lparr>next_free_block := v\<rparr>)"

definition set_prev :: "bheap \<Rightarrow> bref \<Rightarrow> bref option \<Rightarrow> bheap" where
  "set_prev h r v = h(r := (h r)\<lparr>prev_free_block := v\<rparr>)"

text \<open>The setter of the property \<open>block_hash\<close> asserts that there is no hash yet.\<close>

definition set_block_hash :: "bheap \<Rightarrow> bref \<Rightarrow> bytes \<Rightarrow> bheap result" where
  "set_block_hash h r k =
     bindE (assertE (block_hash (h r) = None)) (\<lambda>_. Inr (h(r := (h r)\<lparr>block_hash := Some k\<rparr>)))"

definition reset_hash :: "bheap \<Rightarrow> bref \<Rightarrow> bheap" where
  "reset_hash h r = h(r := (h r)\<lparr>block_hash := None\<rparr>)"

definition add_ref :: "int \<Rightarrow> bheap \<Rightarrow> bref \<Rightarrow> bheap" where
  "add_ref d h r = h(r := (h r)\<lparr>ref_cnt := ref_cnt (h r) + d\<rparr>)"

section \<open>The queue operations\<close>

record free_queue =
  heap :: bheap
  num_free_blocks :: int

definition link_step :: "bref list \<Rightarrow> nat \<Rightarrow> bheap \<Rightarrow> bheap" where
  "link_step bs i h =
     (let h1 = (if 0 < i then set_prev h (bs ! i) (Some (bs ! (i - 1))) else h)
      in if i + 1 < length bs then set_next h1 (bs ! i) (Some (bs ! (i + 1))) else h1)"

definition fq_init :: "bheap \<Rightarrow> bref list \<Rightarrow> free_queue" where
  "fq_init h bs =
     (let n = length bs;
          h1 = fold (link_step bs) [0..<n] h;
          h2 = h1(Head := new_block (- 1), Tail := new_block (- 1));
          h3 = (if 0 < n
                then set_next (set_prev (set_prev (set_next h2 Head (Some (bs ! 0)))
                       (bs ! 0) (Some Head)) Tail (Some (last bs))) (last bs) (Some Tail)
                else set_prev (set_next h2 Head (Some Tail)) Tail (Some Head))
      in \<lparr>heap = h3, num_free_blocks = int n\<rparr>)"

definition fq_popleft :: "free_queue \<Rightarrow> (bref \<times> free_queue) result" where
  "fq_popleft fq =
     (let h = heap fq;
          no_block = bindE (assertE (num_free_blocks fq = 0)) (\<lambda>_. Inl ValueError)
      in case next_free_block (h Head) of
           None \<Rightarrow> no_block
         | Some first \<Rightarrow>
             if first = Tail then no_block
             else case next_free_block (h first) of
                    None \<Rightarrow> Inl RuntimeError
                  | Some n \<Rightarrow>
                      (let h1 = set_next h Head (Some n);
                           h2 = set_prev h1 n (Some Head);
                           h3 = set_next (set_prev h2 first None) first None
                       in Inr (first, fq\<lparr>heap := h3, num_free_blocks := num_free_blocks fq - 1\<rparr>)))"

text \<open>The loop of \<open>popleft_n\<close>: the popped blocks, the block the loop stops at, the store.\<close>

fun popleft_loop :: "nat \<Rightarrow> bheap \<Rightarrow> bref option \<Rightarrow> (bref list \<times> bref option \<times> bheap) result" where
  "popleft_loop 0 h cur = Inr ([], cur, h)"
| "popleft_loop (Suc n) h cur =
     (case cur of
        None \<Rightarrow> Inl AssertionError
      | Some b \<Rightarrow>
          bindE (popleft_loop n (set_next (set_prev h b None) b None) (next_free_block (h b)))
            (\<lambda>(ret, c, h'). Inr (b # ret, c, h')))"

definition fq_popleft_n :: "free_queue \<Rightarrow> int \<Rightarrow> (bref list \<times> free_queue) result" where
  "fq_popleft_n fq n =
     (if n = 0 then Inr ([], fq)
      else bindE (assertE (n \<le> num_free_blocks fq)) (\<lambda>_.
           bindE (popleft_loop (nat n) (heap fq) (next_free_block (heap fq Head)))
             (\<lambda>(ret, cur, h).
                let h' = (case cur of None \<Rightarrow> h
                          | Some c \<Rightarrow> set_prev (set_next h Head (Some c)) c (Some Head))
                in Inr (ret, fq\<lparr>heap := h', num_free_blocks := num_free_blocks fq - n\<rparr>))))"

definition fq_remove :: "free_queue \<Rightarrow> bref \<Rightarrow> free_queue result" where
  "fq_remove fq b =
     (let h = heap fq
      in case (prev_free_block (h b), next_free_block (h b)) of
           (Some p, Some n) \<Rightarrow>
             (let h1 = set_next h p (Some n);
                  h2 = set_prev h1 n (Some p);
                  h3 = set_next (set_prev h2 b None) b None
              in Inr (fq\<lparr>heap := h3, num_free_blocks := num_free_blocks fq - 1\<rparr>))
         | _ \<Rightarrow> Inl RuntimeError)"

definition fq_append :: "free_queue \<Rightarrow> bref \<Rightarrow> free_queue result" where
  "fq_append fq b =
     (let h = heap fq
      in case prev_free_block (h Tail) of
           None \<Rightarrow> Inl RuntimeError
         | Some l \<Rightarrow>
             (let h1 = set_prev (set_next h l (Some b)) b (Some l);
                  h2 = set_prev (set_next h1 b (Some Tail)) Tail (Some b)
              in Inr (fq\<lparr>heap := h2, num_free_blocks := num_free_blocks fq + 1\<rparr>)))"

text \<open>The loop of \<open>append_n\<close>: link each block after the one before, return the last.\<close>

fun append_loop :: "bheap \<Rightarrow> bref \<Rightarrow> bref list \<Rightarrow> bref \<times> bheap" where
  "append_loop h l [] = (l, h)"
| "append_loop h l (b # bs) = append_loop (set_next (set_prev h b (Some l)) l (Some b)) b bs"

definition fq_append_n :: "free_queue \<Rightarrow> bref list \<Rightarrow> free_queue result" where
  "fq_append_n fq bs =
     (if bs = [] then Inr fq
      else case prev_free_block (heap fq Tail) of
             None \<Rightarrow> Inl AssertionError
           | Some l \<Rightarrow>
               (let (l', h1) = append_loop (heap fq) l bs;
                    h2 = set_prev (set_next h1 l' (Some Tail)) Tail (Some l')
                in Inr (fq\<lparr>heap := h2, num_free_blocks := num_free_blocks fq + int (length bs)\<rparr>)))"

text \<open>
  \<open>get_all_free_blocks\<close> follows the links while there is a next block; on a cyclic list it
  would not return, which is the value \<open>None\<close>.
\<close>

partial_function (option) collect_loop :: "bheap \<Rightarrow> bref \<Rightarrow> bref list \<Rightarrow> bref list option" where
  "collect_loop h cur ret =
     (case next_free_block (h cur) of
        None \<Rightarrow> Some ret
      | Some n \<Rightarrow> collect_loop h n (ret @ [cur]))"

definition fq_get_all_free_blocks :: "free_queue \<Rightarrow> bref list option result" where
  "fq_get_all_free_blocks fq =
     (case next_free_block (heap fq Head) of
        None \<Rightarrow> Inl RuntimeError
      | Some c \<Rightarrow> Inr (collect_loop (heap fq) c []))"

section \<open>Field lemmas\<close>

named_theorems heap_simps "reading a field after a write to the store"

lemma next_set_next [simp, heap_simps]:
  "next_free_block (set_next h r v s) = (if s = r then v else next_free_block (h s))"
  and prev_set_next [simp, heap_simps]: "prev_free_block (set_next h r v s) = prev_free_block (h s)"
  and next_set_prev [simp, heap_simps]: "next_free_block (set_prev h r v s) = next_free_block (h s)"
  and prev_set_prev [simp, heap_simps]:
    "prev_free_block (set_prev h r v s) = (if s = r then v else prev_free_block (h s))"
  by (simp_all add: set_next_def set_prev_def)

text \<open>What a block carries besides its links; the queue never touches it.\<close>

definition block_data :: "kv_block \<Rightarrow> int \<times> int \<times> bytes option \<times> bool" where
  "block_data b = (block_id b, ref_cnt b, block_hash b, is_null b)"

definition same_data :: "bheap \<Rightarrow> bheap \<Rightarrow> bool" where
  "same_data h h' \<longleftrightarrow> (\<forall>i. block_data (h (Blk i)) = block_data (h' (Blk i)))"

definition same_links :: "bheap \<Rightarrow> bheap \<Rightarrow> bool" where
  "same_links h h' \<longleftrightarrow>
     (\<forall>r. next_free_block (h r) = next_free_block (h' r) \<and> prev_free_block (h r) = prev_free_block (h' r))"

lemma block_data_set_next [simp]: "block_data (set_next h r v s) = block_data (h s)"
  and block_data_set_prev [simp]: "block_data (set_prev h r v s) = block_data (h s)"
  by (simp_all add: set_next_def set_prev_def block_data_def)

lemma same_data_refl [simp, intro]: "same_data h h"
  and same_data_sym: "same_data h h' \<Longrightarrow> same_data h' h"
  and same_data_trans: "same_data h h' \<Longrightarrow> same_data h' h'' \<Longrightarrow> same_data h h''"
  by (simp_all add: same_data_def)

lemma same_data_set [simp]:
  "same_data h (set_next g r v) = same_data h g"
  "same_data h (set_prev g r v) = same_data h g"
  by (simp_all add: same_data_def)

lemma same_dataD:
  assumes "same_data h h'"
  shows "block_id (h' (Blk i)) = block_id (h (Blk i))" "ref_cnt (h' (Blk i)) = ref_cnt (h (Blk i))"
    "block_hash (h' (Blk i)) = block_hash (h (Blk i))" "is_null (h' (Blk i)) = is_null (h (Blk i))"
  using assms by (simp_all add: same_data_def block_data_def)

lemma same_links_refl [simp, intro]: "same_links h h"
  and same_links_sym: "same_links h h' \<Longrightarrow> same_links h' h"
  and same_links_trans: "same_links h h' \<Longrightarrow> same_links h' h'' \<Longrightarrow> same_links h h''"
  by (simp_all add: same_links_def)

section \<open>The list a queue represents\<close>

text \<open>A doubly linked segment from \<open>a\<close> to \<open>z\<close> through the references in between.\<close>

fun dll :: "bheap \<Rightarrow> bref \<Rightarrow> bref list \<Rightarrow> bref \<Rightarrow> bool" where
  "dll h a [] z \<longleftrightarrow> next_free_block (h a) = Some z \<and> prev_free_block (h z) = Some a"
| "dll h a (x # xs) z \<longleftrightarrow>
     next_free_block (h a) = Some x \<and> prev_free_block (h x) = Some a \<and> dll h x xs z"

definition fq_rep :: "free_queue \<Rightarrow> bref list \<Rightarrow> bool" where
  "fq_rep fq q \<longleftrightarrow>
     dll (heap fq) Head q Tail \<and> distinct q \<and> Head \<notin> set q \<and> Tail \<notin> set q \<and>
     num_free_blocks fq = int (length q) \<and>
     prev_free_block (heap fq Head) = None \<and> next_free_block (heap fq Tail) = None \<and>
     (\<forall>r. r \<notin> set q \<longrightarrow> r \<noteq> Head \<longrightarrow> r \<noteq> Tail \<longrightarrow>
        prev_free_block (heap fq r) = None \<and> next_free_block (heap fq r) = None)"

lemma dll_append: "dll h a (xs @ y # ys) z \<longleftrightarrow> dll h a xs y \<and> dll h y ys z"
  by (induction xs arbitrary: a) auto

lemma dll_set_next [simp]: "r \<noteq> a \<Longrightarrow> r \<notin> set xs \<Longrightarrow> dll (set_next h r v) a xs z = dll h a xs z"
  by (induction xs arbitrary: a) auto

lemma dll_set_prev [simp]: "r \<noteq> z \<Longrightarrow> r \<notin> set xs \<Longrightarrow> dll (set_prev h r v) a xs z = dll h a xs z"
  by (induction xs arbitrary: a) auto

lemma dll_same_links: "same_links h h' \<Longrightarrow> dll h a xs z = dll h' a xs z"
  by (induction xs arbitrary: a) (auto simp: same_links_def)

lemma dll_first: "dll h a xs z \<Longrightarrow> next_free_block (h a) = Some (hd (xs @ [z]))"
  by (cases xs) auto

lemma dll_last: "dll h a xs z \<Longrightarrow> prev_free_block (h z) = Some (last (a # xs))"
  by (induction xs arbitrary: a) auto

text \<open>A segment whose last link is still missing, and the lemma that closes it.\<close>

fun dopen :: "bheap \<Rightarrow> bref \<Rightarrow> bref list \<Rightarrow> bool" where
  "dopen h a [] \<longleftrightarrow> True"
| "dopen h a (x # xs) \<longleftrightarrow> next_free_block (h a) = Some x \<and> prev_free_block (h x) = Some a \<and> dopen h x xs"

lemma dll_dopen: "dll h a xs z \<Longrightarrow> dopen h a xs"
  by (induction xs arbitrary: a) auto

lemma dopen_set_prev [simp]: "r \<notin> set xs \<Longrightarrow> dopen (set_prev h r v) a xs = dopen h a xs"
  by (induction xs arbitrary: a) auto

lemma dopen_set_next [simp]: "r \<noteq> a \<Longrightarrow> r \<notin> set xs \<Longrightarrow> dopen (set_next h r v) a xs = dopen h a xs"
  by (induction xs arbitrary: a) auto

lemma dll_join:
  assumes "dopen h a xs" "ys \<noteq> [] \<Longrightarrow> dll h (hd ys) (tl ys) z" "distinct (a # xs @ ys @ [z])"
  shows "dll (set_prev (set_next h (last (a # xs)) (Some (hd (ys @ [z])))) (hd (ys @ [z]))
            (Some (last (a # xs)))) a (xs @ ys) z"
  using assms
proof (induction xs arbitrary: a)
  case Nil
  then show ?case by (cases ys) auto
next
  case (Cons x xs)
  have "dll (set_prev (set_next h (last (x # xs)) (Some (hd (ys @ [z])))) (hd (ys @ [z]))
            (Some (last (x # xs)))) x (xs @ ys) z"
    using Cons.prems by (intro Cons.IH) auto
  moreover have "last (x # xs) \<noteq> a" "hd (ys @ [z]) \<noteq> x"
    using Cons.prems(3) by (auto simp: hd_append split: if_splits)
  ultimately show ?case using Cons.prems(1) by auto
qed

lemma dopen_snoc:
  assumes "dopen h a xs" "distinct (a # xs @ [b])"
  shows "dopen (set_next (set_prev h b (Some (last (a # xs)))) (last (a # xs)) (Some b)) a (xs @ [b])"
  using assms
proof (induction xs arbitrary: a)
  case (Cons x xs)
  then have "dopen (set_next (set_prev h b (Some (last (x # xs)))) (last (x # xs)) (Some b)) x (xs @ [b])"
    by auto
  moreover have "last (x # xs) \<noteq> a" using Cons.prems(2) by auto
  ultimately show ?case using Cons.prems by auto
qed simp

lemma fq_repD:
  assumes "fq_rep fq q"
  shows "dll (heap fq) Head q Tail" "distinct q" "Head \<notin> set q" "Tail \<notin> set q"
    "num_free_blocks fq = int (length q)"
    "prev_free_block (heap fq Head) = None" "next_free_block (heap fq Tail) = None"
    "\<And>r. r \<notin> set q \<Longrightarrow> r \<noteq> Head \<Longrightarrow> r \<noteq> Tail \<Longrightarrow>
       prev_free_block (heap fq r) = None \<and> next_free_block (heap fq r) = None"
  using assms by (simp_all add: fq_rep_def)

text \<open>A queue represents at most one list.\<close>

lemma dll_unique:
  "dll h a xs z \<Longrightarrow> dll h a ys z \<Longrightarrow> z \<notin> set xs \<Longrightarrow> z \<notin> set ys \<Longrightarrow> xs = ys"
proof (induction xs arbitrary: a ys)
  case Nil
  then show ?case by (cases ys) auto
next
  case (Cons x xs)
  then show ?case by (cases ys) auto
qed

lemma fq_rep_unique: "fq_rep fq q \<Longrightarrow> fq_rep fq q' \<Longrightarrow> q = q'"
  by (meson dll_unique fq_repD(1,4))

text \<open>
  Writes to the data of a block leave the represented list alone.
\<close>

lemma fq_rep_same_links:
  assumes "fq_rep fq q" "same_links (heap fq) h"
  shows "fq_rep (fq\<lparr>heap := h\<rparr>) q"
  using assms dll_same_links[OF assms(2)] by (auto simp: fq_rep_def same_links_def)

lemma same_links_data_writes [simp]:
  "same_links h (reset_hash h r)" "same_links h (add_ref d h r)"
  "set_block_hash h r k = Inr h' \<Longrightarrow> same_links h h'"
  by (auto simp: same_links_def reset_hash_def add_ref_def set_block_hash_def elim!: bindE_InrE)

section \<open>Each operation refines its list operation\<close>

text \<open>Detaching a block: both its links are cleared.\<close>

abbreviation detach :: "bheap \<Rightarrow> bref \<Rightarrow> bheap" where
  "detach h b \<equiv> set_next (set_prev h b None) b None"

lemma fq_repI:
  assumes "dll h Head q Tail" "distinct q" "Head \<notin> set q" "Tail \<notin> set q" "n = int (length q)"
    "prev_free_block (h Head) = None" "next_free_block (h Tail) = None"
    "\<And>r. r \<notin> set q \<Longrightarrow> r \<noteq> Head \<Longrightarrow> r \<noteq> Tail \<Longrightarrow> prev_free_block (h r) = None \<and> next_free_block (h r) = None"
  shows "fq_rep \<lparr>heap = h, num_free_blocks = n, \<dots> = m\<rparr> q"
  using assms by (simp add: fq_rep_def)

lemma fq_rep_distinct_ends: "fq_rep fq q \<Longrightarrow> distinct (Head # q @ [Tail])"
  by (auto simp: fq_rep_def)

lemma fq_popleft_Nil: "fq_rep fq [] \<Longrightarrow> fq_popleft fq = Inl ValueError"
  by (simp add: fq_rep_def fq_popleft_def)

lemma fq_popleft_Cons:
  assumes rep: "fq_rep fq (x # q)"
  shows "\<exists>fq'. fq_popleft fq = Inr (x, fq') \<and> fq_rep fq' q \<and> same_data (heap fq) (heap fq')"
proof -
  let ?h = "heap fq" and ?n = "hd (q @ [Tail])"
  let ?h2 = "set_prev (set_next ?h Head (Some ?n)) ?n (Some Head)"
  note D = fq_repD[OF rep]
  have x: "x \<noteq> Tail" "x \<noteq> Head" "x \<notin> set q" using D by auto
  have nx: "next_free_block (?h x) = Some ?n" using D(1) by (auto dest: dll_first)
  have "q \<noteq> [] \<Longrightarrow> dll ?h (hd q) (tl q) Tail" using D(1) by (cases q) auto
  then have "dll ?h2 Head q Tail"
    using dll_join[of ?h Head "[]" q Tail] fq_rep_distinct_ends[OF rep] by auto
  then have "fq_rep (fq\<lparr>heap := detach ?h2 x, num_free_blocks := num_free_blocks fq - 1\<rparr>) q"
    using D x by (auto simp: fq_rep_def hd_append)
  then show ?thesis
    using D(1) x nx by (auto simp: fq_popleft_def Let_def)
qed

text \<open>The loop of \<open>popleft_n\<close> walks a chain of next links and detaches what it passes.\<close>

fun chain :: "bheap \<Rightarrow> bref list \<Rightarrow> bref \<Rightarrow> bool" where
  "chain h [] z \<longleftrightarrow> True"
| "chain h (x # xs) z \<longleftrightarrow> next_free_block (h x) = Some (hd (xs @ [z])) \<and> chain h xs z"

lemma chain_detach [simp]: "x \<notin> set xs \<Longrightarrow> chain (detach h x) xs z = chain h xs z"
  by (induction xs) auto

lemma dll_chain: "dll h a (xs @ ys) z \<Longrightarrow> chain h xs (hd (ys @ [z]))"
proof (induction xs arbitrary: a)
  case (Cons x xs)
  then show ?case by (cases xs) (auto dest: dll_first)
qed simp

lemma popleft_loop_chain:
  "chain h xs z \<Longrightarrow> distinct xs \<Longrightarrow>
   popleft_loop (length xs) h (Some (hd (xs @ [z]))) = Inr (xs, Some z, fold (\<lambda>b h. detach h b) xs h)"
  by (induction xs arbitrary: h) auto

lemma fold_detach_fields:
  "next_free_block (fold (\<lambda>b h. detach h b) xs h r) = (if r \<in> set xs then None else next_free_block (h r))"
  "prev_free_block (fold (\<lambda>b h. detach h b) xs h r) = (if r \<in> set xs then None else prev_free_block (h r))"
  by (induction xs arbitrary: h) auto

lemma fold_detach_data [simp]: "same_data h (fold (\<lambda>b h. detach h b) xs g) = same_data h g"
  by (induction xs arbitrary: g) auto

lemma dll_detach [simp]:
  "set bs \<inter> (insert a (insert z (set xs))) = {} \<Longrightarrow> dll (fold (\<lambda>b h. detach h b) bs h) a xs z = dll h a xs z"
  by (induction bs arbitrary: h) auto

lemma fq_popleft_n_split:
  assumes rep: "fq_rep fq (xs @ q)"
  shows "\<exists>fq'. fq_popleft_n fq (int (length xs)) = Inr (xs, fq') \<and> fq_rep fq' q \<and>
               same_data (heap fq) (heap fq')"
proof (cases "xs = []")
  case True
  with rep show ?thesis by (simp add: fq_popleft_n_def)
next
  case False
  let ?h = "heap fq" and ?n = "hd (q @ [Tail])"
  let ?g = "fold (\<lambda>b h. detach h b) xs ?h"
  let ?h' = "set_prev (set_next ?g Head (Some ?n)) ?n (Some Head)"
  note D = fq_repD[OF rep]
  have ends: "distinct (Head # xs @ q @ [Tail])" using fq_rep_distinct_ends[OF rep] by simp
  have loop: "popleft_loop (length xs) ?h (next_free_block (?h Head)) = Inr (xs, Some ?n, ?g)"
    using popleft_loop_chain[OF dll_chain[OF D(1)]] dll_first[OF D(1)] D(2) False
    by (simp add: hd_append)
  have "q \<noteq> [] \<Longrightarrow> dll ?h (hd q) (tl q) Tail"
    using D(1) dll_append[of ?h Head xs "hd q" "tl q" Tail] by simp
  then have "q \<noteq> [] \<Longrightarrow> dll ?g (hd q) (tl q) Tail"
    using ends by (subst dll_detach) (auto, (meson list.set_sel disjoint_iff)+)
  then have "dll ?h' Head q Tail"
    using dll_join[of ?g Head "[]" q Tail] ends by auto
  then have "fq_rep (fq\<lparr>heap := ?h', num_free_blocks := num_free_blocks fq - int (length xs)\<rparr>) q"
    using D ends by (auto simp: fq_rep_def fold_detach_fields hd_append)
  then show ?thesis
    using False D(5) loop by (auto simp: fq_popleft_n_def Let_def)
qed

lemma fq_remove_middle:
  assumes rep: "fq_rep fq (xs @ b # ys)"
  shows "\<exists>fq'. fq_remove fq b = Inr fq' \<and> fq_rep fq' (xs @ ys) \<and> same_data (heap fq) (heap fq')"
proof -
  let ?h = "heap fq" and ?n = "hd (ys @ [Tail])" and ?p = "last (Head # xs)"
  let ?h2 = "set_prev (set_next ?h ?p (Some ?n)) ?n (Some ?p)"
  note D = fq_repD[OF rep]
  have ends: "distinct (Head # xs @ b # ys @ [Tail])" using fq_rep_distinct_ends[OF rep] by simp
  have seg: "dll ?h Head xs b" "dll ?h b ys Tail" using D(1) by (simp_all add: dll_append)
  have pn: "prev_free_block (?h b) = Some ?p" "next_free_block (?h b) = Some ?n"
    using dll_last[OF seg(1)] dll_first[OF seg(2)] by auto
  have "ys \<noteq> [] \<Longrightarrow> dll ?h (hd ys) (tl ys) Tail" using seg(2) by (cases ys) auto
  then have "dll ?h2 Head (xs @ ys) Tail"
    using dll_join[of ?h Head xs ys Tail] dll_dopen[OF seg(1)] ends by auto
  moreover have "?p \<noteq> b" "?n \<noteq> b" "?p \<noteq> Tail" "?n \<noteq> Head" "?p \<in> insert Head (set xs)" "?n \<in> insert Tail (set ys)"
    using ends by (auto simp: hd_append)
  ultimately have "fq_rep (fq\<lparr>heap := detach ?h2 b, num_free_blocks := num_free_blocks fq - 1\<rparr>) (xs @ ys)"
    using D ends by (auto simp: fq_rep_def)
  then show ?thesis
    using pn by (auto simp: fq_remove_def Let_def)
qed

lemma fq_remove_absent:
  assumes "fq_rep fq q" "b \<notin> set q" "b \<noteq> Head" "b \<noteq> Tail"
  shows "fq_remove fq b = Inl RuntimeError"
  using fq_repD(8)[OF assms] by (simp add: fq_remove_def)

lemma append_loop_open:
  assumes "dopen h a xs" "distinct (a # xs @ bs)"
  shows "fst (append_loop h (last (a # xs)) bs) = last (a # xs @ bs) \<and>
         dopen (snd (append_loop h (last (a # xs)) bs)) a (xs @ bs)"
  using assms
proof (induction bs arbitrary: h xs)
  case (Cons b bs)
  have "dopen (set_next (set_prev h b (Some (last (a # xs)))) (last (a # xs)) (Some b)) a (xs @ [b])"
    using Cons.prems by (intro dopen_snoc) auto
  from Cons.IH[OF this] Cons.prems(2) show ?case by simp
qed simp

lemma append_loop_fields:
  "r \<noteq> l \<Longrightarrow> r \<notin> set bs \<Longrightarrow>
     next_free_block (snd (append_loop h l bs) r) = next_free_block (h r)"
  "r \<notin> set bs \<Longrightarrow> prev_free_block (snd (append_loop h l bs) r) = prev_free_block (h r)"
  "same_data g (snd (append_loop h l bs)) = same_data g h"
  by (induction bs arbitrary: h l) auto

lemma fq_append_n_snoc:
  assumes rep: "fq_rep fq q" and new: "distinct bs" "set bs \<inter> set q = {}" "Head \<notin> set bs" "Tail \<notin> set bs"
  shows "\<exists>fq'. fq_append_n fq bs = Inr fq' \<and> fq_rep fq' (q @ bs) \<and> same_data (heap fq) (heap fq')"
proof (cases "bs = []")
  case True
  with rep show ?thesis by (simp add: fq_append_n_def)
next
  case False
  let ?h = "heap fq" and ?l = "last (Head # q)" and ?l' = "last (Head # q @ bs)"
  note D = fq_repD[OF rep]
  have ends: "distinct (Head # q @ bs @ [Tail])" using fq_rep_distinct_ends[OF rep] new by auto
  obtain h1 where loop: "append_loop ?h ?l bs = (?l', h1)" and op: "dopen h1 Head (q @ bs)"
    using append_loop_open[OF dll_dopen[OF D(1)], of bs] ends by (cases "append_loop ?h ?l bs") auto
  have h1: "h1 = snd (append_loop ?h ?l bs)" by (simp only: loop snd_conv)
  have F: "r \<noteq> ?l \<Longrightarrow> r \<notin> set bs \<Longrightarrow> next_free_block (h1 r) = next_free_block (?h r)"
    "r \<notin> set bs \<Longrightarrow> prev_free_block (h1 r) = prev_free_block (?h r)" "same_data ?h h1" for r
    unfolding h1 by (erule (1) append_loop_fields, erule append_loop_fields, simp only: append_loop_fields same_data_refl)
  let ?h2 = "set_prev (set_next h1 ?l' (Some Tail)) Tail (Some ?l')"
  have "dll ?h2 Head (q @ bs) Tail"
    using dll_join[of h1 Head "q @ bs" "[]" Tail] op ends by simp
  moreover have "?l' \<in> set bs" "?l \<in> insert Head (set q)" using False by auto
  ultimately have "fq_rep (fq\<lparr>heap := ?h2, num_free_blocks := num_free_blocks fq + int (length bs)\<rparr>) (q @ bs)"
    using D ends by (auto simp: fq_rep_def F)
  then show ?thesis
    using False loop dll_last[OF D(1)] F(3) by (auto simp: fq_append_n_def Let_def)
qed

lemma fq_append_eq_append_n: "fq_rep fq q \<Longrightarrow> b \<noteq> Head \<Longrightarrow> b \<noteq> Tail \<Longrightarrow> b \<notin> set q \<Longrightarrow>
  \<exists>fq'. fq_append fq b = Inr fq' \<and> fq_rep fq' (q @ [b]) \<and> same_data (heap fq) (heap fq')"
proof -
  assume rep: "fq_rep fq q" and b: "b \<noteq> Head" "b \<noteq> Tail" "b \<notin> set q"
  obtain fq' where fq': "fq_append_n fq [b] = Inr fq'" "fq_rep fq' (q @ [b])" "same_data (heap fq) (heap fq')"
    using fq_append_n_snoc[OF rep, of "[b]"] b by auto
  have "last (Head # q) \<noteq> b" using b by auto
  then have "set_next (set_prev h b v) (last (Head # q)) w = set_prev (set_next h (last (Head # q)) w) b v" for h v w
    by (auto simp: set_next_def set_prev_def fun_eq_iff)
  then have "fq_append fq b = fq_append_n fq [b]"
    using dll_last[OF fq_repD(1)[OF rep]] by (simp add: fq_append_def fq_append_n_def Let_def)
  with fq' show ?thesis by auto
qed

lemma collect_loop_chain:
  "chain h xs z \<Longrightarrow> next_free_block (h z) = None \<Longrightarrow>
   collect_loop h (hd (xs @ [z])) ret = Some (ret @ xs)"
proof (induction xs arbitrary: ret)
  case Nil
  then show ?case by (subst collect_loop.simps) simp
next
  case (Cons x xs)
  then show ?case by (subst collect_loop.simps) simp
qed

section \<open>The constructor\<close>

lemma dopen_nth:
  "dopen h a xs \<longleftrightarrow>
     (\<forall>i < length xs. next_free_block (h ((a # xs) ! i)) = Some (xs ! i) \<and>
                      prev_free_block (h (xs ! i)) = Some ((a # xs) ! i))"
  by (induction xs arbitrary: a) (simp_all add: All_less_Suc2)

lemma link_step_apply:
  assumes "distinct bs" "k < length bs" "i < length bs"
  shows "next_free_block (link_step bs k h (bs ! i)) =
      (if i = k \<and> i + 1 < length bs then Some (bs ! (i + 1)) else next_free_block (h (bs ! i)))"
    and "prev_free_block (link_step bs k h (bs ! i)) =
      (if i = k \<and> 0 < i then Some (bs ! (i - 1)) else prev_free_block (h (bs ! i)))"
proof -
  have "i \<noteq> k \<Longrightarrow> bs ! i \<noteq> bs ! k" using nth_eq_iff_index_eq[OF assms(1,3,2)] by blast
  then show "next_free_block (link_step bs k h (bs ! i)) =
      (if i = k \<and> i + 1 < length bs then Some (bs ! (i + 1)) else next_free_block (h (bs ! i)))"
    by (cases "i = k"; cases "0 < k"; cases "k + 1 < length bs"; simp add: link_step_def Let_def)
next
  have "i \<noteq> k \<Longrightarrow> bs ! i \<noteq> bs ! k" using nth_eq_iff_index_eq[OF assms(1,3,2)] by blast
  then show  "prev_free_block (link_step bs k h (bs ! i)) =
      (if i = k \<and> 0 < i then Some (bs ! (i - 1)) else prev_free_block (h (bs ! i)))"
    by (cases "i = k"; cases "0 < k"; cases "k + 1 < length bs"; simp add: link_step_def Let_def)
qed

lemma link_step_frame:
  "block_data (link_step bs k h r) = block_data (h r)"
  "k < length bs \<Longrightarrow> r \<notin> set bs \<Longrightarrow> link_step bs k h r = h r"
proof -
  show "block_data (link_step bs k h r) = block_data (h r)"
    by (simp add: link_step_def Let_def)
  assume k: "k < length bs" and r: "r \<notin> set bs"
  then have "r \<noteq> bs ! k" by auto
  then show "link_step bs k h r = h r"
    by (simp add: link_step_def Let_def set_next_def set_prev_def)
qed

lemma link_steps:
  assumes d: "distinct bs" and i: "i < length bs"
  shows "k \<le> length bs \<Longrightarrow> next_free_block (fold (link_step bs) [0..<k] h (bs ! i)) =
      (if i < k \<and> i + 1 < length bs then Some (bs ! (i + 1)) else next_free_block (h (bs ! i)))"
    and "k \<le> length bs \<Longrightarrow> prev_free_block (fold (link_step bs) [0..<k] h (bs ! i)) =
      (if i < k \<and> 0 < i then Some (bs ! (i - 1)) else prev_free_block (h (bs ! i)))"
  by (induction k) (simp_all add: link_step_apply[OF d _ i])

lemma link_steps_frame:
  "block_data (fold (link_step bs) [0..<k] h r) = block_data (h r)"
  "k \<le> length bs \<Longrightarrow> r \<notin> set bs \<Longrightarrow> fold (link_step bs) [0..<k] h r = h r"
  by (induction k) (simp_all add: link_step_frame)

lemma link_steps_dopen:
  assumes "distinct (b # bs)"
  shows "dopen (fold (link_step (b # bs)) [0..<length (b # bs)] h) b bs"
  unfolding dopen_nth
proof (intro allI impI conjI)
  fix i assume i: "i < length bs"
  show "next_free_block (fold (link_step (b # bs)) [0..<length (b # bs)] h ((b # bs) ! i)) = Some (bs ! i)"
    using i link_steps(1)[OF assms, of i "length (b # bs)" h] by simp
  show "prev_free_block (fold (link_step (b # bs)) [0..<length (b # bs)] h (bs ! i)) = Some ((b # bs) ! i)"
    using i link_steps(2)[OF assms, of "Suc i" "length (b # bs)" h] by simp
qed

lemma dopen_cong: "(\<And>r. r \<in> insert a (set xs) \<Longrightarrow> h r = g r) \<Longrightarrow> dopen h a xs = dopen g a xs"
  by (induction xs arbitrary: a) auto

lemma dll_close:
  assumes "dopen h a xs" "xs \<noteq> []" "distinct (a # xs @ [z])"
  shows "dll (set_next (set_prev h z (Some (last xs))) (last xs) (Some z)) a xs z"
proof -
  have "last xs \<noteq> z" using assms(2,3) by auto
  then have "set_next (set_prev h z (Some (last xs))) (last xs) (Some z) =
      set_prev (set_next h (last xs) (Some z)) z (Some (last xs))"
    by (simp add: set_prev_def set_next_def fun_upd_twist)
  then show ?thesis using dll_join[OF assms(1), of "[]" z] assms(2,3) by simp
qed

lemma fq_rep_close:
  assumes "dopen g b cs" "distinct (Head # Tail # b # cs)"
    and out: "\<And>r. r \<notin> set (b # cs) \<Longrightarrow> prev_free_block (g r) = None \<and> next_free_block (g r) = None"
  shows "fq_rep \<lparr>heap = set_next (set_prev (set_prev (set_next g Head (Some b)) b (Some Head))
               Tail (Some (last (b # cs)))) (last (b # cs)) (Some Tail), num_free_blocks = int (length (b # cs))\<rparr> (b # cs)"
proof -
  have "dopen (set_prev (set_next g Head (Some b)) b (Some Head)) Head (b # cs)"
    using assms(1,2) by auto
  then have "dll (set_next (set_prev (set_prev (set_next g Head (Some b)) b (Some Head))
               Tail (Some (last (b # cs)))) (last (b # cs)) (Some Tail)) Head (b # cs) Tail"
    using assms(2) by (intro dll_close) auto
  moreover have "last (b # cs) \<in> set (b # cs)" by (rule last_in_set) simp
  then have "r \<notin> set (b # cs) \<Longrightarrow> r \<noteq> last (b # cs) \<and> r \<noteq> b" for r by auto
  moreover have "Head \<notin> set (b # cs)" "Tail \<notin> set (b # cs)" "distinct (b # cs)" using assms(2) by auto
  ultimately show ?thesis
    using out by (intro fq_repI) (simp_all del: dll.simps last.simps set_simps distinct.simps)
qed

lemma fq_init_rep:
  assumes "distinct (Head # Tail # bs)"
    and links: "\<And>r. prev_free_block (h r) = None" "\<And>r. next_free_block (h r) = None"
  shows "fq_rep (fq_init h bs) bs" "same_data h (heap (fq_init h bs))"
proof -
  show "fq_rep (fq_init h bs) bs"
  proof (cases bs)
    case Nil
    then show ?thesis
      using links by (simp add: fq_init_def Let_def fq_rep_def new_block_def)
  next
    case (Cons b cs)
    define g where "g = fold (link_step bs) [0..<length bs] h"
    let ?g = "g(Head := new_block (- 1), Tail := new_block (- 1))"
    have "dopen ?g b cs"
      using link_steps_dopen[of b cs h] assms(1) Cons
      by (subst dopen_cong[where g = g]) (auto simp: g_def simp del: upt_Suc)
    moreover have "g r = h r" if "r \<notin> set bs" for r
      using link_steps_frame(2) that by (auto simp: g_def)
    ultimately have "fq_rep \<lparr>heap = set_next (set_prev (set_prev (set_next ?g Head (Some b)) b (Some Head))
               Tail (Some (last bs))) (last bs) (Some Tail), num_free_blocks = int (length bs)\<rparr> bs"
      unfolding Cons using assms(1) links Cons
      by (intro fq_rep_close) (auto simp: new_block_def)
    then show ?thesis
      unfolding fq_init_def Let_def g_def by (simp only: Cons length_greater_0_conv list.simps nth_Cons_0 if_True not_False_eq_True simp_thms)
  qed
  show "same_data h (heap (fq_init h bs))"
    by (simp add: same_data_def link_steps_frame(1) fq_init_def Let_def)
qed

section \<open>The contract of the queue\<close>

text \<open>Popping one block at a time, the reference for \<open>popleft_n\<close>.\<close>

fun pops :: "('q \<Rightarrow> ('b \<times> 'q) result) \<Rightarrow> nat \<Rightarrow> 'q \<Rightarrow> ('b list \<times> 'q) result" where
  "pops pop 0 fq = Inr ([], fq)"
| "pops pop (Suc n) fq =
     bindE (pop fq) (\<lambda>(b, fq'). bindE (pops pop n fq') (\<lambda>(bs, fq''). Inr (b # bs, fq'')))"

text \<open>
  What the block pool relies on: the queue stands for a list (\<open>rep\<close>), every operation is the
  list operation on it, and none changes the data of a block (\<open>frame\<close>).
\<close>

locale free_list =
  fixes rep :: "'q \<Rightarrow> 'b list \<Rightarrow> bool"
    and frame :: "'q \<Rightarrow> 'q \<Rightarrow> bool"
    and proper :: "'b \<Rightarrow> bool"
    and popleft :: "'q \<Rightarrow> ('b \<times> 'q) result"
    and popleft_n :: "'q \<Rightarrow> int \<Rightarrow> ('b list \<times> 'q) result"
    and remove :: "'q \<Rightarrow> 'b \<Rightarrow> 'q result"
    and append_n :: "'q \<Rightarrow> 'b list \<Rightarrow> 'q result"
  assumes frame_refl: "frame fq fq"
    and frame_trans: "frame fq fq' \<Longrightarrow> frame fq' fq'' \<Longrightarrow> frame fq fq''"
    and rep_distinct: "rep fq q \<Longrightarrow> distinct q"
    and popleft_nil: "rep fq [] \<Longrightarrow> popleft fq = Inl ValueError"
    and popleft_cons: "rep fq (x # q) \<Longrightarrow> \<exists>fq'. popleft fq = Inr (x, fq') \<and> rep fq' q \<and> frame fq fq'"
    and popleft_n_prefix: "rep fq (xs @ q) \<Longrightarrow>
      \<exists>fq'. popleft_n fq (int (length xs)) = Inr (xs, fq') \<and> rep fq' q \<and> frame fq fq'"
    and remove_mid: "rep fq (xs @ b # ys) \<Longrightarrow> \<exists>fq'. remove fq b = Inr fq' \<and> rep fq' (xs @ ys) \<and> frame fq fq'"
    and append_n_end: "rep fq q \<Longrightarrow> distinct bs \<Longrightarrow> set bs \<inter> set q = {} \<Longrightarrow> (\<forall>b \<in> set bs. proper b) \<Longrightarrow>
      \<exists>fq'. append_n fq bs = Inr fq' \<and> rep fq' (q @ bs) \<and> frame fq fq'"
begin

lemma pops_prefix:
  "rep fq (xs @ q) \<Longrightarrow> \<exists>fq'. pops popleft (length xs) fq = Inr (xs, fq') \<and> rep fq' q \<and> frame fq fq'"
proof (induction xs arbitrary: fq)
  case Nil
  then show ?case by (simp add: frame_refl)
next
  case (Cons x xs)
  from popleft_cons[of fq x "xs @ q"] Cons.prems
  obtain fq1 where 1: "popleft fq = Inr (x, fq1)" "rep fq1 (xs @ q)" "frame fq fq1" by auto
  from Cons.IH[OF 1(2)] 1 show ?case by (auto intro: frame_trans)
qed

lemma popleft_n_same_as_pops:
  assumes "rep fq (xs @ q)"
  obtains fq1 fq2 where "popleft_n fq (int (length xs)) = Inr (xs, fq1)"
    "pops popleft (length xs) fq = Inr (xs, fq2)" "rep fq1 q" "rep fq2 q"
  using popleft_n_prefix[OF assms] pops_prefix[OF assms] by auto

lemma pop_all_after_append:
  assumes "rep fq q" "distinct bs" "set bs \<inter> set q = {}" "\<forall>b \<in> set bs. proper b"
  shows "\<exists>fq1 fq2. append_n fq bs = Inr fq1 \<and>
           popleft_n fq1 (int (length q + length bs)) = Inr (q @ bs, fq2) \<and> rep fq2 [] \<and> frame fq fq2"
proof -
  obtain fq1 where 1: "append_n fq bs = Inr fq1" "rep fq1 (q @ bs)" "frame fq fq1"
    using append_n_end[OF assms] by auto
  from popleft_n_prefix[of fq1 "q @ bs" "[]"] 1 show ?thesis
    by (auto intro: frame_trans)
qed

lemma remove_keeps_order:
  assumes "rep fq q" "b \<in> set q"
  shows "\<exists>fq'. remove fq b = Inr fq' \<and> rep fq' (remove1 b q) \<and> frame fq fq'"
proof -
  from assms(2) obtain xs ys where "q = xs @ b # ys" "b \<notin> set xs" by (meson split_list_first)
  then show ?thesis using remove_mid[of fq xs b ys] assms(1) by (auto simp: remove1_append)
qed

end

interpretation fl: free_list fq_rep "\<lambda>fq fq'. same_data (heap fq) (heap fq')"
  "\<lambda>b. b \<noteq> Head \<and> b \<noteq> Tail" fq_popleft fq_popleft_n fq_remove fq_append_n
proof (unfold_locales, goal_cases)
  case (2 fq fq' fq'') then show ?case by (rule same_data_trans)
next
  case (3 fq q) then show ?case by (rule fq_repD(2))
next
  case (4 fq) then show ?case by (rule fq_popleft_Nil)
next
  case (5 fq x q) then show ?case by (rule fq_popleft_Cons)
next
  case (6 fq xs q) then show ?case by (rule fq_popleft_n_split)
next
  case (7 fq xs b ys) then show ?case by (rule fq_remove_middle)
next
  case (8 fq q bs) then show ?case by (intro fq_append_n_snoc) auto
qed simp

section \<open>Properties of the queue\<close>

lemma fq_popleft_n_too_many:
  assumes "fq_rep fq q" "int (length q) < n"
  shows "fq_popleft_n fq n = Inl AssertionError"
  using assms fq_repD(5)[OF assms(1)] by (simp add: fq_popleft_n_def)



lemma fq_get_all_free_blocks_rep:
  assumes "fq_rep fq q"
  shows "fq_get_all_free_blocks fq = Inr (Some q)"
proof -
  note D = fq_repD[OF assms]
  have "chain (heap fq) q Tail" using dll_chain[of "heap fq" Head q "[]" Tail] D(1) by simp
  from collect_loop_chain[OF this D(7), of "[]"] show ?thesis
    using dll_first[OF D(1)] by (simp add: fq_get_all_free_blocks_def)
qed

text \<open>
  \<open>get_all_free_blocks\<close> terminates on every queue the operations can build, and returns
  the free blocks in the order in which they will be allocated.
\<close>

lemma get_all_free_blocks_returns:
  assumes "fq_rep fq q"
  shows "fq_get_all_free_blocks fq = Inr (Some q)"
  using assms by (rule fq_get_all_free_blocks_rep)

lemma get_all_free_blocks_returns_witness:
  "fq_get_all_free_blocks (fq_init (\<lambda>_. new_block 0) [Blk 1, Blk 2]) = Inr (Some [Blk 1, Blk 2])"
  by (rule get_all_free_blocks_returns, rule fq_init_rep(1)) (simp_all add: new_block_def)

text \<open>
  The batch operation \<open>popleft_n\<close> is equivalent to calling \<open>popleft\<close> the same number of
  times: the same blocks come out in the same order and the same list is left.
\<close>

lemma popleft_n_is_repeated_popleft:
  assumes "fq_rep fq q" "n \<le> length q"
  shows "\<exists>fq1 fq2. fq_popleft_n fq (int n) = Inr (take n q, fq1) \<and>
           pops fq_popleft n fq = Inr (take n q, fq2) \<and>
           fq_rep fq1 (drop n q) \<and> fq_rep fq2 (drop n q)"
proof -
  have "fq_rep fq (take n q @ drop n q)" using assms(1) by simp
  moreover have "length (take n q) = n" using assms(2) by simp
  ultimately show ?thesis using fl.popleft_n_same_as_pops by metis
qed

lemma popleft_n_is_repeated_popleft_witness:
  "\<exists>fq1 fq2. fq_popleft_n (fq_init (\<lambda>_. new_block 0) [Blk 1, Blk 2]) 2 = Inr ([Blk 1, Blk 2], fq1) \<and>
     pops fq_popleft 2 (fq_init (\<lambda>_. new_block 0) [Blk 1, Blk 2]) = Inr ([Blk 1, Blk 2], fq2) \<and>
     fq_rep fq1 [] \<and> fq_rep fq2 []"
proof -
  have "fq_rep (fq_init (\<lambda>_. new_block 0) [Blk 1, Blk 2]) [Blk 1, Blk 2]"
    by (rule fq_init_rep) (simp_all add: new_block_def)
  from popleft_n_is_repeated_popleft[OF this, of 2] show ?thesis by simp
qed

end
