(* ===== verification/Hash_Map.thy ===== *)
theory Hash_Map
  imports Free_Queue
begin

text \<open>
  The prefix cache index of \<open>vllm/v1/core/block_pool.py\<close>: \<open>BlockHashToBlockMap\<close>, a dictionary
  from a block hash (with its group) to one block, or to a dictionary of blocks by identifier
  when several blocks hold the same contents. It implements a set of blocks per key
  (\<open>cached\<close>); the locale \<open>block_index\<close> is the contract its client relies on.
\<close>

section \<open>The map\<close>

datatype cache_entry = One bref | Many "(int, bref) dict"

type_synonym block_index_map = "(bytes, cache_entry) dict"

definition bhm_init :: block_index_map where
  "bhm_init = []"

definition get_one_block :: "block_index_map \<Rightarrow> bytes \<Rightarrow> bref option result" where
  "get_one_block c key =
     (case dget c key of
        None \<Rightarrow> Inr None
      | Some (One b) \<Rightarrow> Inr (Some b)
      | Some (Many d) \<Rightarrow> (case d of [] \<Rightarrow> Inl StopIteration | (_, b) # _ \<Rightarrow> Inr (Some b)))"

text \<open>The argument \<open>bid\<close> reads the field \<open>block_id\<close> of a block.\<close>

definition bhm_insert :: "(bref \<Rightarrow> int) \<Rightarrow> block_index_map \<Rightarrow> bytes \<Rightarrow> bref \<Rightarrow> block_index_map" where
  "bhm_insert bid c key b =
     (case dget c key of
        None \<Rightarrow> dset key (One b) c
      | Some (One a) \<Rightarrow> dset key (Many (dset (bid b) b [(bid a, a)])) c
      | Some (Many d) \<Rightarrow> dset key (Many (dset (bid b) b d)) c)"

definition bhm_pop ::
    "(bref \<Rightarrow> int) \<Rightarrow> block_index_map \<Rightarrow> bytes \<Rightarrow> int \<Rightarrow> bref option \<times> block_index_map" where
  "bhm_pop bid c key i =
     (let c1 = ddel key c
      in case dget c key of
           None \<Rightarrow> (None, c1)
         | Some (One b) \<Rightarrow> if bid b = i then (Some b, c1) else (None, dset key (One b) c1)
         | Some (Many d) \<Rightarrow>
             (let d1 = ddel i d
              in (dget d i, if 0 < length d1 then dset key (Many d1) c1 else c1)))"

definition bhm_len :: "block_index_map \<Rightarrow> int" where
  "bhm_len c = int (length c)"

section \<open>What the map stands for\<close>

fun entry_blocks :: "cache_entry \<Rightarrow> bref set" where
  "entry_blocks (One b) = {b}"
| "entry_blocks (Many d) = snd ` set d"

fun entry_ok :: "(bref \<Rightarrow> int) \<Rightarrow> cache_entry \<Rightarrow> bool" where
  "entry_ok bid (One b) \<longleftrightarrow> True"
| "entry_ok bid (Many d) \<longleftrightarrow> d \<noteq> [] \<and> dict_ok d \<and> (\<forall>(i, b) \<in> set d. bid b = i)"

text \<open>The blocks cached under a key, and the invariant of the map.\<close>

definition cached :: "block_index_map \<Rightarrow> bytes \<Rightarrow> bref set" where
  "cached c key = (case dget c key of None \<Rightarrow> {} | Some e \<Rightarrow> entry_blocks e)"

definition bhm_ok :: "(bref \<Rightarrow> int) \<Rightarrow> block_index_map \<Rightarrow> bool" where
  "bhm_ok bid c \<longleftrightarrow> dict_ok c \<and> (\<forall>key e. dget c key = Some e \<longrightarrow> entry_ok bid e)"

lemma entry_blocks_nonempty: "entry_ok bid e \<Longrightarrow> entry_blocks e \<noteq> {}"
  by (cases e) auto

lemma bhm_okD: "bhm_ok bid c \<Longrightarrow> dget c key = Some e \<Longrightarrow> entry_ok bid e"
  by (auto simp: bhm_ok_def)

lemma bhm_ok_set: "bhm_ok bid c \<Longrightarrow> entry_ok bid e \<Longrightarrow> bhm_ok bid (dset key e c)"
  and bhm_ok_del: "bhm_ok bid c \<Longrightarrow> bhm_ok bid (ddel key c)"
  by (auto simp: bhm_ok_def)

lemma cached_set [simp]: "cached (dset key e c) k = (if k = key then entry_blocks e else cached c k)"
  and cached_del [simp]: "cached (ddel key c) k = (if k = key then {} else cached c k)"
  by (auto simp: cached_def)

lemma bhm_init_ok [simp]: "bhm_ok bid bhm_init" "cached bhm_init key = {}"
  by (auto simp: bhm_ok_def cached_def bhm_init_def)

lemma cached_empty_iff: "bhm_ok bid c \<Longrightarrow> cached c key = {} \<longleftrightarrow> dget c key = None"
  by (auto simp: cached_def dest: bhm_okD entry_blocks_nonempty split: option.splits)

text \<open>Dictionaries keyed by the identifier of their value.\<close>

lemma keyed_set:
  assumes "dict_ok d" "\<forall>(i, b) \<in> set d. bid b = i" "inj_on bid (insert b (snd ` set d))"
  shows "snd ` set (dset (bid b) b d) = insert b (snd ` set d) \<and>
         (\<forall>(i, x) \<in> set (dset (bid b) b d). bid x = i)"
  using assms
proof (induction d)
  case (Cons p d)
  obtain i x where p: "p = (i, x)" "bid x = i" using Cons.prems by auto
  have "inj_on bid (insert b (snd ` set d))"
    by (rule inj_on_subset[OF Cons.prems(3)]) auto
  moreover have "dict_ok d" "\<forall>(i, b) \<in> set d. bid b = i" using Cons.prems by simp_all
  ultimately have IH: "snd ` set (dset (bid b) b d) = insert b (snd ` set d)"
    "\<forall>(i, x) \<in> set (dset (bid b) b d). bid x = i" using Cons.IH by blast+
  show ?case
  proof (cases "bid b = i")
    case True
    then have "x = b" using inj_onD[OF Cons.prems(3), of x b] p by simp
    then show ?thesis using True Cons.prems(2) p by simp
  next
    case False
    then show ?thesis using IH p by (simp add: insert_commute)
  qed
qed simp

lemma keyed_get:
  assumes "dict_ok d" "\<forall>(i, b) \<in> set d. bid b = i"
  shows "dget d i = Some b \<Longrightarrow> b \<in> snd ` set d \<and> bid b = i"
    and "dget d i = None \<longleftrightarrow> (\<forall>b \<in> snd ` set d. bid b \<noteq> i)"
  using assms by (force dest: map_of_SomeD, force simp: map_of_eq_None_iff)

lemma keyed_del:
  assumes "dict_ok d" "\<forall>(i, b) \<in> set d. bid b = i"
  shows "snd ` set (ddel i d) = {b \<in> snd ` set d. bid b \<noteq> i}"
  using assms by (force simp: AList.delete_eq)

section \<open>The operations\<close>

lemma get_one_block_spec:
  assumes "bhm_ok bid c"
  shows "case get_one_block c key of
           Inl e \<Rightarrow> False
         | Inr None \<Rightarrow> cached c key = {}
         | Inr (Some b) \<Rightarrow> b \<in> cached c key"
proof (cases "dget c key")
  case (Some e)
  with bhm_okD[OF assms Some] show ?thesis
    by (cases e) (auto simp: get_one_block_def cached_def split: list.splits)
qed (simp add: get_one_block_def cached_def)

lemma bhm_insert_spec:
  assumes "bhm_ok bid c" "inj_on bid (insert b (cached c key))"
  shows "bhm_ok bid (bhm_insert bid c key b)"
    and "cached (bhm_insert bid c key b) k = (if k = key then insert b (cached c key) else cached c k)"
proof -
  consider (new) "dget c key = None" | (one) a where "dget c key = Some (One a)"
    | (many) d where "dget c key = Some (Many d)"
    by (metis cache_entry.exhaust not_None_eq)
  then have "bhm_ok bid (bhm_insert bid c key b) \<and>
    cached (bhm_insert bid c key b) k = (if k = key then insert b (cached c key) else cached c k)"
  proof cases
    case new
    then show ?thesis using assms(1) by (auto simp: bhm_insert_def cached_def bhm_ok_set)
  next
    case one
    then have "cached c key = {a}" by (simp add: cached_def)
    then have inj: "inj_on bid {b, a}" using assms(2) by simp
    with one show ?thesis
      using assms(1) by (auto simp: bhm_insert_def intro!: bhm_ok_set) (auto simp: cached_def inj_on_def)
  next
    case many
    then have c: "cached c key = snd ` set d" by (simp add: cached_def)
    have ok: "dict_ok d" "\<forall>(i, b) \<in> set d. bid b = i" using bhm_okD[OF assms(1) many] by auto
    note k = keyed_set[OF ok, of b] assms(2)[unfolded c]
    have "dset (bid b) b d \<noteq> []" by (cases d) auto
    with k ok have "entry_ok bid (Many (dset (bid b) b d))" by (simp add: distinct_update)
    with k many c assms(1) show ?thesis by (simp add: bhm_insert_def bhm_ok_set)
  qed
  then show "bhm_ok bid (bhm_insert bid c key b)"
    "cached (bhm_insert bid c key b) k = (if k = key then insert b (cached c key) else cached c k)" by auto
qed

lemma bhm_pop_spec:
  assumes "bhm_ok bid c"
  shows "bhm_ok bid (snd (bhm_pop bid c key i))"
    and "cached (snd (bhm_pop bid c key i)) k =
           (if k = key then {b \<in> cached c key. bid b \<noteq> i} else cached c k)"
    and "case fst (bhm_pop bid c key i) of
           None \<Rightarrow> \<forall>b \<in> cached c key. bid b \<noteq> i
         | Some b \<Rightarrow> b \<in> cached c key \<and> bid b = i"
proof -
  consider (new) "dget c key = None" | (one) a where "dget c key = Some (One a)"
    | (many) d where "dget c key = Some (Many d)"
    by (metis cache_entry.exhaust not_None_eq)
  then have "bhm_ok bid (snd (bhm_pop bid c key i)) \<and>
    cached (snd (bhm_pop bid c key i)) k = (if k = key then {b \<in> cached c key. bid b \<noteq> i} else cached c k) \<and>
    (case fst (bhm_pop bid c key i) of None \<Rightarrow> \<forall>b \<in> cached c key. bid b \<noteq> i
         | Some b \<Rightarrow> b \<in> cached c key \<and> bid b = i)"
  proof cases
    case new
    then show ?thesis using assms by (simp add: bhm_pop_def bhm_ok_del) (simp add: cached_def)
  next
    case one
    then have "cached c key = {a}" by (simp add: cached_def)
    with one assms show ?thesis by (auto simp: bhm_pop_def Let_def bhm_ok_set bhm_ok_del)
  next
    case many
    then have c: "cached c key = snd ` set d" by (simp add: cached_def)
    have ok: "dict_ok d" "\<forall>(i, b) \<in> set d. bid b = i" using bhm_okD[OF assms(1) many] by auto
    note del = keyed_del[OF ok, of i] and get = keyed_get[OF ok, of i]
    have "ddel i d \<noteq> [] \<Longrightarrow> entry_ok bid (Many (ddel i d))"
      using ok by (auto simp: AList.delete_eq intro: distinct_map_filter)
    moreover have "\<exists>a b. (a, b) \<in> set d" using bhm_okD[OF assms(1) many] by (cases d) auto
    moreover have "ddel i d = [] \<Longrightarrow> {b \<in> snd ` set d. bid b \<noteq> i} = {}" using del by auto
    ultimately show ?thesis
      using many c del get assms
      by (auto simp: bhm_pop_def Let_def bhm_ok_set bhm_ok_del split: option.splits)
  qed
  then show "bhm_ok bid (snd (bhm_pop bid c key i))"
    "cached (snd (bhm_pop bid c key i)) k = (if k = key then {b \<in> cached c key. bid b \<noteq> i} else cached c k)"
    "case fst (bhm_pop bid c key i) of None \<Rightarrow> \<forall>b \<in> cached c key. bid b \<noteq> i
         | Some b \<Rightarrow> b \<in> cached c key \<and> bid b = i" by auto
qed

section \<open>The contract of the map\<close>

text \<open>
  What the block pool relies on: a set of blocks under every key, from which \<open>get\<close> picks one,
  to which \<open>ins\<close> adds one and from which \<open>pop\<close> takes the one with the given identifier.
\<close>

locale block_index =
  fixes ok :: "'m \<Rightarrow> bool" and held :: "'m \<Rightarrow> 'k \<Rightarrow> 'b set" and bid :: "'b \<Rightarrow> int"
    and empty :: 'm
    and get :: "'m \<Rightarrow> 'k \<Rightarrow> 'b option result"
    and ins :: "'m \<Rightarrow> 'k \<Rightarrow> 'b \<Rightarrow> 'm"
    and pop :: "'m \<Rightarrow> 'k \<Rightarrow> int \<Rightarrow> 'b option \<times> 'm"
  assumes empty_ok: "ok empty" and empty_held: "held empty k = {}"
    and get_held: "ok m \<Longrightarrow> get m k = Inr (Some b) \<Longrightarrow> b \<in> held m k"
    and get_none: "ok m \<Longrightarrow> get m k = Inr None \<Longrightarrow> held m k = {}"
    and get_total: "ok m \<Longrightarrow> get m k \<noteq> Inl e"
    and ins_ok: "ok m \<Longrightarrow> inj_on bid (insert b (held m k)) \<Longrightarrow> ok (ins m k b)"
    and ins_held: "ok m \<Longrightarrow> inj_on bid (insert b (held m k)) \<Longrightarrow>
      held (ins m k b) l = (if l = k then insert b (held m k) else held m l)"
    and pop_ok: "ok m \<Longrightarrow> ok (snd (pop m k i))"
    and pop_held: "ok m \<Longrightarrow> held (snd (pop m k i)) l = (if l = k then {b \<in> held m k. bid b \<noteq> i} else held m l)"
    and pop_some: "ok m \<Longrightarrow> fst (pop m k i) = Some b \<Longrightarrow> b \<in> held m k \<and> bid b = i"
    and pop_none: "ok m \<Longrightarrow> fst (pop m k i) = None \<Longrightarrow> \<forall>b \<in> held m k. bid b \<noteq> i"
begin

lemma get_finds_iff: "ok m \<Longrightarrow> (\<exists>b. get m k = Inr (Some b)) \<longleftrightarrow> held m k \<noteq> {}"
proof
  assume ok: "ok m" and ne: "held m k \<noteq> {}"
  show "\<exists>b. get m k = Inr (Some b)"
  proof (cases "get m k")
    case (Inl e) then show ?thesis using get_total[OF ok] by simp
  next
    case (Inr r) then show ?thesis using get_none[OF ok, of k] ne by (cases r) auto
  qed
qed (auto dest: get_held)

text \<open>Inserting a new block and popping it by its identifier restores what was held.\<close>

lemma ins_pop:
  assumes "ok m" "inj_on bid (insert b (held m k))" "b \<notin> held m k"
  shows "fst (pop (ins m k b) k (bid b)) = Some b"
    and "held (snd (pop (ins m k b) k (bid b))) l = held m l"
proof -
  have ok: "ok (ins m k b)" using assms(1,2) by (rule ins_ok)
  have h: "held (ins m k b) k = insert b (held m k)" using ins_held[OF assms(1,2)] by simp
  have fresh: "x \<in> held m k \<Longrightarrow> bid x \<noteq> bid b" for x
    using assms(2,3) inj_onD[of bid "insert b (held m k)" x b] by blast
  show "fst (pop (ins m k b) k (bid b)) = Some b"
  proof (cases "fst (pop (ins m k b) k (bid b))")
    case None then show ?thesis using pop_none[OF ok None] h by simp
  next
    case (Some x)
    with pop_some[OF ok Some] h fresh show ?thesis by auto
  qed
  have "{x \<in> insert b (held m k). bid x \<noteq> bid b} = held m k" using fresh by auto
  then show "held (snd (pop (ins m k b) k (bid b))) l = held m l"
    using pop_held[OF ok, of k "bid b" l] ins_held[OF assms(1,2), of l] h by simp
qed

end

text \<open>
  The interpretation holds for every way \<open>bid\<close> of reading identifiers.
\<close>

interpretation bhm: block_index "bhm_ok bid" cached bid bhm_init get_one_block
  "bhm_insert bid" "bhm_pop bid" for bid
proof (unfold_locales, goal_cases)
  case (3 m k b) then show ?case using get_one_block_spec[of bid m k] by simp
next
  case (4 m k) then show ?case using get_one_block_spec[of bid m k] by simp
next
  case (5 m k e) then show ?case using get_one_block_spec[of bid m k] by auto
next
  case (6 m b k) then show ?case by (rule bhm_insert_spec)
next
  case (7 m b k l) then show ?case by (rule bhm_insert_spec)
next
  case (8 m k i) then show ?case by (rule bhm_pop_spec)
next
  case (9 m k i l) then show ?case by (rule bhm_pop_spec)
next
  case (10 m k i b) then show ?case using bhm_pop_spec(3)[of bid m k i] by simp
next
  case (11 m k i) then show ?case using bhm_pop_spec(3)[of bid m k i] by simp
qed simp_all

section \<open>Properties of the map\<close>

text \<open>
  The union-typed map implements one set of blocks per key. A lookup never raises and finds
  a block exactly when one is held; after an insert the key also holds the new block; popping
  the identifier of the block just inserted gives that block back and restores every set, in
  each of the three shapes of the entry (absent, single block, dictionary).
\<close>

lemma block_map_insert_pop_roundtrip:
  assumes "bhm_ok bid c" "inj_on bid (insert b (cached c key))" "b \<notin> cached c key"
  shows "(\<exists>x. get_one_block (bhm_insert bid c key b) key = Inr (Some x) \<and> x \<in> insert b (cached c key)) \<and>
         fst (bhm_pop bid (bhm_insert bid c key b) key (bid b)) = Some b \<and>
         bhm_ok bid (snd (bhm_pop bid (bhm_insert bid c key b) key (bid b))) \<and>
         cached (snd (bhm_pop bid (bhm_insert bid c key b) key (bid b))) k = cached c k"
proof -
  have ok: "bhm_ok bid (bhm_insert bid c key b)" using assms(1,2) by (rule bhm_insert_spec)
  have h: "cached (bhm_insert bid c key b) key = insert b (cached c key)"
    using bhm_insert_spec(2)[OF assms(1,2)] by simp
  then obtain x where "get_one_block (bhm_insert bid c key b) key = Inr (Some x)"
    using bhm.get_finds_iff[OF ok] by blast
  with bhm.get_held[OF ok this] h show ?thesis
    using bhm.ins_pop[OF assms] bhm_pop_spec(1)[OF ok] by simp
qed

lemma block_map_insert_pop_roundtrip_witness:
  "fst (bhm_pop (case_bref (- 1) (- 2) int)
        (bhm_insert (case_bref (- 1) (- 2) int) [([], One (Blk 1))] [] (Blk 2)) [] 2) = Some (Blk 2)"
proof -
  have "bhm_ok (case_bref (- 1) (- 2) int) [([], One (Blk 1))]"
    by (simp add: bhm_ok_def)
  moreover have "cached [([], One (Blk 1))] [] = {Blk 1}" by (simp add: cached_def)
  ultimately have "fst (bhm_pop (case_bref (- 1) (- 2) int)
        (bhm_insert (case_bref (- 1) (- 2) int) [([], One (Blk 1))] [] (Blk 2)) []
          (case_bref (- 1) (- 2) int (Blk 2))) = Some (Blk 2)"
    by (intro block_map_insert_pop_roundtrip[THEN conjunct2, THEN conjunct1]) simp_all
  then show ?thesis by simp
qed

end
