(* ===== verification/Requests.thy ===== *)
theory Requests
  imports Complex_Main Free_Queue "HOL-Library.List_Lexorder" "HOL-Library.Char_ord"
begin

text \<open>
  Requests: \<open>vllm/v1/request.py\<close> with the parameter records it reads
  (\<open>SamplingParams\<close>, \<open>RepetitionDetectionParams\<close>, \<open>LoRARequest\<close>, \<open>PlaceholderRange\<close>,
  \<open>MultiModalFeatureSpec\<close>, \<open>EngineCoreRequest\<close>). Strings are their UTF-8 bytes, times are
  rationals, and \<open>obj_id\<close> is what \<open>id()\<close> returns for a request object. The block hasher, a
  closure the request stores, is an argument of the operations that call it. Fields that are
  only passed through (trace headers, KV transfer parameters, data of a modality) are left out.
\<close>

section \<open>Parameters\<close>

record placeholder_range =
  offset :: int
  plength :: int
  is_embed :: "bool list option"

record mm_feature =
  modality :: string
  mm_identifier :: string
  mm_position :: placeholder_range
  mm_hash :: "string option"

record repetition_params =
  max_pattern_size :: int
  min_pattern_size :: int
  min_count :: int

text \<open>
  \<open>structured_outputs\<close> is \<open>None\<close> when unset and otherwise says whether
  \<open>all_constraints_none()\<close> holds of the parameters.
\<close>

record sampling_params =
  sp_max_tokens :: "int option"
  sp_min_tokens :: int
  eos_token_id :: "int option"
  stop_token_ids :: "int list option"
  repetition_detection :: "repetition_params option"
  sp_skip_reading_prefix_cache :: "bool option"
  structured_outputs :: "bool option"

record pooling_params =
  pp_skip_reading_prefix_cache :: "bool option"

record lora_request =
  lora_name :: string
  adapter_id :: int

definition embeds_cumsum :: "placeholder_range \<Rightarrow> int list option" where
  "embeds_cumsum p =
     map_option (\<lambda>m. map (\<lambda>k. int (length (filter id (take (Suc k) m)))) [0..<length m]) (is_embed p)"

definition get_num_embeds :: "placeholder_range \<Rightarrow> int result" where
  "get_num_embeds p =
     (case embeds_cumsum p of None \<Rightarrow> Inr (plength p) | Some c \<Rightarrow> py_nth c (- 1))"

definition get_embeds_indices_in_range :: "placeholder_range \<Rightarrow> int \<Rightarrow> int \<Rightarrow> (int \<times> int) result" where
  "get_embeds_indices_in_range p start_idx end_idx =
     (case embeds_cumsum p of
        None \<Rightarrow> Inr (start_idx, end_idx)
      | Some c \<Rightarrow>
          bindE (if 0 < start_idx then py_nth c (start_idx - 1) else Inr 0) (\<lambda>s.
          bindE (py_nth c (end_idx - 1)) (\<lambda>e. Inr (s, e))))"

section \<open>The status of a request\<close>

datatype request_status =
    WAITING | WAITING_FOR_STRUCTURED_OUTPUT_GRAMMAR | WAITING_FOR_REMOTE_KVS
  | WAITING_FOR_STREAMING_REQ | RUNNING | PREEMPTED
  | FINISHED_STOPPED | FINISHED_LENGTH_CAPPED | FINISHED_ABORTED | FINISHED_IGNORED
  | FINISHED_ERROR | FINISHED_REPETITION

text \<open>The values \<open>enum.auto()\<close> gives, in the order of the declaration.\<close>

fun status_value :: "request_status \<Rightarrow> int" where
  "status_value WAITING = 1"
| "status_value WAITING_FOR_STRUCTURED_OUTPUT_GRAMMAR = 2"
| "status_value WAITING_FOR_REMOTE_KVS = 3"
| "status_value WAITING_FOR_STREAMING_REQ = 4"
| "status_value RUNNING = 5"
| "status_value PREEMPTED = 6"
| "status_value FINISHED_STOPPED = 7"
| "status_value FINISHED_LENGTH_CAPPED = 8"
| "status_value FINISHED_ABORTED = 9"
| "status_value FINISHED_IGNORED = 10"
| "status_value FINISHED_ERROR = 11"
| "status_value FINISHED_REPETITION = 12"

datatype finish_reason = REASON_STOP | REASON_LENGTH | REASON_ABORT | REASON_ERROR | REASON_REPETITION

definition status_is_finished :: "request_status \<Rightarrow> bool" where
  "status_is_finished s \<longleftrightarrow> status_value PREEMPTED < status_value s"

fun status_finished_reason :: "request_status \<Rightarrow> finish_reason option" where
  "status_finished_reason FINISHED_STOPPED = Some REASON_STOP"
| "status_finished_reason FINISHED_LENGTH_CAPPED = Some REASON_LENGTH"
| "status_finished_reason FINISHED_ABORTED = Some REASON_ABORT"
| "status_finished_reason FINISHED_IGNORED = Some REASON_LENGTH"
| "status_finished_reason FINISHED_ERROR = Some REASON_ERROR"
| "status_finished_reason WAITING_FOR_STREAMING_REQ = Some REASON_STOP"
| "status_finished_reason FINISHED_REPETITION = Some REASON_REPETITION"
| "status_finished_reason _ = None"

section \<open>Requests\<close>

datatype stop_reason = StopToken int | StopString string

datatype event_type = QUEUED | SCHEDULED | PREEMPTED_EVENT

record streaming_update =
  su_mm_features :: "mm_feature list option"
  su_prompt_token_ids :: "int list option"
  su_max_tokens :: int
  su_arrival_time :: rat
  su_sampling_params :: "sampling_params option"

text \<open>\<open>EngineCoreRequest\<close>, the message a request is made from.\<close>

record engine_core_request =
  ec_request_id :: string
  ec_prompt_token_ids :: "int list option"
  ec_mm_features :: "mm_feature list option"
  ec_sampling_params :: "sampling_params option"
  ec_pooling_params :: "pooling_params option"
  ec_arrival_time :: rat
  ec_lora_request :: "lora_request option"
  ec_cache_salt :: "string option"
  ec_prompt_embeds :: "bytes list option"
  ec_client_index :: int
  ec_priority :: int
  ec_resumable :: bool
  ec_reasoning_ended :: "bool option"

record request =
  request_id :: string
  obj_id :: nat
  client_index :: int
  priority :: int
  sampling_params_of :: "sampling_params option"
  pooling_params_of :: "pooling_params option"
  lora_of :: "lora_request option"
  use_structured_output :: bool
  reasoning_ended :: "bool option"
  arrival_time :: rat
  status :: request_status
  req_events :: "(event_type \<times> rat) list"
  stop_reason_of :: "stop_reason option"
  max_tokens :: int
  prompt_token_ids :: "int list option"
  prompt_embeds :: "bytes list option"
  prompt_embeds_hashes :: "(int \<times> int, bytes) dict"
  num_prompt_tokens :: int
  output_token_ids :: "int list"
  all_token_ids :: "int list"
  num_output_placeholders :: int
  discard_latest_async_tokens :: bool
  spec_token_ids :: "int list"
  num_computed_tokens :: int
  cache_salt :: "string option"
  mm_features :: "mm_feature list"
  num_cached_tokens :: int
  is_prefill_chunk :: bool
  num_nans_in_logits :: int
  num_preemptions :: int
  num_external_computed_tokens :: int
  block_hashes :: "bytes list"
  skip_reading_prefix_cache :: bool
  resumable :: bool
  streaming_queue :: "streaming_update option list option"

type_synonym hasher = "request \<Rightarrow> (bytes list \<times> request) result"

definition length_from_prompt :: "int list option \<Rightarrow> bytes list option \<Rightarrow> int result" where
  "length_from_prompt toks embeds =
     (case (toks, embeds) of
        (None, None) \<Rightarrow> Inl ValueError
      | (None, Some e) \<Rightarrow> Inr (int (length e))
      | (Some t, None) \<Rightarrow> Inr (int (length t))
      | (Some t, Some e) \<Rightarrow>
          if length e \<noteq> length t then Inl ValueError else Inr (int (length t)))"

definition uses_structured_output :: "sampling_params option \<Rightarrow> bool" where
  "uses_structured_output sp =
     (case sp of None \<Rightarrow> False
      | Some p \<Rightarrow> (case structured_outputs p of None \<Rightarrow> False | Some all_none \<Rightarrow> \<not> all_none))"

definition get_skip_reading_prefix_cache :: "sampling_params option \<Rightarrow> pooling_params option \<Rightarrow> bool" where
  "get_skip_reading_prefix_cache sp pp =
     (case Option.bind sp sp_skip_reading_prefix_cache of
        Some b \<Rightarrow> b
      | None \<Rightarrow> (case Option.bind pp pp_skip_reading_prefix_cache of Some b \<Rightarrow> b | None \<Rightarrow> False))"

definition update_block_hashes :: "hasher option \<Rightarrow> request \<Rightarrow> request result" where
  "update_block_hashes hasher r =
     (case hasher of
        None \<Rightarrow> Inr r
      | Some f \<Rightarrow> bindE (f r) (\<lambda>(hs, r'). Inr (r'\<lparr>block_hashes := block_hashes r' @ hs\<rparr>)))"

text \<open>The maximum number of output tokens and the first status, from the kind of request.\<close>

definition init_limits ::
    "sampling_params option \<Rightarrow> pooling_params option \<Rightarrow> (int \<times> request_status) result" where
  "init_limits sp pp =
     (case (pp, sp) of
        (Some _, _) \<Rightarrow> Inr (1, WAITING)
      | (None, Some p) \<Rightarrow>
          (case sp_max_tokens p of
             None \<Rightarrow> Inl AssertionError
           | Some m \<Rightarrow> Inr (m, if uses_structured_output sp then WAITING_FOR_STRUCTURED_OUTPUT_GRAMMAR
                               else WAITING))
      | (None, None) \<Rightarrow> Inl ValueError)"

definition init_request :: "nat \<Rightarrow> engine_core_request \<Rightarrow> int \<Rightarrow> request_status \<Rightarrow> int \<Rightarrow> request" where
  "init_request addr q limit st n =
       \<lparr>request_id = ec_request_id q, obj_id = addr, client_index = ec_client_index q,
        priority = ec_priority q, sampling_params_of = ec_sampling_params q,
        pooling_params_of = ec_pooling_params q, lora_of = ec_lora_request q,
        use_structured_output = uses_structured_output (ec_sampling_params q),
        reasoning_ended = (if uses_structured_output (ec_sampling_params q) then ec_reasoning_ended q else None),
        arrival_time = ec_arrival_time q, status = st, req_events = [], stop_reason_of = None,
        max_tokens = limit, prompt_token_ids = ec_prompt_token_ids q,
        prompt_embeds = ec_prompt_embeds q, prompt_embeds_hashes = [],
        num_prompt_tokens = n, output_token_ids = [],
        all_token_ids = (case ec_prompt_token_ids q of Some t \<Rightarrow> t | None \<Rightarrow> replicate (nat n) 0),
        num_output_placeholders = 0, discard_latest_async_tokens = False, spec_token_ids = [],
        num_computed_tokens = 0, cache_salt = ec_cache_salt q,
        mm_features = (case ec_mm_features q of Some fs \<Rightarrow> fs | None \<Rightarrow> []),
        num_cached_tokens = - 1, is_prefill_chunk = False, num_nans_in_logits = 0,
        num_preemptions = 0, num_external_computed_tokens = 0, block_hashes = [],
        skip_reading_prefix_cache = False, resumable = False, streaming_queue = None\<rparr>"

definition from_engine_core_request :: "hasher option \<Rightarrow> nat \<Rightarrow> engine_core_request \<Rightarrow> request result" where
  "from_engine_core_request hasher addr q =
     bindE (init_limits (ec_sampling_params q) (ec_pooling_params q)) (\<lambda>(limit, st).
     bindE (length_from_prompt (ec_prompt_token_ids q) (ec_prompt_embeds q)) (\<lambda>n.
     bindE (update_block_hashes hasher (init_request addr q limit st n)) (\<lambda>r.
     Inr (r\<lparr>skip_reading_prefix_cache :=
              get_skip_reading_prefix_cache (ec_sampling_params q) (ec_pooling_params q),
            resumable := ec_resumable q\<rparr>))))"

definition append_output_token_ids :: "hasher option \<Rightarrow> int list \<Rightarrow> request \<Rightarrow> request result" where
  "append_output_token_ids hasher toks r =
     update_block_hashes hasher
       (r\<lparr>output_token_ids := output_token_ids r @ toks, all_token_ids := all_token_ids r @ toks\<rparr>)"

definition num_tokens :: "request \<Rightarrow> int" where
  "num_tokens r = int (length (all_token_ids r))"

definition num_tokens_with_spec :: "request \<Rightarrow> int" where
  "num_tokens_with_spec r = int (length (all_token_ids r)) + int (length (spec_token_ids r))"

definition num_output_tokens :: "request \<Rightarrow> int" where
  "num_output_tokens r = int (length (output_token_ids r))"

definition num_encoder_inputs :: "request \<Rightarrow> int" where
  "num_encoder_inputs r = int (length (mm_features r))"

definition has_encoder_inputs :: "request \<Rightarrow> bool" where
  "has_encoder_inputs r \<longleftrightarrow> 0 < num_encoder_inputs r"

definition req_is_finished :: "request \<Rightarrow> bool" where
  "req_is_finished r = status_is_finished (status r)"

definition get_finished_reason :: "request \<Rightarrow> finish_reason option" where
  "get_finished_reason r = status_finished_reason (status r)"

definition get_num_encoder_embeds :: "request \<Rightarrow> int \<Rightarrow> int result" where
  "get_num_encoder_embeds r input_id =
     bindE (assertE (input_id < int (length (mm_features r)))) (\<lambda>_.
     bindE (py_nth (mm_features r) input_id) (\<lambda>f. get_num_embeds (mm_position f)))"

definition record_event :: "event_type \<Rightarrow> rat \<Rightarrow> request \<Rightarrow> request" where
  "record_event e t r = r\<lparr>req_events := req_events r @ [(e, t)]\<rparr>"

definition req_take_events :: "request \<Rightarrow> (event_type \<times> rat) list option \<times> request" where
  "req_take_events r =
     (if req_events r = [] then (None, r) else (Some (req_events r), r\<lparr>req_events := []\<rparr>))"

definition streaming_update_from_request :: "request \<Rightarrow> streaming_update option" where
  "streaming_update_from_request r =
     (if \<not> resumable r then None
      else Some \<lparr>su_mm_features = Some (mm_features r), su_prompt_token_ids = prompt_token_ids r,
                 su_max_tokens = max_tokens r, su_arrival_time = arrival_time r,
                 su_sampling_params = sampling_params_of r\<rparr>)"

definition request_lt :: "request \<Rightarrow> request \<Rightarrow> bool" where
  "request_lt a b \<longleftrightarrow>
     (if priority a \<noteq> priority b then priority a < priority b
      else if arrival_time a \<noteq> arrival_time b then arrival_time a < arrival_time b
      else if request_id a \<noteq> request_id b then request_id a < request_id b
      else obj_id a < obj_id b)"

section \<open>Lemmas\<close>

text \<open>
  The token lists of a request agree: all tokens are the prompt (zeros when it was given as
  embeddings) followed by the output.
\<close>

definition request_ok :: "request \<Rightarrow> bool" where
  "request_ok r \<longleftrightarrow>
     all_token_ids r =
       (case prompt_token_ids r of Some t \<Rightarrow> t | None \<Rightarrow> replicate (nat (num_prompt_tokens r)) 0) @
       output_token_ids r \<and>
     0 \<le> num_prompt_tokens r \<and>
     num_tokens r = num_prompt_tokens r + num_output_tokens r"

text \<open>What a hasher may change: nothing but the memo of embedding hashes.\<close>

definition hasher_frame :: "hasher \<Rightarrow> bool" where
  "hasher_frame f \<longleftrightarrow>
     (\<forall>r hs r'. f r = Inr (hs, r') \<longrightarrow> r' = r\<lparr>prompt_embeds_hashes := prompt_embeds_hashes r'\<rparr>)"

lemma update_block_hashes_frame:
  assumes "update_block_hashes hasher r = Inr r'" "\<And>f. hasher = Some f \<Longrightarrow> hasher_frame f"
  shows "r' = r\<lparr>prompt_embeds_hashes := prompt_embeds_hashes r', block_hashes := block_hashes r'\<rparr>"
proof (cases hasher)
  case None
  then show ?thesis using assms(1) by (simp add: update_block_hashes_def)
next
  case (Some f)
  then obtain hs u where u: "f r = Inr (hs, u)" "r' = u\<lparr>block_hashes := block_hashes u @ hs\<rparr>"
    using assms(1) by (auto simp: update_block_hashes_def elim!: bindE_InrE)
  then have "u = r\<lparr>prompt_embeds_hashes := prompt_embeds_hashes u\<rparr>"
    using assms(2)[OF Some] by (auto simp: hasher_frame_def)
  then have "r' = r\<lparr>prompt_embeds_hashes := prompt_embeds_hashes u, block_hashes := block_hashes u @ hs\<rparr>"
    using u(2) by metis
  then show ?thesis by simp
qed

lemma request_ok_frame [simp]:
  "request_ok (r\<lparr>prompt_embeds_hashes := m, block_hashes := hs\<rparr>) = request_ok r"
  by (simp add: request_ok_def num_tokens_def num_output_tokens_def cong: option.case_cong)

lemma init_request_ok:
  assumes "length_from_prompt (ec_prompt_token_ids q) (ec_prompt_embeds q) = Inr n"
  shows "request_ok (init_request addr q limit st n)"
  using assms
  by (auto simp: request_ok_def init_request_def num_tokens_def num_output_tokens_def
      length_from_prompt_def split: option.splits if_splits)

lemma from_engine_core_request_ok:
  assumes "from_engine_core_request hasher addr q = Inr r" "\<And>f. hasher = Some f \<Longrightarrow> hasher_frame f"
  shows "request_ok r"
proof -
  from assms(1) obtain limit st n u where
    n: "length_from_prompt (ec_prompt_token_ids q) (ec_prompt_embeds q) = Inr n" and
    u: "update_block_hashes hasher (init_request addr q limit st n) = Inr u" and
    r: "r = u\<lparr>skip_reading_prefix_cache := get_skip_reading_prefix_cache (ec_sampling_params q) (ec_pooling_params q),
            resumable := ec_resumable q\<rparr>"
    unfolding from_engine_core_request_def by (auto elim!: bindE_InrE)
  have "request_ok u"
    using init_request_ok[OF n] update_block_hashes_frame[OF u assms(2)] by (metis request_ok_frame)
  then show ?thesis
    using r by (auto simp: request_ok_def num_tokens_def num_output_tokens_def cong: option.case_cong)
qed

lemma append_output_token_ids_ok:
  assumes "append_output_token_ids hasher toks r = Inr r'" "request_ok r"
    "\<And>f. hasher = Some f \<Longrightarrow> hasher_frame f"
  shows "request_ok r' \<and> output_token_ids r' = output_token_ids r @ toks"
proof -
  let ?r = "r\<lparr>output_token_ids := output_token_ids r @ toks, all_token_ids := all_token_ids r @ toks\<rparr>"
  have f: "r' = ?r\<lparr>prompt_embeds_hashes := prompt_embeds_hashes r', block_hashes := block_hashes r'\<rparr>"
    using assms(1) by (intro update_block_hashes_frame[OF _ assms(3)]) (simp add: append_output_token_ids_def)
  have "request_ok ?r" using assms(2)
    by (auto simp: request_ok_def num_tokens_def num_output_tokens_def cong: option.case_cong)
  then have "request_ok r'" by (subst f) (simp only: request_ok_frame)
  moreover have "output_token_ids r' = output_token_ids r @ toks" by (subst f) simp
  ultimately show ?thesis by simp
qed

text \<open>The comparison is the lexicographic order on four keys.\<close>

lemma request_lt_irrefl: "\<not> request_lt a a"
  by (simp add: request_lt_def)

lemma request_lt_trans: "request_lt a b \<Longrightarrow> request_lt b c \<Longrightarrow> request_lt a c"
  by (auto simp: request_lt_def split: if_splits)

lemma request_lt_total: "obj_id a \<noteq> obj_id b \<Longrightarrow> request_lt a b \<or> request_lt b a"
  by (auto simp: request_lt_def)

lemma get_num_embeds_bounds:
  assumes "get_num_embeds p = Inr n" "is_embed p = Some m"
  shows "0 \<le> n \<and> n \<le> int (length m)"
proof -
  have "n = int (length (filter id m))" "m \<noteq> []"
    using assms by (auto simp: get_num_embeds_def embeds_cumsum_def py_nth_def Let_def nat_diff_distrib' split: if_splits)
  then show ?thesis using length_filter_le[of id m] by simp
qed

section \<open>Properties of requests\<close>

text \<open>
  Every finished status has a finish reason, and the only unfinished status with a reason
  is the one of a streaming session that waits for its next input.
\<close>

lemma finished_has_reason:
  "(status_is_finished s \<longrightarrow> status_finished_reason s \<noteq> None) \<and>
   (status_finished_reason s \<noteq> None \<and> \<not> status_is_finished s \<longleftrightarrow> s = WAITING_FOR_STREAMING_REQ)"
  by (cases s) (simp_all add: status_is_finished_def)

text \<open>
  A request made from an engine message keeps its token lists in step: whatever output
  is appended, all tokens are the prompt followed by the output tokens in order.
\<close>

lemma request_tokens_invariant:
  assumes "from_engine_core_request hasher addr q = Inr r"
    and "append_output_token_ids hasher toks r = Inr r'"
    and "\<forall>f. hasher = Some f \<longrightarrow> hasher_frame f"
  shows "request_ok r' \<and> num_tokens r' = num_prompt_tokens r' + num_output_tokens r'"
proof -
  have "request_ok r" using from_engine_core_request_ok[OF assms(1)] assms(3) by blast
  then have "request_ok r'" using append_output_token_ids_ok[OF assms(2)] assms(3) by blast
  then show ?thesis by (simp add: request_ok_def)
qed

text \<open>A plain text request, for the concrete instances of the properties.\<close>

definition example_message :: "string \<Rightarrow> int list \<Rightarrow> engine_core_request" where
  "example_message rid toks =
     \<lparr>ec_request_id = rid, ec_prompt_token_ids = Some toks, ec_mm_features = None,
      ec_sampling_params = Some \<lparr>sp_max_tokens = Some 16, sp_min_tokens = 0, eos_token_id = Some 2,
        stop_token_ids = None, repetition_detection = None, sp_skip_reading_prefix_cache = None,
        structured_outputs = None\<rparr>,
      ec_pooling_params = None, ec_arrival_time = 0, ec_lora_request = None, ec_cache_salt = None,
      ec_prompt_embeds = None, ec_client_index = 0, ec_priority = 0, ec_resumable = False,
      ec_reasoning_ended = None\<rparr>"

definition example_request :: "string \<Rightarrow> int list \<Rightarrow> request" where
  "example_request rid toks = init_request 0 (example_message rid toks) 16 WAITING (int (length toks))"

lemma example_request_made:
  "from_engine_core_request None 0 (example_message rid toks) = Inr (example_request rid toks)"
  by (simp add: from_engine_core_request_def example_message_def example_request_def init_limits_def
      init_request_def length_from_prompt_def update_block_hashes_def uses_structured_output_def
      get_skip_reading_prefix_cache_def)

lemma request_tokens_invariant_witness:
  "\<exists>r r'. from_engine_core_request None 0 (example_message ''a'' [7, 8]) = Inr r \<and>
     append_output_token_ids None [9] r = Inr r' \<and> request_ok r' \<and> all_token_ids r' = [7, 8, 9]"
proof -
  have a: "append_output_token_ids None [9] (example_request ''a'' [7, 8]) =
      Inr ((example_request ''a'' [7, 8])\<lparr>output_token_ids := [9], all_token_ids := [7, 8, 9]\<rparr>)"
    by (simp add: append_output_token_ids_def update_block_hashes_def example_request_def init_request_def
        example_message_def)
  from request_tokens_invariant[OF example_request_made a] a example_request_made
  show ?thesis by fastforce
qed

end
