(* ===== verification/Block_Hash.thy ===== *)
theory Block_Hash
  imports Requests
begin

text \<open>
  Block hashes for prefix caching (\<open>vllm/v1/core/kv_cache_utils.py\<close>): packing a hash with its
  cache group, the extra keys of a block, the chained hash of the full blocks of a request, and
  the view of a hash list at a larger block size. The hash function, the digest of embeddings
  and the seed \<open>NONE_HASH\<close> are parameters.
\<close>

section \<open>Bytes\<close>

text \<open>\<open>int.to_bytes(k, "big", signed=False)\<close> and \<open>int.from_bytes(_, "big")\<close>.\<close>

fun be_bytes :: "nat \<Rightarrow> int \<Rightarrow> bytes" where
  "be_bytes 0 n = []"
| "be_bytes (Suc k) n = be_bytes k (n div 256) @ [word_of_int (n mod 256)]"

definition to_bytes :: "nat \<Rightarrow> int \<Rightarrow> bytes result" where
  "to_bytes k n = (if 0 \<le> n \<and> n < 256 ^ k then Inr (be_bytes k n) else Inl OverflowError)"

definition from_bytes :: "bytes \<Rightarrow> int" where
  "from_bytes bs = foldl (\<lambda>a b. a * 256 + uint b) 0 bs"

lemma length_be_bytes [simp]: "length (be_bytes k n) = k"
  by (induction k arbitrary: n) auto

lemma from_be_bytes: "0 \<le> n \<Longrightarrow> n < 256 ^ k \<Longrightarrow> from_bytes (be_bytes k n) = n"
proof (induction k arbitrary: n)
  case (Suc k)
  have "n div 256 < 256 ^ k" using Suc.prems by (simp add: div_less_iff_less_mult mult.commute)
  moreover have "uint (word_of_int (n mod 256) :: 8 word) = n mod 256"
    by (simp add: uint_word_of_int)
  ultimately show ?case
    using Suc by (simp add: from_bytes_def pos_imp_zdiv_nonneg_iff)
qed (simp add: from_bytes_def)

lemma from_bytes_nonneg: "0 \<le> from_bytes bs"
proof -
  have "0 \<le> a \<Longrightarrow> 0 \<le> foldl (\<lambda>a b. a * 256 + uint b) a bs" for a
    by (induction bs arbitrary: a) auto
  then show ?thesis by (simp add: from_bytes_def)
qed

section \<open>Hashes with a group\<close>

definition make_block_hash_with_group_id :: "bytes \<Rightarrow> int \<Rightarrow> bytes result" where
  "make_block_hash_with_group_id h g = bindE (to_bytes 4 g) (\<lambda>b. Inr (h @ b))"

definition get_block_hash :: "bytes \<Rightarrow> bytes" where
  "get_block_hash key = slice_to key (- 4)"

definition get_group_id :: "bytes \<Rightarrow> int" where
  "get_group_id key = from_bytes (slice_from key (- 4))"

datatype external_hash = ExtBytes bytes | ExtInt int

text \<open>The argument \<open>use_int\<close> is the environment switch \<open>VLLM_KV_EVENTS_USE_INT_BLOCK_HASHES\<close>.\<close>

definition maybe_convert_block_hash :: "bool \<Rightarrow> bytes \<Rightarrow> external_hash" where
  "maybe_convert_block_hash use_int h =
     (if \<not> use_int then ExtBytes h else ExtInt (take_bit 64 (from_bytes h)))"

lemma slice_append_4:
  "length b = 4 \<Longrightarrow> slice_to (h @ b) (- 4) = h" "length b = 4 \<Longrightarrow> slice_from (h @ b) (- 4) = b"
  by (simp_all add: slice_to_def slice_from_def slice_bound_def)

section \<open>Extra keys\<close>

datatype extra_key = KeyStr string | KeyMM string int | KeyBytes bytes

definition need_extra_keys :: "request \<Rightarrow> bool" where
  "need_extra_keys r \<longleftrightarrow> mm_features r \<noteq> [] \<or> lora_of r \<noteq> None \<or> cache_salt r \<noteq> None"

text \<open>The loop of \<open>_gen_mm_extra_hash_keys\<close>, from the input with index \<open>i\<close> on.\<close>

function mm_loop :: "mm_feature list \<Rightarrow> int \<Rightarrow> int \<Rightarrow> nat \<Rightarrow> extra_key list \<times> nat" where
  "mm_loop fs s e i =
     (if i < length fs
      then (let f = fs ! i; off = offset (mm_position f); len = plength (mm_position f)
            in if off < e
               then if off + len \<le> s then mm_loop fs s e (i + 1)
                    else (let key = KeyMM (mm_identifier f) (off - s)
                          in if off + len \<le> e
                             then (let (ks, j) = mm_loop fs s e (i + 1) in (key # ks, j))
                             else ([key], i))
               else ([], i))
      else ([], i))"
  by auto
termination by (relation "measure (\<lambda>(fs, s, e, i). length fs - i)") auto

declare mm_loop.simps [simp del]

definition gen_mm_extra_hash_keys :: "request \<Rightarrow> int \<Rightarrow> int \<Rightarrow> int \<Rightarrow> (extra_key list \<times> int) result" where
  "gen_mm_extra_hash_keys r s e start_mm_idx =
     (let fs = mm_features r
      in if fs = [] then Inr ([], start_mm_idx)
         else let last_pos = mm_position (last fs)
              in if offset last_pos + plength last_pos \<le> s then Inr ([], start_mm_idx)
                 else bindE (if start_mm_idx < 0
                             then bindE (assertE (- start_mm_idx \<le> int (length fs)))
                                    (\<lambda>_. Inr (int (length fs) + start_mm_idx))
                             else Inr start_mm_idx)
                        (\<lambda>i. let (ks, j) = mm_loop fs s e (nat i) in Inr (ks, int j)))"

definition gen_lora_extra_hash_keys :: "request \<Rightarrow> extra_key list" where
  "gen_lora_extra_hash_keys r = (case lora_of r of None \<Rightarrow> [] | Some l \<Rightarrow> [KeyStr (lora_name l)])"

text \<open>The digest of a slice of the embeddings is computed once and kept on the request.\<close>

definition gen_prompt_embeds_extra_hash_keys ::
    "(bytes \<Rightarrow> bytes) \<Rightarrow> request \<Rightarrow> int \<Rightarrow> int \<Rightarrow> extra_key list \<times> request" where
  "gen_prompt_embeds_extra_hash_keys sha256 r s e =
     (case prompt_embeds r of
        None \<Rightarrow> ([], r)
      | Some rows \<Rightarrow>
          (case dget (prompt_embeds_hashes r) (s, e) of
             Some h \<Rightarrow> ([KeyBytes h], r)
           | None \<Rightarrow>
               (let h = sha256 (concat (py_slice rows s e))
                in ([KeyBytes h], r\<lparr>prompt_embeds_hashes := dset (s, e) h (prompt_embeds_hashes r)\<rparr>))))"

definition generate_block_hash_extra_keys ::
    "(bytes \<Rightarrow> bytes) \<Rightarrow> request \<Rightarrow> int \<Rightarrow> int \<Rightarrow> int \<Rightarrow> (extra_key list option \<times> int \<times> request) result" where
  "generate_block_hash_extra_keys sha256 r s e start_mm_idx =
     bindE (gen_mm_extra_hash_keys r s e start_mm_idx) (\<lambda>(mm_keys, new_idx).
       let salt_keys = (case cache_salt r of
                          Some salt \<Rightarrow> if s = 0 \<and> salt \<noteq> [] then [KeyStr salt] else []
                        | None \<Rightarrow> []);
           (embeds_keys, r') = gen_prompt_embeds_extra_hash_keys sha256 r s e;
           extra_keys = gen_lora_extra_hash_keys r @ mm_keys @ salt_keys @ embeds_keys
       in Inr (if extra_keys = [] then None else Some extra_keys, new_idx, r'))"

section \<open>Hashing the blocks of a request\<close>

text \<open>What the hash function is applied to: the contents of a block, or the seed string.\<close>

datatype hash_input = HashBlock bytes "int list" "extra_key list option" | HashSeed string

type_synonym hash_fn = "hash_input \<Rightarrow> bytes"

definition init_none_hash :: "hash_fn \<Rightarrow> string option \<Rightarrow> bytes \<Rightarrow> bytes" where
  "init_none_hash hf hash_seed urandom =
     (case hash_seed of None \<Rightarrow> urandom | Some seed \<Rightarrow> hf (HashSeed seed))"

definition hash_block_tokens ::
    "hash_fn \<Rightarrow> bytes \<Rightarrow> bytes option \<Rightarrow> int list \<Rightarrow> extra_key list option \<Rightarrow> bytes" where
  "hash_block_tokens hf none_hash parent toks extra_keys =
     hf (HashBlock (case parent of None \<Rightarrow> none_hash | Some p \<Rightarrow> if p = [] then none_hash else p) toks extra_keys)"

lemma generate_extra_keys_frame:
  "generate_block_hash_extra_keys sha256 r s e i = Inr (ks, j, r') \<Longrightarrow>
   r' = r\<lparr>prompt_embeds_hashes := prompt_embeds_hashes r'\<rparr>"
  by (auto simp: generate_block_hash_extra_keys_def gen_prompt_embeds_extra_hash_keys_def Let_def
      elim!: bindE_InrE split: option.splits)

lemma num_tokens_embeds_hashes [simp]: "num_tokens (r\<lparr>prompt_embeds_hashes := m\<rparr>) = num_tokens r"
  by (simp add: num_tokens_def)

lemma generate_extra_keys_tokens:
  "generate_block_hash_extra_keys sha256 r s e i = Inr (ks, j, r') \<Longrightarrow> num_tokens r' = num_tokens r"
  by (metis generate_extra_keys_frame num_tokens_embeds_hashes)

text \<open>
  The loop of \<open>request_block_hasher\<close>. With a block size below one the loop never ends.
\<close>

function hasher_loop ::
    "hash_fn \<Rightarrow> bytes \<Rightarrow> (bytes \<Rightarrow> bytes) \<Rightarrow> int \<Rightarrow> request \<Rightarrow> int \<Rightarrow> int \<Rightarrow> bytes option
      \<Rightarrow> (bytes list \<times> request) result" where
  "hasher_loop hf none_hash sha256 bs r s mm_idx prev =
     (if num_tokens r < s + bs then Inr ([], r)
      else if bs \<le> 0 then Inl Diverges
      else bindE (generate_block_hash_extra_keys sha256 r s (s + bs) mm_idx) (\<lambda>(extra_keys, mm_idx', r').
             let h = hash_block_tokens hf none_hash prev (py_slice (all_token_ids r) s (s + bs)) extra_keys
             in bindE (hasher_loop hf none_hash sha256 bs r' (s + bs) mm_idx' (Some h))
                  (\<lambda>(hs, r''). Inr (h # hs, r''))))"
  by auto
termination
  by (relation "measure (\<lambda>(hf, none_hash, sha256, bs, r, s, mm_idx, prev). nat (num_tokens r - s))")
    (auto dest!: generate_extra_keys_tokens)

declare hasher_loop.simps [simp del]

definition request_block_hasher ::
    "hash_fn \<Rightarrow> bytes \<Rightarrow> (bytes \<Rightarrow> bytes) \<Rightarrow> int \<Rightarrow> hasher" where
  "request_block_hasher hf none_hash sha256 bs r =
     (let start = int (length (block_hashes r)) * bs
      in if num_tokens r < start + bs then Inr ([], r)
         else hasher_loop hf none_hash sha256 bs r start
                (if 0 < start then - 1 else 0)
                (if block_hashes r = [] then None else Some (last (block_hashes r))))"

section \<open>A hash list at a larger block size\<close>

record hash_list_view =
  hl_hashes :: "bytes list"
  scale_factor :: int

definition hlv_init :: "bytes list \<Rightarrow> int \<Rightarrow> int \<Rightarrow> hash_list_view result" where
  "hlv_init hs hash_block_size target_block_size =
     bindE (assertE (target_block_size mod hash_block_size = 0))
       (\<lambda>_. Inr \<lparr>hl_hashes = hs, scale_factor = target_block_size div hash_block_size\<rparr>)"

definition hlv_len :: "hash_list_view \<Rightarrow> int" where
  "hlv_len v = int (length (hl_hashes v)) div scale_factor v"

definition hlv_get_value_at :: "hash_list_view \<Rightarrow> int \<Rightarrow> bytes result" where
  "hlv_get_value_at v idx =
     (let base = idx * scale_factor v; last_idx = base + scale_factor v
      in bindE (py_nth (hl_hashes v) base) (\<lambda>h.
           foldE (\<lambda>i acc. bindE (py_nth (hl_hashes v) i) (\<lambda>x. Inr (acc @ x)))
             [base + 1 .. last_idx - 1] h))"

text \<open>A block hash list is a plain list or such a view; \<open>xs[i]\<close>, \<open>xs[i:]\<close>, \<open>len(xs)\<close>.\<close>

datatype hash_list = Plain "bytes list" | View hash_list_view

fun hl_len :: "hash_list \<Rightarrow> int" where
  "hl_len (Plain hs) = int (length hs)"
| "hl_len (View v) = hlv_len v"

fun hl_get :: "hash_list \<Rightarrow> int \<Rightarrow> bytes result" where
  "hl_get (Plain hs) i = py_nth hs i"
| "hl_get (View v) i = hlv_get_value_at v i"

fun mapE :: "('a \<Rightarrow> 'b result) \<Rightarrow> 'a list \<Rightarrow> 'b list result" where
  "mapE f [] = Inr []"
| "mapE f (x # xs) = bindE (f x) (\<lambda>y. bindE (mapE f xs) (\<lambda>ys. Inr (y # ys)))"

text \<open>\<open>slice.indices\<close> of \<open>i:\<close> on a sequence of length \<open>n\<close> starts at \<open>i\<close> clipped into it.\<close>

definition slice_start :: "int \<Rightarrow> int \<Rightarrow> int" where
  "slice_start n i = (if i < 0 then max 0 (n + i) else min i n)"

fun hl_slice_from :: "hash_list \<Rightarrow> int \<Rightarrow> bytes list result" where
  "hl_slice_from (Plain hs) i = Inr (slice_from hs i)"
| "hl_slice_from (View v) i = mapE (hlv_get_value_at v) [slice_start (hlv_len v) i .. hlv_len v - 1]"

section \<open>What the extra keys are\<close>

text \<open>
  The reference: the multi-modal inputs that overlap the block, in order, each with its offset
  in the block. The inputs of a request are sorted and do not overlap.
\<close>

definition overlaps :: "int \<Rightarrow> int \<Rightarrow> mm_feature \<Rightarrow> bool" where
  "overlaps s e f \<longleftrightarrow>
     offset (mm_position f) < e \<and> s < offset (mm_position f) + plength (mm_position f)"

definition mm_end :: "mm_feature \<Rightarrow> int" where
  "mm_end f = offset (mm_position f) + plength (mm_position f)"

definition mm_sorted :: "mm_feature list \<Rightarrow> bool" where
  "mm_sorted fs \<longleftrightarrow>
     sorted_wrt (\<lambda>f g. mm_end f \<le> offset (mm_position g)) fs \<and> (\<forall>f \<in> set fs. 0 < plength (mm_position f))"

definition mm_block_keys :: "mm_feature list \<Rightarrow> int \<Rightarrow> int \<Rightarrow> extra_key list" where
  "mm_block_keys fs s e =
     map (\<lambda>f. KeyMM (mm_identifier f) (offset (mm_position f) - s)) (filter (overlaps s e) fs)"

text \<open>The inputs before index \<open>i\<close> end at or before token \<open>s\<close>.\<close>

definition passed :: "mm_feature list \<Rightarrow> int \<Rightarrow> nat \<Rightarrow> bool" where
  "passed fs s i \<longleftrightarrow> i \<le> length fs \<and> (\<forall>f \<in> set (take i fs). mm_end f \<le> s)"

lemma passed_mono: "passed fs s i \<Longrightarrow> s \<le> e \<Longrightarrow> passed fs e i"
  by (force simp: passed_def)

lemma passed_Suc: "passed fs s i \<Longrightarrow> i < length fs \<Longrightarrow> mm_end (fs ! i) \<le> s \<Longrightarrow> passed fs s (Suc i)"
  by (auto simp: passed_def take_Suc_conv_app_nth)

lemma mm_sorted_rest:
  assumes "mm_sorted fs" "i < length fs" "f \<in> set (drop (Suc i) fs)"
  shows "mm_end (fs ! i) \<le> offset (mm_position f)"
proof -
  have "sorted_wrt (\<lambda>f g. mm_end f \<le> offset (mm_position g)) (drop i fs)"
    using assms(1) by (simp add: mm_sorted_def sorted_wrt_drop)
  then show ?thesis using assms(2,3) by (simp add: Cons_nth_drop_Suc[symmetric])
qed

lemma mm_block_keys_passed:
  "passed fs s i \<Longrightarrow> mm_block_keys fs s e = mm_block_keys (drop i fs) s e"
proof -
  assume "passed fs s i"
  then have "filter (overlaps s e) (take i fs) = []"
    by (auto simp: filter_empty_conv passed_def overlaps_def mm_end_def)
  then show ?thesis
    using filter_append[of "overlaps s e" "take i fs" "drop i fs"]
    by (simp add: mm_block_keys_def)
qed

lemma mm_loop_keys:
  assumes "mm_sorted fs" "s < e"
  shows "fst (mm_loop fs s e i) = mm_block_keys (drop i fs) s e"
  using assms
proof (induction fs s e i rule: mm_loop.induct)
  case (1 fs s e i)
  show ?case
  proof (cases "i < length fs")
    case False
    then show ?thesis by (subst mm_loop.simps) (simp add: mm_block_keys_def)
  next
    case True
    let ?f = "fs ! i"
    have split: "drop i fs = ?f # drop (Suc i) fs" using True by (simp add: Cons_nth_drop_Suc)
    have pos: "offset (mm_position ?f) < mm_end ?f" using "1.prems"(1) True by (simp add: mm_sorted_def mm_end_def)
    have later: "f \<in> set (drop (Suc i) fs) \<Longrightarrow> mm_end ?f \<le> offset (mm_position f)" for f
      using mm_sorted_rest[OF "1.prems"(1) True] .
    have stop: "e \<le> mm_end ?f \<Longrightarrow> mm_block_keys (drop (Suc i) fs) s e = []"
      using later by (force simp: mm_block_keys_def overlaps_def filter_empty_conv)
    consider "e \<le> offset (mm_position ?f)" | "mm_end ?f \<le> s" "offset (mm_position ?f) < e"
      | "offset (mm_position ?f) < e" "s < mm_end ?f" "mm_end ?f \<le> e"
      | "offset (mm_position ?f) < e" "s < mm_end ?f" "e < mm_end ?f" by linarith
    then show ?thesis
    proof cases
      case 1
      then have "mm_block_keys (drop i fs) s e = []"
        using stop pos split by (simp add: mm_block_keys_def overlaps_def)
      then show ?thesis using 1 True by (subst mm_loop.simps) simp
    next
      case 2
      then show ?thesis using "1.IH"(1)[OF True refl refl refl] 1 True split "1.prems"
        by (subst mm_loop.simps) (simp add: mm_end_def mm_block_keys_def overlaps_def)
    next
      case 3
      then show ?thesis using "1.IH"(2)[OF True refl refl refl] 1 True split "1.prems"
        by (subst mm_loop.simps)
          (simp add: mm_end_def mm_block_keys_def overlaps_def Let_def case_prod_beta)
    next
      case 4
      then show ?thesis using stop True split
        by (subst mm_loop.simps) (simp add: mm_end_def mm_block_keys_def overlaps_def Let_def)
    qed
  qed
qed

lemma mm_loop_passed:
  assumes "passed fs e i" "s \<le> e"
  shows "passed fs e (snd (mm_loop fs s e i))"
  using assms
proof (induction fs s e i rule: mm_loop.induct)
  case (1 fs s e i)
  show ?case
  proof (cases "i < length fs")
    case False
    then show ?thesis using "1.prems" by (subst mm_loop.simps) simp
  next
    case True
    have "mm_end (fs ! i) \<le> e \<Longrightarrow> passed fs e (i + 1)"
      using passed_Suc[OF "1.prems"(1) True] by simp
    then show ?thesis
      using "1.IH"(1)[OF True refl refl refl] "1.IH"(2)[OF True refl refl refl] True "1.prems"
      by (subst mm_loop.simps) (simp add: Let_def case_prod_beta mm_end_def)
  qed
qed

text \<open>
  The indices the hasher passes: an index whose inputs before it are passed, or \<open>-1\<close> when all
  inputs but the last are passed.
\<close>

definition idx_ok :: "mm_feature list \<Rightarrow> int \<Rightarrow> int \<Rightarrow> bool" where
  "idx_ok fs s i \<longleftrightarrow> fs = [] \<or> (0 \<le> i \<and> passed fs s (nat i)) \<or> (i = - 1 \<and> passed fs s (length fs - 1))"

lemma idx_ok_mono: "idx_ok fs s i \<Longrightarrow> s \<le> e \<Longrightarrow> idx_ok fs e i"
  by (auto simp: idx_ok_def intro: passed_mono)

lemma idx_ok_0 [simp]: "idx_ok fs s 0"
  by (simp add: idx_ok_def passed_def)

lemma mm_sorted_last:
  assumes "mm_sorted fs" "mm_end (last fs) \<le> s"
  shows "passed fs s (length fs)"
proof -
  have "mm_end f \<le> s" if f: "f \<in> set fs" for f
  proof -
    obtain fs' where fs: "fs = fs' @ [last fs]" using f by (metis append_butlast_last_id empty_iff list.set(1))
    then have w: "sorted_wrt (\<lambda>f g. mm_end f \<le> offset (mm_position g)) (fs' @ [last fs])"
      "0 < plength (mm_position (last fs))"
      using assms(1) f by (metis mm_sorted_def, metis mm_sorted_def last_in_set length_pos_if_in_set length_greater_0_conv)
    have "f = last fs \<or> f \<in> set fs'" using f fs by (metis Un_iff empty_iff insert_iff list.set set_append)
    then show ?thesis using w assms(2) by (auto simp: sorted_wrt_append mm_end_def)
  qed
  then show ?thesis by (simp add: passed_def)
qed

lemma gen_mm_extra_hash_keys_spec:
  assumes "mm_sorted (mm_features r)" "s < e" "idx_ok (mm_features r) s i"
  shows "\<exists>j. gen_mm_extra_hash_keys r s e i = Inr (mm_block_keys (mm_features r) s e, j) \<and>
             idx_ok (mm_features r) e j"
proof (cases "mm_features r = []")
  case True
  then show ?thesis by (simp add: gen_mm_extra_hash_keys_def mm_block_keys_def idx_ok_def)
next
  case ne: False
  let ?fs = "mm_features r"
  show ?thesis
  proof (cases "mm_end (last ?fs) \<le> s")
    case True
    then have "mm_block_keys ?fs s e = []"
      using mm_block_keys_passed[OF mm_sorted_last[OF assms(1)]] by (simp add: mm_block_keys_def)
    then show ?thesis
      using True ne idx_ok_mono[OF assms(3), of e] assms(2)
      by (simp add: gen_mm_extra_hash_keys_def mm_end_def Let_def)
  next
    case False
    define k where "k = (if i < 0 then length ?fs - 1 else nat i)"
    have k: "passed ?fs s k" using assms(3) ne by (auto simp: idx_ok_def k_def)
    have "gen_mm_extra_hash_keys r s e i = Inr (fst (mm_loop ?fs s e k), int (snd (mm_loop ?fs s e k)))"
      using False ne assms(3)
      by (auto simp: gen_mm_extra_hash_keys_def mm_end_def Let_def k_def idx_ok_def case_prod_beta
          nat_diff_distrib' Suc_leI)
    moreover have "fst (mm_loop ?fs s e k) = mm_block_keys ?fs s e"
      using mm_loop_keys[OF assms(1,2)] mm_block_keys_passed[OF k] by simp
    moreover have "passed ?fs e (snd (mm_loop ?fs s e k))"
      using mm_loop_passed[OF passed_mono[OF k]] assms(2) by simp
    ultimately show ?thesis by (simp add: idx_ok_def)
  qed
qed

section \<open>The reference hash chain\<close>

definition embeds_block_keys :: "(bytes \<Rightarrow> bytes) \<Rightarrow> request \<Rightarrow> int \<Rightarrow> int \<Rightarrow> extra_key list" where
  "embeds_block_keys sha256 r s e =
     (case prompt_embeds r of None \<Rightarrow> [] | Some rows \<Rightarrow> [KeyBytes (sha256 (concat (py_slice rows s e)))])"

definition block_extra_keys :: "(bytes \<Rightarrow> bytes) \<Rightarrow> request \<Rightarrow> int \<Rightarrow> int \<Rightarrow> extra_key list option" where
  "block_extra_keys sha256 r s e =
     (let ks = gen_lora_extra_hash_keys r @ mm_block_keys (mm_features r) s e @
               (case cache_salt r of Some salt \<Rightarrow> if s = 0 \<and> salt \<noteq> [] then [KeyStr salt] else [] | None \<Rightarrow> []) @
               embeds_block_keys sha256 r s e
      in if ks = [] then None else Some ks)"

definition block_content ::
    "(bytes \<Rightarrow> bytes) \<Rightarrow> int \<Rightarrow> request \<Rightarrow> nat \<Rightarrow> int list \<times> extra_key list option" where
  "block_content sha256 bs r i =
     (py_slice (all_token_ids r) (int i * bs) (int i * bs + bs),
      block_extra_keys sha256 r (int i * bs) (int i * bs + bs))"

fun hash_chain ::
    "hash_fn \<Rightarrow> bytes \<Rightarrow> bytes option \<Rightarrow> (int list \<times> extra_key list option) list \<Rightarrow> bytes list" where
  "hash_chain hf none_hash prev [] = []"
| "hash_chain hf none_hash prev ((toks, ks) # cs) =
     (let h = hash_block_tokens hf none_hash prev toks ks in h # hash_chain hf none_hash (Some h) cs)"

lemma hash_chain_Cons:
  "hash_chain hf none_hash prev (c # cs) =
     hash_block_tokens hf none_hash prev (fst c) (snd c) #
     hash_chain hf none_hash (Some (hash_block_tokens hf none_hash prev (fst c) (snd c))) cs"
  by (cases c) (simp add: Let_def)

definition full_blocks :: "int \<Rightarrow> request \<Rightarrow> nat" where
  "full_blocks bs r = nat (num_tokens r div bs)"

definition request_hashes :: "hash_fn \<Rightarrow> bytes \<Rightarrow> (bytes \<Rightarrow> bytes) \<Rightarrow> int \<Rightarrow> request \<Rightarrow> bytes list" where
  "request_hashes hf none_hash sha256 bs r =
     hash_chain hf none_hash None (map (block_content sha256 bs r) [0..<full_blocks bs r])"

text \<open>The memo of embedding digests holds only digests of the embeddings.\<close>

definition memo_ok :: "(bytes \<Rightarrow> bytes) \<Rightarrow> request \<Rightarrow> bool" where
  "memo_ok sha256 r \<longleftrightarrow>
     (\<forall>s e h. dget (prompt_embeds_hashes r) (s, e) = Some h \<longrightarrow>
        embeds_block_keys sha256 r s e = [KeyBytes h] \<or> prompt_embeds r = None)"

lemma embeds_block_keys_memo [simp]:
  "embeds_block_keys sha256 (r\<lparr>prompt_embeds_hashes := m\<rparr>) s e = embeds_block_keys sha256 r s e"
  by (simp add: embeds_block_keys_def)

lemma block_content_memo [simp]:
  "block_content sha256 bs (r\<lparr>prompt_embeds_hashes := m\<rparr>) = block_content sha256 bs r"
  "block_content sha256 bs (r\<lparr>prompt_embeds_hashes := m, block_hashes := hs\<rparr>) = block_content sha256 bs r"
  by (simp_all add: fun_eq_iff block_content_def block_extra_keys_def gen_lora_extra_hash_keys_def embeds_block_keys_def)

lemma gen_prompt_embeds_spec:
  assumes "memo_ok sha256 r"
  shows "\<exists>m. gen_prompt_embeds_extra_hash_keys sha256 r s e =
               (embeds_block_keys sha256 r s e, r\<lparr>prompt_embeds_hashes := m\<rparr>) \<and>
             memo_ok sha256 (r\<lparr>prompt_embeds_hashes := m\<rparr>)"
proof (cases "prompt_embeds r")
  case None
  then have "gen_prompt_embeds_extra_hash_keys sha256 r s e = ([], r\<lparr>prompt_embeds_hashes := prompt_embeds_hashes r\<rparr>)"
    by (simp add: gen_prompt_embeds_extra_hash_keys_def)
  then show ?thesis using None assms
    by (intro exI[of _ "prompt_embeds_hashes r"]) (simp add: embeds_block_keys_def)
next
  case (Some rows)
  show ?thesis
  proof (cases "dget (prompt_embeds_hashes r) (s, e)")
    case None
    then show ?thesis using Some assms
      by (intro exI[of _ "dset (s, e) (sha256 (concat (py_slice rows s e))) (prompt_embeds_hashes r)"])
        (auto simp: gen_prompt_embeds_extra_hash_keys_def Let_def memo_ok_def embeds_block_keys_def)
  next
    case (Some h)
    then have "gen_prompt_embeds_extra_hash_keys sha256 r s e =
        (embeds_block_keys sha256 r s e, r\<lparr>prompt_embeds_hashes := prompt_embeds_hashes r\<rparr>)"
      using \<open>prompt_embeds r = _\<close> assms by (auto simp: gen_prompt_embeds_extra_hash_keys_def memo_ok_def)
    then show ?thesis using assms by (intro exI[of _ "prompt_embeds_hashes r"]) simp
  qed
qed

lemma generate_extra_keys_spec:
  assumes "mm_sorted (mm_features r)" "memo_ok sha256 r" "s < e" "idx_ok (mm_features r) s i"
  shows "\<exists>j m. generate_block_hash_extra_keys sha256 r s e i =
                 Inr (block_extra_keys sha256 r s e, j, r\<lparr>prompt_embeds_hashes := m\<rparr>) \<and>
               idx_ok (mm_features r) e j \<and> memo_ok sha256 (r\<lparr>prompt_embeds_hashes := m\<rparr>)"
proof -
  obtain j where j: "gen_mm_extra_hash_keys r s e i = Inr (mm_block_keys (mm_features r) s e, j)"
    "idx_ok (mm_features r) e j"
    using gen_mm_extra_hash_keys_spec[OF assms(1,3,4)] by auto
  obtain m where m: "gen_prompt_embeds_extra_hash_keys sha256 r s e =
      (embeds_block_keys sha256 r s e, r\<lparr>prompt_embeds_hashes := m\<rparr>)"
    "memo_ok sha256 (r\<lparr>prompt_embeds_hashes := m\<rparr>)"
    using gen_prompt_embeds_spec[OF assms(2)] by blast
  have "generate_block_hash_extra_keys sha256 r s e i =
      Inr (block_extra_keys sha256 r s e, j, r\<lparr>prompt_embeds_hashes := m\<rparr>)"
    using j(1) m(1)
    by (simp add: generate_block_hash_extra_keys_def block_extra_keys_def Let_def split: option.split)
  with j(2) m(2) show ?thesis by blast
qed

lemma hasher_loop_spec:
  assumes "0 < bs" "mm_sorted (mm_features r)" "memo_ok sha256 r" "idx_ok (mm_features r) (int k * bs) i"
    and "k + d = full_blocks bs r \<or> (full_blocks bs r < k \<and> d = 0)"
  shows "\<exists>m. hasher_loop hf none_hash sha256 bs r (int k * bs) i prev =
               Inr (hash_chain hf none_hash prev (map (block_content sha256 bs r) [k..<k + d]),
                    r\<lparr>prompt_embeds_hashes := m\<rparr>)"
  using assms
proof (induction d arbitrary: r k i prev)
  case 0
  have "num_tokens r div bs < int k + 1" using 0(5) by (auto simp: full_blocks_def)
  then have "num_tokens r < int k * bs + bs"
    using 0(1) zdiv_ge_iff[of bs "int k + 1" "num_tokens r"] by (simp add: distrib_right)
  then show ?case
    by (subst hasher_loop.simps) (auto intro!: exI[of _ "prompt_embeds_hashes r"])
next
  case (Suc d)
  have k: "Suc k + d = full_blocks bs r" using Suc.prems(5) by simp
  then have "int k + 1 \<le> num_tokens r div bs" unfolding full_blocks_def by linarith
  then have n: "int k * bs + bs \<le> num_tokens r"
    using Suc.prems(1) zdiv_ge_iff[of bs "int k + 1" "num_tokens r"] by (simp add: distrib_right)
  obtain j m where gen: "generate_block_hash_extra_keys sha256 r (int k * bs) (int k * bs + bs) i =
      Inr (block_extra_keys sha256 r (int k * bs) (int k * bs + bs), j, r\<lparr>prompt_embeds_hashes := m\<rparr>)"
    and j: "idx_ok (mm_features r) (int k * bs + bs) j" and m: "memo_ok sha256 (r\<lparr>prompt_embeds_hashes := m\<rparr>)"
    using generate_extra_keys_spec[OF Suc.prems(2,3) _ Suc.prems(4), of "int k * bs + bs"] Suc.prems(1) by auto
  define h where "h = hash_block_tokens hf none_hash prev (fst (block_content sha256 bs r k)) (snd (block_content sha256 bs r k))"
  have e: "int k * bs + bs = int (Suc k) * bs" by (simp add: distrib_right)
  obtain m' where rec: "hasher_loop hf none_hash sha256 bs (r\<lparr>prompt_embeds_hashes := m\<rparr>) (int (Suc k) * bs) j (Some h) =
      Inr (hash_chain hf none_hash (Some h) (map (block_content sha256 bs r) [Suc k..<Suc k + d]),
           r\<lparr>prompt_embeds_hashes := m'\<rparr>)"
    using Suc.IH[of "r\<lparr>prompt_embeds_hashes := m\<rparr>" "Suc k" j "Some h"] Suc.prems(1,2) m j k e
    by (auto simp: full_blocks_def)
  have "map (block_content sha256 bs r) [k..<k + Suc d] =
      block_content sha256 bs r k # map (block_content sha256 bs r) [Suc k..<Suc k + d]"
    by (simp add: upt_conv_Cons del: upt_Suc)
  then have "hash_chain hf none_hash prev (map (block_content sha256 bs r) [k..<k + Suc d]) =
      h # hash_chain hf none_hash (Some h) (map (block_content sha256 bs r) [Suc k..<Suc k + d])"
    by (simp only: hash_chain_Cons h_def)
  then show ?case
    using gen rec n Suc.prems(1) e
    by (subst hasher_loop.simps) (auto simp: h_def block_content_def Let_def)
qed

section \<open>The hasher computes the reference chain\<close>

lemma length_hash_chain [simp]: "length (hash_chain hf none_hash prev cs) = length cs"
  by (induction cs arbitrary: prev) (simp_all add: hash_chain_Cons)

lemma hash_chain_append:
  "hash_chain hf none_hash prev (cs @ ds) =
     hash_chain hf none_hash prev cs @
     hash_chain hf none_hash (if cs = [] then prev else Some (last (hash_chain hf none_hash prev cs))) ds"
proof (induction cs arbitrary: prev)
  case (Cons c cs)
  have "cs \<noteq> [] \<Longrightarrow> hash_chain hf none_hash p cs \<noteq> []" for p
    using length_hash_chain[of hf none_hash p cs] by (metis length_0_conv)
  then show ?case using Cons by (simp add: hash_chain_Cons)
qed simp

lemma length_request_hashes [simp]:
  "length (request_hashes hf none_hash sha256 bs r) = full_blocks bs r"
  by (simp add: request_hashes_def)

text \<open>
  A request whose first \<open>k\<close> hashes are right is completed, when the inputs that end after the
  hashed prefix are at most the last one, or when nothing was hashed yet.
\<close>

lemma request_block_hasher_spec:
  assumes "0 < bs" "mm_sorted (mm_features r)" "memo_ok sha256 r"
    and k: "k \<le> full_blocks bs r"
      "block_hashes r = hash_chain hf none_hash None (map (block_content sha256 bs r) [0..<k])"
    and mm: "0 < k \<Longrightarrow> passed (mm_features r) (int k * bs) (length (mm_features r) - 1)"
  shows "\<exists>hs m. request_block_hasher hf none_hash sha256 bs r = Inr (hs, r\<lparr>prompt_embeds_hashes := m\<rparr>) \<and>
                block_hashes r @ hs = request_hashes hf none_hash sha256 bs r"
proof -
  define d where "d = full_blocks bs r - k"
  define prev where "prev = (if block_hashes r = [] then None else Some (last (block_hashes r)))"
  define rest where "rest = hash_chain hf none_hash prev (map (block_content sha256 bs r) [k..<k + d])"
  have len: "length (block_hashes r) = k" using k(2) by simp
  have idx: "idx_ok (mm_features r) (int k * bs) (if 0 < int k * bs then - 1 else 0)"
    using mm assms(1) by (auto simp: idx_ok_def passed_def zero_less_mult_iff)
  obtain m where loop: "hasher_loop hf none_hash sha256 bs r (int k * bs) (if 0 < int k * bs then - 1 else 0) prev
      = Inr (rest, r\<lparr>prompt_embeds_hashes := m\<rparr>)"
    using hasher_loop_spec[OF assms(1,2,3) idx, of d hf none_hash prev] k(1) by (auto simp: d_def rest_def)
  have "[0..<full_blocks bs r] = [0..<k] @ [k..<k + d]"
    using upt_add_eq_append[of 0 k d] k(1) by (simp add: d_def)
  moreover have "prev = (if [0..<k] = [] then None else
      Some (last (hash_chain hf none_hash None (map (block_content sha256 bs r) [0..<k]))))"
    using len unfolding prev_def k(2)[symmetric] by (cases "k = 0") auto
  ultimately have all: "block_hashes r @ rest = request_hashes hf none_hash sha256 bs r"
    unfolding request_hashes_def rest_def
    by (simp only: map_append hash_chain_append k(2)[symmetric] map_is_Nil_conv)
  show ?thesis
  proof (cases "num_tokens r < int k * bs + bs")
    case True
    then have "num_tokens r div bs < int k + 1"
      using zdiv_ge_iff[OF assms(1), of "int k + 1" "num_tokens r"] by (simp add: distrib_right)
    then have "d = 0" by (simp add: d_def full_blocks_def)
    then have "rest = []" by (simp add: rest_def)
    then show ?thesis
      using True len all
      by (intro exI[of _ "[]"] exI[of _ "prompt_embeds_hashes r"]) (simp add: request_block_hasher_def)
  next
    case False
    then show ?thesis
      using loop all len by (auto simp: request_block_hasher_def prev_def Let_def)
  qed
qed

lemma request_block_hasher_fresh:
  assumes "0 < bs" "mm_sorted (mm_features r)" "memo_ok sha256 r" "block_hashes r = []"
  shows "\<exists>m. request_block_hasher hf none_hash sha256 bs r =
               Inr (request_hashes hf none_hash sha256 bs r, r\<lparr>prompt_embeds_hashes := m\<rparr>)"
  using request_block_hasher_spec[OF assms(1,2,3), of 0 hf none_hash] assms(4) by auto

lemma request_block_hasher_frame: "hasher_frame (request_block_hasher hf none_hash sha256 bs)"
proof -
  have "hasher_loop hf none_hash sha256 bs r s i prev = Inr (hs, r') \<Longrightarrow>
      r' = r\<lparr>prompt_embeds_hashes := prompt_embeds_hashes r'\<rparr>" for r s i prev hs r'
  proof (induction hf none_hash sha256 bs r s i prev arbitrary: hs r' rule: hasher_loop.induct)
    case (1 hf none_hash sha256 bs r s i prev)
    show ?case
    proof (cases "num_tokens r < s + bs \<or> bs \<le> 0")
      case True
      then show ?thesis using "1.prems" by (subst (asm) hasher_loop.simps) (auto split: if_splits)
    next
      case False
      then obtain ks j u hs' where g: "generate_block_hash_extra_keys sha256 r s (s + bs) i = Inr (ks, j, u)"
        and l: "hasher_loop hf none_hash sha256 bs u (s + bs) j
          (Some (hash_block_tokens hf none_hash prev (py_slice (all_token_ids r) s (s + bs)) ks)) = Inr (hs', r')"
        using "1.prems" by (subst (asm) hasher_loop.simps) (auto simp: Let_def elim!: bindE_InrE)
      have "r' = u\<lparr>prompt_embeds_hashes := prompt_embeds_hashes r'\<rparr>"
        using "1.IH"[OF _ _ g refl refl refl l] False by simp
      with generate_extra_keys_frame[OF g] show ?thesis
        by (metis request.update_convs(17) request.surjective)
    qed
  qed
  then show ?thesis
    by (auto simp: hasher_frame_def request_block_hasher_def Let_def split: if_splits)
qed

section \<open>Equal hashes mean equal prefixes\<close>

text \<open>The inputs the hash function sees along a chain.\<close>

fun chain_inputs ::
    "hash_fn \<Rightarrow> bytes \<Rightarrow> bytes option \<Rightarrow> (int list \<times> extra_key list option) list \<Rightarrow> hash_input list" where
  "chain_inputs hf none_hash prev [] = []"
| "chain_inputs hf none_hash prev (c # cs) =
     (let x = HashBlock (case prev of None \<Rightarrow> none_hash | Some p \<Rightarrow> if p = [] then none_hash else p) (fst c) (snd c)
      in x # chain_inputs hf none_hash (Some (hf x)) cs)"

definition request_hash_inputs ::
    "hash_fn \<Rightarrow> bytes \<Rightarrow> (bytes \<Rightarrow> bytes) \<Rightarrow> int \<Rightarrow> request \<Rightarrow> hash_input set" where
  "request_hash_inputs hf none_hash sha256 bs r =
     set (chain_inputs hf none_hash None (map (block_content sha256 bs r) [0..<full_blocks bs r]))"

text \<open>
  The documented strength of the hash function, on the inputs at hand: no two of them collide,
  none hashes to the seed, and digests are not empty.
\<close>

definition collision_free :: "hash_fn \<Rightarrow> bytes \<Rightarrow> hash_input set \<Rightarrow> bool" where
  "collision_free hf none_hash A \<longleftrightarrow> inj_on hf A \<and> none_hash \<notin> hf ` A \<and> [] \<notin> hf ` A"

lemma hash_chain_inputs: "hash_chain hf none_hash prev cs = map hf (chain_inputs hf none_hash prev cs)"
  by (induction cs arbitrary: prev) (simp_all add: hash_chain_Cons hash_block_tokens_def Let_def)

lemma length_chain_inputs [simp]: "length (chain_inputs hf none_hash prev cs) = length cs"
  by (induction cs arbitrary: prev) (simp_all add: Let_def)

lemma hash_chain_in_image:
  "i < length cs \<Longrightarrow> hash_chain hf none_hash prev cs ! i \<in> hf ` set (chain_inputs hf none_hash prev cs)"
  by (simp add: hash_chain_inputs)

lemma chain_inputs_nth:
  assumes "i < length cs" "[] \<notin> hf ` set (chain_inputs hf none_hash prev cs)"
  shows "chain_inputs hf none_hash prev cs ! i =
      HashBlock (if i = 0 then (case prev of None \<Rightarrow> none_hash | Some p \<Rightarrow> if p = [] then none_hash else p)
                 else hash_chain hf none_hash prev cs ! (i - 1)) (fst (cs ! i)) (snd (cs ! i))"
  using assms
proof (induction cs arbitrary: prev i)
  case (Cons c cs)
  show ?case
  proof (cases i)
    case 0
    then show ?thesis by (simp add: Let_def)
  next
    case (Suc j)
    let ?x = "HashBlock (case prev of None \<Rightarrow> none_hash | Some p \<Rightarrow> if p = [] then none_hash else p) (fst c) (snd c)"
    have ne: "hf ?x \<noteq> []" "[] \<notin> hf ` set (chain_inputs hf none_hash (Some (hf ?x)) cs)"
      using Cons.prems(2) by (auto simp: Let_def)
    have "chain_inputs hf none_hash (Some (hf ?x)) cs ! j =
        HashBlock (if j = 0 then hf ?x else hash_chain hf none_hash (Some (hf ?x)) cs ! (j - 1))
          (fst (cs ! j)) (snd (cs ! j))"
      using Cons.IH[OF _ ne(2), of j] Cons.prems(1) Suc ne(1) by simp
    then show ?thesis
      using Suc by (simp add: Let_def hash_chain_Cons hash_block_tokens_def nth_Cons split: nat.split)
  qed
qed simp

lemma hash_chain_equal:
  assumes cf: "collision_free hf none_hash
      (set (chain_inputs hf none_hash None cs) \<union> set (chain_inputs hf none_hash None ds))"
    and "i < length cs" "j < length ds"
    and "hash_chain hf none_hash None cs ! i = hash_chain hf none_hash None ds ! j"
  shows "i = j \<and> take (Suc i) cs = take (Suc i) ds"
  using assms(2-)
proof (induction i arbitrary: j)
  case (Suc i)
  note nth = chain_inputs_nth[OF Suc.prems(1)] chain_inputs_nth[OF Suc.prems(2)]
  have in1: "chain_inputs hf none_hash None cs ! Suc i = chain_inputs hf none_hash None ds ! j"
    using cf Suc.prems by (auto simp: collision_free_def hash_chain_inputs inj_on_def)
  then have p: "hash_chain hf none_hash None cs ! i =
      (if j = 0 then none_hash else hash_chain hf none_hash None ds ! (j - 1))" "cs ! Suc i = ds ! j"
    using nth[of hf none_hash None] cf by (auto simp: collision_free_def image_Un prod_eq_iff)
  have "hash_chain hf none_hash None cs ! i \<noteq> none_hash"
    using cf hash_chain_in_image[of i cs hf none_hash None] Suc.prems(1)
    by (metis Suc_lessD UnCI collision_free_def image_Un)
  with p obtain j' where j: "j = Suc j'" "hash_chain hf none_hash None cs ! i = hash_chain hf none_hash None ds ! j'"
    by (cases j) auto
  with Suc.IH[of j'] Suc.prems have "i = j'" "take (Suc i) cs = take (Suc i) ds" by auto
  with p(2) j Suc.prems show ?case by (simp add: take_Suc_conv_app_nth)
next
  case 0
  note nth = chain_inputs_nth[OF 0(1)] chain_inputs_nth[OF 0(2)]
  have "chain_inputs hf none_hash None cs ! 0 = chain_inputs hf none_hash None ds ! j"
    using cf 0 by (auto simp: collision_free_def hash_chain_inputs inj_on_def)
  then have p: "none_hash = (if j = 0 then none_hash else hash_chain hf none_hash None ds ! (j - 1))" "cs ! 0 = ds ! j"
    using nth[of hf none_hash None] cf by (auto simp: collision_free_def image_Un prod_eq_iff)
  have "j \<noteq> 0 \<Longrightarrow> hash_chain hf none_hash None ds ! (j - 1) \<noteq> none_hash"
    using cf hash_chain_in_image[of "j - 1" ds hf none_hash None] 0(2)
    by (metis UnCI collision_free_def image_Un less_imp_diff_less)
  with p(1) have "j = 0" by (metis (full_types))
  with p(2) 0 show ?case by (simp add: take_Suc_conv_app_nth)
qed

text \<open>The slices of the blocks make up the tokens.\<close>

lemma py_slice_block:
  "0 < bs \<Longrightarrow> py_slice xs (int i * bs) (int i * bs + bs) = take (nat bs) (drop (i * nat bs) xs)"
proof -
  assume bs: "0 < bs"
  then have "nat (int i * bs) = i * nat bs" "nat (int i * bs + bs) = i * nat bs + nat bs"
    by (simp_all add: nat_mult_distrib nat_add_distrib)
  moreover have "0 \<le> int i * bs" using bs by simp
  ultimately show ?thesis using bs by (simp add: take_drop add.commute)
qed

lemma take_blocks:
  "take (n * m) xs = concat (map (\<lambda>i. take m (drop (i * m) xs)) [0..<n])"
proof (induction n)
  case (Suc n)
  have "take (Suc n * m) xs = take (n * m) xs @ take m (drop (n * m) xs)"
    using take_add[of "n * m" m xs] by (simp add: add.commute)
  with Suc show ?case by simp
qed simp

lemma block_contents_tokens:
  assumes "0 < bs" "take n (map (block_content sha256 bs r) [0..<a]) = take n (map (block_content sha256 bs r') [0..<b])"
    "n \<le> a" "n \<le> b"
  shows "take (n * nat bs) (all_token_ids r) = take (n * nat bs) (all_token_ids r')"
    and "k < n \<Longrightarrow> block_content sha256 bs r k = block_content sha256 bs r' k"
proof -
  have eq: "map (block_content sha256 bs r) [0..<n] = map (block_content sha256 bs r') [0..<n]"
    using assms(2-4) by (simp add: take_map)
  then show "k < n \<Longrightarrow> block_content sha256 bs r k = block_content sha256 bs r' k" by simp
  then have "map (\<lambda>i. take (nat bs) (drop (i * nat bs) (all_token_ids r))) [0..<n] =
      map (\<lambda>i. take (nat bs) (drop (i * nat bs) (all_token_ids r'))) [0..<n]"
    using eq by (simp add: block_content_def py_slice_block[OF assms(1)])
  then show "take (n * nat bs) (all_token_ids r) = take (n * nat bs) (all_token_ids r')"
    by (simp only: take_blocks)
qed

section \<open>Concrete instances\<close>

text \<open>A hash function that is injective on small inputs.\<close>

fun example_hash :: hash_fn where
  "example_hash (HashBlock p toks ks) = 1 # p @ map word_of_int toks"
| "example_hash (HashSeed s) = [2]"

lemma example_full_blocks [simp]: "full_blocks bs (example_request rid toks) = nat (int (length toks) div bs)"
  by (simp add: full_blocks_def num_tokens_def example_request_def init_request_def example_message_def)

lemma example_request_fields [simp]:
  "mm_features (example_request rid toks) = []" "block_hashes (example_request rid toks) = []"
  "all_token_ids (example_request rid toks) = toks" "prompt_embeds (example_request rid toks) = None"
  "prompt_embeds_hashes (example_request rid toks) = []" "lora_of (example_request rid toks) = None"
  "cache_salt (example_request rid toks) = None"
  by (simp_all add: example_request_def init_request_def example_message_def)

lemma example_request_side [simp]:
  "mm_sorted []" "memo_ok sha256 (example_request rid toks)"
  by (simp_all add: mm_sorted_def memo_ok_def)

lemma example_block_content [simp]:
  "block_content sha256 bs (example_request rid toks) i = (py_slice toks (int i * bs) (int i * bs + bs), None)"
  by (simp add: block_content_def block_extra_keys_def gen_lora_extra_hash_keys_def mm_block_keys_def
      embeds_block_keys_def)

text \<open>One turn of the hasher loop, when only one more block is full.\<close>

lemma hasher_loop_single:
  assumes "0 < bs" "s + bs \<le> num_tokens r" "num_tokens r < s + bs + bs"
  shows "hasher_loop hf none_hash sha256 bs r s i prev =
    bindE (generate_block_hash_extra_keys sha256 r s (s + bs) i) (\<lambda>(ks, j, r').
      Inr ([hash_block_tokens hf none_hash prev (py_slice (all_token_ids r) s (s + bs)) ks], r'))"
proof (cases "generate_block_hash_extra_keys sha256 r s (s + bs) i")
  case (Inl e)
  then show ?thesis using assms by (subst hasher_loop.simps) simp
next
  case (Inr x)
  obtain ks j r' where x: "x = (ks, j, r')" by (cases x) auto
  have "num_tokens r' = num_tokens r" using generate_extra_keys_tokens Inr x by blast
  then have "hasher_loop hf none_hash sha256 bs r' (s + bs) j p = Inr ([], r')" for p
    using assms by (subst hasher_loop.simps) simp
  then show ?thesis using Inr x assms by (subst hasher_loop.simps) (simp add: Let_def)
qed

section \<open>Properties of block hashes\<close>



text \<open>
  C13: hashing as tokens arrive gives the same hashes as hashing everything at once. When the
  stored hashes of a request are those of its full blocks, appending output tokens leaves it
  with the hashes of all full blocks of the longer request, provided that all multi-modal
  inputs but the last end within the blocks already hashed (or that no block was full yet).
\<close>

theorem incremental_hashing_complete:
  assumes "0 < bs" "mm_sorted (mm_features r)" "memo_ok sha256 r"
    and hashed: "block_hashes r = request_hashes hf none_hash sha256 bs r"
    and mm: "0 < full_blocks bs r \<longrightarrow>
      passed (mm_features r) (int (full_blocks bs r) * bs) (length (mm_features r) - 1)"
  shows "\<exists>r'. append_output_token_ids (Some (request_block_hasher hf none_hash sha256 bs)) toks r = Inr r' \<and>
              all_token_ids r' = all_token_ids r @ toks \<and>
              block_hashes r' = request_hashes hf none_hash sha256 bs r'"
proof -
  let ?k = "full_blocks bs r"
  define u where "u = r\<lparr>output_token_ids := output_token_ids r @ toks, all_token_ids := all_token_ids r @ toks\<rparr>"
  have le: "?k \<le> full_blocks bs u"
    using assms(1) by (simp add: full_blocks_def u_def num_tokens_def zdiv_mono1 nat_mono)
  have inside: "?k * nat bs \<le> length (all_token_ids r)"
  proof -
    have "num_tokens r div bs * bs \<le> num_tokens r"
      using zdiv_ge_iff[OF assms(1), of "num_tokens r div bs" "num_tokens r"] by simp
    then have "nat (num_tokens r div bs * bs) \<le> length (all_token_ids r)" by (simp add: num_tokens_def)
    then show ?thesis using assms(1)
      by (simp add: full_blocks_def nat_mult_distrib num_tokens_def pos_imp_zdiv_nonneg_iff)
  qed
  have "block_content sha256 bs u i = block_content sha256 bs r i" if "i < ?k" for i
  proof -
    have "i * nat bs + nat bs \<le> ?k * nat bs" using that by (metis Suc_leI add.commute mult_Suc mult_le_mono1)
    then have "take (nat bs) (drop (i * nat bs) (all_token_ids r @ toks)) = take (nat bs) (drop (i * nat bs) (all_token_ids r))"
      using inside by simp
    then show ?thesis
      by (simp add: block_content_def py_slice_block[OF assms(1)] u_def block_extra_keys_def
          gen_lora_extra_hash_keys_def embeds_block_keys_def)
  qed
  then have "map (block_content sha256 bs u) [0..<?k] = map (block_content sha256 bs r) [0..<?k]" by simp
  then have "block_hashes u = hash_chain hf none_hash None (map (block_content sha256 bs u) [0..<?k])"
    using hashed by (simp only: request_hashes_def) (simp add: u_def)
  moreover have "memo_ok sha256 u" using assms(3) by (simp add: memo_ok_def u_def embeds_block_keys_def)
  ultimately obtain hs m where h: "request_block_hasher hf none_hash sha256 bs u = Inr (hs, u\<lparr>prompt_embeds_hashes := m\<rparr>)"
    "block_hashes u @ hs = request_hashes hf none_hash sha256 bs u"
    using request_block_hasher_spec[of bs u sha256 ?k hf none_hash] assms(1,2) mm le by (auto simp: u_def)
  define r' where "r' = u\<lparr>prompt_embeds_hashes := m, block_hashes := block_hashes u @ hs\<rparr>"
  have "append_output_token_ids (Some (request_block_hasher hf none_hash sha256 bs)) toks r = Inr r'"
    using h(1) by (simp add: append_output_token_ids_def update_block_hashes_def r'_def u_def)
  moreover have "request_hashes hf none_hash sha256 bs r' = request_hashes hf none_hash sha256 bs u"
    by (simp add: request_hashes_def full_blocks_def num_tokens_def r'_def)
  ultimately show ?thesis using h(2) by (simp add: r'_def u_def)
qed

text \<open>
  Packing a hash with its cache group is reversible and rejects what does not fit. For a
  group number of 32 bits both parts are recovered from the key; any other number raises
  OverflowError.
\<close>

lemma block_hash_group_roundtrip:
  "if 0 \<le> g \<and> g < 2 ^ 32
   then \<exists>key. make_block_hash_with_group_id h g = Inr key \<and> length key = length h + 4 \<and>
              get_block_hash key = h \<and> get_group_id key = g
   else make_block_hash_with_group_id h g = Inl OverflowError"
  by (simp add: make_block_hash_with_group_id_def to_bytes_def get_block_hash_def get_group_id_def
      slice_append_4 from_be_bytes)

text \<open>
  The integer form of a hash in KV events is the hash modulo two to the 64, so it fits an
  unsigned 64-bit field whatever the length of the hash.
\<close>

lemma external_hash_bounds:
  "maybe_convert_block_hash True h = ExtInt (from_bytes h mod 2 ^ 64) \<and>
   0 \<le> from_bytes h mod 2 ^ 64 \<and> from_bytes h mod 2 ^ 64 < 2 ^ 64"
  by (simp add: maybe_convert_block_hash_def take_bit_eq_mod)

theorem incremental_hashing_complete_witness:
  "\<exists>r'. append_output_token_ids (Some (request_block_hasher example_hash [0] id 2)) [8, 9]
          (example_request ''a'' [7]) = Inr r' \<and>
        block_hashes r' = request_hashes example_hash [0] id 2 r' \<and> length (block_hashes r') = 1"
proof -
  have "block_hashes (example_request ''a'' [7]) = request_hashes example_hash [0] id 2 (example_request ''a'' [7])"
    by (simp add: request_hashes_def)
  from incremental_hashing_complete[OF _ _ _ this, of "[8, 9]"] show ?thesis
    by (auto simp: full_blocks_def num_tokens_def)
qed

text \<open>
  A prompt of six tokens whose last two are the placeholders of two images, with blocks of four
  tokens: the second block is completed by generated tokens.
\<close>

definition two_image_request :: "string \<Rightarrow> request" where
  "two_image_request x =
     (example_request ''a'' [10, 11, 12, 13, 1, 1])
       \<lparr>mm_features :=
          [\<lparr>modality = ''image'', mm_identifier = x,
            mm_position = \<lparr>offset = 4, plength = 1, is_embed = None\<rparr>, mm_hash = None\<rparr>,
           \<lparr>modality = ''image'', mm_identifier = ''b'',
            mm_position = \<lparr>offset = 5, plength = 1, is_embed = None\<rparr>, mm_hash = None\<rparr>]\<rparr>"

lemma two_image_fields [simp]:
  "all_token_ids (two_image_request x) = [10, 11, 12, 13, 1, 1]"
  "block_hashes (two_image_request x) = []" "prompt_embeds (two_image_request x) = None"
  "lora_of (two_image_request x) = None" "cache_salt (two_image_request x) = None"
  "mm_features (two_image_request x) ! 0 =
     \<lparr>modality = ''image'', mm_identifier = x,
      mm_position = \<lparr>offset = 4, plength = 1, is_embed = None\<rparr>, mm_hash = None\<rparr>"
  "mm_features (two_image_request x) ! Suc 0 = last (mm_features (two_image_request x))"
  "last (mm_features (two_image_request x)) =
     \<lparr>modality = ''image'', mm_identifier = ''b'',
      mm_position = \<lparr>offset = 5, plength = 1, is_embed = None\<rparr>, mm_hash = None\<rparr>"
  "length (mm_features (two_image_request x)) = 2" "mm_features (two_image_request x) \<noteq> []"
  by (simp_all add: two_image_request_def)

lemma two_image_loops:
  "mm_loop (mm_features (two_image_request x)) 0 4 0 = ([], 0)"
  "mm_loop (mm_features (two_image_request x)) 4 8 (Suc 0) = ([KeyMM ''b'' 1], 2)"
  by (subst mm_loop.simps, simp)
    (subst mm_loop.simps, simp, subst mm_loop.simps, simp)

text \<open>
  C32: the hash of a block that generated tokens complete can miss an image. In the request above
  the stored hash of the second block covers only the second image, for every hash function and
  every first image \<open>x\<close>, although both images lie in the block.
\<close>

theorem trailing_image_not_hashed:
  "\<exists>r'. bindE (update_block_hashes (Some (request_block_hasher hf none_hash sha256 4)) (two_image_request x))
          (append_output_token_ids (Some (request_block_hasher hf none_hash sha256 4)) [20, 21]) = Inr r' \<and>
        block_hashes r' ! 1 =
          hash_block_tokens hf none_hash (Some (block_hashes r' ! 0)) [1, 1, 20, 21] (Some [KeyMM ''b'' 1]) \<and>
        block_hashes r' ! 0 = hash_block_tokens hf none_hash None [10, 11, 12, 13] None \<and>
        block_extra_keys sha256 r' 4 8 = Some [KeyMM x 0, KeyMM ''b'' 1]"
proof -
  let ?h0 = "hash_block_tokens hf none_hash None [10, 11, 12, 13] None"
  define u where "u = (two_image_request x)\<lparr>block_hashes := [?h0]\<rparr>"
  have g0: "generate_block_hash_extra_keys sha256 (two_image_request x) 0 4 0 = Inr (None, 0, two_image_request x)"
    by (simp add: generate_block_hash_extra_keys_def gen_mm_extra_hash_keys_def two_image_loops
        gen_prompt_embeds_extra_hash_keys_def gen_lora_extra_hash_keys_def Let_def)
  then have "request_block_hasher hf none_hash sha256 4 (two_image_request x) = Inr ([?h0], two_image_request x)"
    by (simp add: request_block_hasher_def num_tokens_def hasher_loop_single)
  then have 0: "update_block_hashes (Some (request_block_hasher hf none_hash sha256 4)) (two_image_request x) = Inr u"
    by (simp add: update_block_hashes_def u_def)
  define v where "v = u\<lparr>output_token_ids := output_token_ids u @ [20, 21], all_token_ids := all_token_ids u @ [20, 21]\<rparr>"
  let ?h1 = "hash_block_tokens hf none_hash (Some ?h0) [1, 1, 20, 21] (Some [KeyMM ''b'' 1])"
  have v: "all_token_ids v = [10, 11, 12, 13, 1, 1, 20, 21]" "block_hashes v = [?h0]"
    "mm_features v = mm_features (two_image_request x)" "prompt_embeds v = None" "lora_of v = None" "cache_salt v = None"
    by (simp_all add: v_def u_def)
  have "generate_block_hash_extra_keys sha256 v 4 8 (- 1) = Inr (Some [KeyMM ''b'' 1], 2, v)"
    by (simp add: generate_block_hash_extra_keys_def gen_mm_extra_hash_keys_def two_image_loops v
        gen_prompt_embeds_extra_hash_keys_def gen_lora_extra_hash_keys_def Let_def)
  then have "request_block_hasher hf none_hash sha256 4 v = Inr ([?h1], v)"
    by (simp add: request_block_hasher_def num_tokens_def hasher_loop_single v)
  then have "append_output_token_ids (Some (request_block_hasher hf none_hash sha256 4)) [20, 21] u =
      Inr (v\<lparr>block_hashes := [?h0, ?h1]\<rparr>)"
    by (simp add: append_output_token_ids_def update_block_hashes_def v_def[symmetric] v)
  moreover have "block_extra_keys sha256 (v\<lparr>block_hashes := [?h0, ?h1]\<rparr>) 4 8 = Some [KeyMM x 0, KeyMM ''b'' 1]"
    by (simp add: block_extra_keys_def gen_lora_extra_hash_keys_def embeds_block_keys_def v
        mm_block_keys_def two_image_request_def overlaps_def)
  ultimately show ?thesis using 0 by simp
qed


lemma view_fold:
  assumes "\<forall>i \<in> set is. 0 \<le> i \<and> i < int (length hs)"
  shows "foldE (\<lambda>i acc. bindE (py_nth hs i) (\<lambda>x. Inr (acc @ x))) is h =
         Inr (h @ concat (map (\<lambda>i. hs ! nat i) is))"
  using assms by (induction "is" arbitrary: h) (simp_all add: py_nth_nonneg)

lemma map_nth_upto:
  assumes "0 \<le> a" "a + int n \<le> int (length xs)"
  shows "map (\<lambda>i. xs ! nat i) [a..a + int n - 1] = take n (drop (nat a) xs)"
  using assms
proof (induction n)
  case (Suc n)
  have "[a..a + int (Suc n) - 1] = [a..a + int n - 1] @ [a + int n]"
    using upto_rec2[of a "a + int n"] by simp
  moreover have "nat a + n < length xs" "nat (a + int n) = nat a + n" using Suc.prems by auto
  ultimately show ?case using Suc by (simp add: take_Suc_conv_app_nth)
qed simp

lemma hlv_get_value_concat:
  assumes "hlv_init hs bs (int k * bs) = Inr v" "0 < bs" "0 < k" "0 \<le> i" "i < hlv_len v"
  shows "hlv_get_value_at v i = Inr (concat (take k (drop (nat i * k) hs)))"
proof -
  have v: "hl_hashes v = hs" "scale_factor v = int k" using assms by (auto simp: hlv_init_def elim!: bindE_InrE)
  have "(i + 1) * int k \<le> int (length hs)"
    using assms(3,5) v zdiv_ge_iff[of "int k" "i + 1" "int (length hs)"] by (simp add: hlv_len_def)
  then have in_range: "0 \<le> i * int k" "i * int k + int k \<le> int (length hs)"
    using assms(3,4) by (auto simp: distrib_right)
  let ?b = "i * int k"
  have "[?b..?b + int k - 1] = ?b # [?b + 1..?b + int k - 1]" using assms(3) by (simp add: upto_rec1)
  then have "hs ! nat ?b @ concat (map (\<lambda>i. hs ! nat i) [?b + 1..?b + int k - 1]) =
      concat (take k (drop (nat ?b) hs))"
    using map_nth_upto[OF in_range] by (metis concat.simps(2) list.simps(9))
  moreover have "nat ?b = nat i * k" using assms(4) by (simp add: nat_mult_distrib)
  ultimately show ?thesis
    using in_range assms(3) by (simp add: hlv_get_value_at_def v py_nth_nonneg view_fold)
qed

text \<open>
  The view of a hash list at a multiple of the block size gives, at each index below its
  length, the concatenation of the consecutive small-block hashes the large block covers.
\<close>

lemma hash_view_concatenates:
  assumes "hlv_init hs bs (int k * bs) = Inr v" "0 < bs" "0 < k" "0 \<le> i" "i < hlv_len v"
  shows "hlv_get_value_at v i = Inr (concat (take k (drop (nat i * k) hs)))"
  using assms by (rule hlv_get_value_concat)

lemma hash_view_concatenates_witness:
  "hlv_get_value_at \<lparr>hl_hashes = [[1], [2], [3], [4]], scale_factor = 2\<rparr> 1 = Inr [3, 4]"
  using hash_view_concatenates[of "[[1], [2], [3], [4]]" 16 2 "\<lparr>hl_hashes = [[1], [2], [3], [4]], scale_factor = 2\<rparr>" 1]
  by (simp add: hlv_init_def hlv_len_def)

end
