(* ===== verification/Block_Pool.thy ===== *)
theory Block_Pool
  imports Hash_Map Block_Hash
begin

text \<open>
  The block pool, \<open>BlockPool\<close> of \<open>vllm/v1/core/block_pool.py\<close>: the blocks, the queue of free
  ones in eviction order and the prefix cache index. The store of blocks is the one of the free
  queue. A metrics collector, when there is one, is represented by the calls it receives.
\<close>

section \<open>State\<close>

datatype kv_event =
    BlockStored "external_hash list" "external_hash option" "int list" int
      "int option" "string option" "extra_key list option list option"
  | BlockRemoved "external_hash list"
  | AllBlocksCleared

datatype metric_call = OnAllocated int | OnEvicted int | OnAccessed int | OnReset

record block_pool =
  num_gpu_blocks :: int
  enable_caching :: bool
  hash_block_size :: int
  free_block_queue :: free_queue
  cached_block_hash_to_block :: block_index_map
  null_block :: bref
  enable_kv_cache_events :: bool
  kv_event_queue :: "kv_event list"
  use_int_hashes :: bool
  metrics_collector :: "metric_call list option"

abbreviation blk :: "block_pool \<Rightarrow> bref \<Rightarrow> kv_block" where
  "blk p b \<equiv> heap (free_block_queue p) b"

abbreviation bid_of :: "block_pool \<Rightarrow> bref \<Rightarrow> int" where
  "bid_of p \<equiv> \<lambda>b. block_id (blk p b)"

definition set_heap :: "bheap \<Rightarrow> block_pool \<Rightarrow> block_pool" where
  "set_heap h p = p\<lparr>free_block_queue := (free_block_queue p)\<lparr>heap := h\<rparr>\<rparr>"

definition log_metric :: "metric_call \<Rightarrow> block_pool \<Rightarrow> block_pool" where
  "log_metric m p = p\<lparr>metrics_collector := map_option (\<lambda>l. l @ [m]) (metrics_collector p)\<rparr>"

definition log_event :: "kv_event \<Rightarrow> block_pool \<Rightarrow> block_pool" where
  "log_event e p =
     (if enable_kv_cache_events p then p\<lparr>kv_event_queue := kv_event_queue p @ [e]\<rparr> else p)"

definition pool_blocks :: "block_pool \<Rightarrow> bref list" where
  "pool_blocks p = map Blk [0..<nat (num_gpu_blocks p)]"

section \<open>Operations\<close>

definition initial_heap :: bheap where
  "initial_heap r = (case r of Blk i \<Rightarrow> new_block (int i) | _ \<Rightarrow> new_block (- 1))"

definition pool_init :: "int \<Rightarrow> bool \<Rightarrow> int \<Rightarrow> bool \<Rightarrow> bool \<Rightarrow> bool \<Rightarrow> block_pool result" where
  "pool_init n caching hbs events use_int metrics =
     bindE (assertE (0 < n)) (\<lambda>_.
     bindE (fq_popleft (fq_init initial_heap (map Blk [0..<nat n]))) (\<lambda>(nb, fq).
       let h = heap fq
       in Inr \<lparr>num_gpu_blocks = n, enable_caching = caching, hash_block_size = hbs,
               free_block_queue = fq\<lparr>heap := h(nb := (h nb)\<lparr>is_null := True\<rparr>)\<rparr>,
               cached_block_hash_to_block = bhm_init, null_block = nb,
               enable_kv_cache_events = events, kv_event_queue = [], use_int_hashes = use_int,
               metrics_collector = (if metrics then Some [] else None)\<rparr>))"

fun get_cached_block :: "block_pool \<Rightarrow> bytes \<Rightarrow> int list \<Rightarrow> bref list option result" where
  "get_cached_block p h [] = Inr (Some [])"
| "get_cached_block p h (g # gs) =
     bindE (make_block_hash_with_group_id h g) (\<lambda>key.
     bindE (get_one_block (cached_block_hash_to_block p) key) (\<lambda>b.
       case b of
         None \<Rightarrow> Inr None
       | Some x \<Rightarrow> bindE (get_cached_block p h gs) (\<lambda>r. Inr (map_option (\<lambda>xs. x # xs) r))))"

definition get_num_free_blocks :: "block_pool \<Rightarrow> int" where
  "get_num_free_blocks p = num_free_blocks (free_block_queue p)"

definition maybe_evict_cached_block :: "bref \<Rightarrow> block_pool \<Rightarrow> bool \<times> block_pool" where
  "maybe_evict_cached_block b p0 =
     (let p = log_metric (OnEvicted (bid_of p0 b)) p0
      in case block_hash (blk p b) of
           None \<Rightarrow> (False, p)
         | Some key \<Rightarrow>
             (let (found, c) = bhm_pop (bid_of p) (cached_block_hash_to_block p) key (bid_of p b);
                  p1 = p\<lparr>cached_block_hash_to_block := c\<rparr>
              in case found of
                   None \<Rightarrow> (False, p1)
                 | Some _ \<Rightarrow>
                     (let p2 = set_heap (reset_hash (heap (free_block_queue p1)) b) p1
                      in (True, log_event (BlockRemoved
                            [maybe_convert_block_hash (use_int_hashes p2) (get_block_hash key)]) p2))))"

definition alloc_step :: "bref \<Rightarrow> block_pool \<Rightarrow> block_pool result" where
  "alloc_step b p =
     (let p1 = (if enable_caching p then snd (maybe_evict_cached_block b p) else p)
      in bindE (assertE (ref_cnt (blk p1 b) = 0)) (\<lambda>_.
         Inr (log_metric (OnAllocated (bid_of p1 b))
               (set_heap (add_ref 1 (heap (free_block_queue p1)) b) p1))))"

definition get_new_blocks :: "block_pool \<Rightarrow> int \<Rightarrow> (bref list \<times> block_pool) result" where
  "get_new_blocks p n =
     (if get_num_free_blocks p < n then Inl ValueError
      else bindE (fq_popleft_n (free_block_queue p) n) (\<lambda>(ret, fq).
           bindE (foldE alloc_step ret (p\<lparr>free_block_queue := fq\<rparr>)) (\<lambda>p'. Inr (ret, p'))))"

definition touch_step :: "bref \<Rightarrow> block_pool \<Rightarrow> block_pool result" where
  "touch_step b p =
     bindE (if ref_cnt (blk p b) = 0 \<and> \<not> is_null (blk p b)
            then bindE (fq_remove (free_block_queue p) b) (\<lambda>fq. Inr (p\<lparr>free_block_queue := fq\<rparr>))
            else Inr p)
       (\<lambda>p1. Inr (log_metric (OnAccessed (bid_of p1 b))
                   (set_heap (add_ref 1 (heap (free_block_queue p1)) b) p1)))"

definition touch :: "bref list \<Rightarrow> block_pool \<Rightarrow> block_pool result" where
  "touch bs p = foldE touch_step bs p"

definition free_blocks :: "bref list \<Rightarrow> block_pool \<Rightarrow> block_pool result" where
  "free_blocks bs p =
     (let h = fold (\<lambda>b h. add_ref (- 1) h b) bs (heap (free_block_queue p));
          p1 = set_heap h p
      in bindE (fq_append_n (free_block_queue p1) (filter (\<lambda>b. ref_cnt (h b) = 0 \<and> \<not> is_null (h b)) bs))
           (\<lambda>fq. Inr (p1\<lparr>free_block_queue := fq\<rparr>)))"

definition evict_step :: "int \<Rightarrow> block_pool \<Rightarrow> block_pool result" where
  "evict_step i p =
     bindE (assertE (i < int (length (pool_blocks p)))) (\<lambda>_.
     bindE (py_nth (pool_blocks p) i) (\<lambda>b. Inr (snd (maybe_evict_cached_block b p))))"

definition evict_blocks :: "int list \<Rightarrow> block_pool \<Rightarrow> block_pool result" where
  "evict_blocks block_ids p = foldE evict_step block_ids p"

definition reset_prefix_cache :: "block_pool \<Rightarrow> bool \<times> block_pool" where
  "reset_prefix_cache p =
     (if num_gpu_blocks p - get_num_free_blocks p \<noteq> 1 then (False, p)
      else (let p1 = p\<lparr>cached_block_hash_to_block := bhm_init\<rparr>;
                p2 = set_heap (fold (\<lambda>b h. reset_hash h b) (pool_blocks p1) (heap (free_block_queue p1))) p1;
                p3 = p2\<lparr>metrics_collector := map_option (\<lambda>l. l @ [OnReset]) (metrics_collector p2)\<rparr>
            in (True, log_event AllBlocksCleared p3)))"

definition get_usage :: "block_pool \<Rightarrow> rat" where
  "get_usage p =
     (let total = num_gpu_blocks p - 1
      in if total = 0 then 0 else 1 - of_int (get_num_free_blocks p) / of_int total)"

definition pool_take_events :: "block_pool \<Rightarrow> kv_event list \<times> block_pool" where
  "pool_take_events p =
     (if \<not> enable_kv_cache_events p then ([], p)
      else (kv_event_queue p, p\<lparr>kv_event_queue := []\<rparr>))"

text \<open>Caching one block: its hash is set, it enters the index, its hash is collected.\<close>

definition cache_step ::
    "bytes list \<Rightarrow> int \<Rightarrow> nat \<times> bref \<Rightarrow> block_pool \<times> external_hash list \<Rightarrow> (block_pool \<times> external_hash list) result" where
  "cache_step new_block_hashes gid ib s =
     (let (i, b) = ib; (p, new_hashes) = s
      in if is_null (blk p b) then Inr (p, new_hashes)
         else bindE (assertE (block_hash (blk p b) = None)) (\<lambda>_.
              bindE (py_nth new_block_hashes (int i)) (\<lambda>h.
              bindE (make_block_hash_with_group_id h gid) (\<lambda>key.
              bindE (set_block_hash (heap (free_block_queue p)) b key) (\<lambda>hp.
                let p1 = set_heap hp p;
                    p2 = p1\<lparr>cached_block_hash_to_block :=
                              bhm_insert (bid_of p1) (cached_block_hash_to_block p1) key b\<rparr>
                in Inr (p2, new_hashes @ [maybe_convert_block_hash (use_int_hashes p) h]))))))"

text \<open>The extra keys of the blocks from index \<open>i\<close> on, for the event.\<close>

fun event_extra_keys ::
    "(bytes \<Rightarrow> bytes) \<Rightarrow> block_pool \<Rightarrow> bref list \<Rightarrow> int \<Rightarrow> int list \<Rightarrow> int \<Rightarrow> request
      \<Rightarrow> (extra_key list option list \<times> request) result" where
  "event_extra_keys sha256 p blocks bs [] mm_idx r = Inr ([], r)"
| "event_extra_keys sha256 p blocks bs (i # is) mm_idx r =
     bindE (py_nth blocks i) (\<lambda>b.
       if is_null (blk p b) then event_extra_keys sha256 p blocks bs is mm_idx r
       else bindE (generate_block_hash_extra_keys sha256 r (i * bs) (i * bs + bs) mm_idx) (\<lambda>(ks, mm_idx', r').
            bindE (event_extra_keys sha256 p blocks bs is mm_idx' r') (\<lambda>(kss, r'').
            Inr (ks # kss, r''))))"

definition stored_event ::
    "(bytes \<Rightarrow> bytes) \<Rightarrow> block_pool \<Rightarrow> request \<Rightarrow> bref list \<Rightarrow> int \<Rightarrow> int \<Rightarrow> int \<Rightarrow> hash_list \<Rightarrow> external_hash list
      \<Rightarrow> (kv_event \<times> request) result" where
  "stored_event sha256 p r blocks num_cached num_full bs hl new_hashes =
     bindE (if num_cached = 0 then Inr None
            else bindE (hl_get hl (num_cached - 1))
                   (\<lambda>h. Inr (Some (maybe_convert_block_hash (use_int_hashes p) h)))) (\<lambda>parent.
     bindE (event_extra_keys sha256 p blocks bs [num_cached..num_full - 1] 0 r) (\<lambda>(kss, r').
       Inr (BlockStored new_hashes parent
              (py_slice (all_token_ids r) (num_cached * bs) (num_full * bs)) bs
              (map_option adapter_id (lora_of r)) (map_option lora_name (lora_of r))
              (if kss = [] then None else Some kss), r')))"

definition cache_full_blocks ::
    "(bytes \<Rightarrow> bytes) \<Rightarrow> request \<Rightarrow> bref list \<Rightarrow> int \<Rightarrow> int \<Rightarrow> int \<Rightarrow> int \<Rightarrow> block_pool
      \<Rightarrow> (block_pool \<times> request) result" where
  "cache_full_blocks sha256 r blocks num_cached num_full bs gid p =
     (if num_full \<le> num_cached then Inr (p, r)
      else
        bindE (assertE (num_full \<le> int (length (block_hashes r)))) (\<lambda>_.
        bindE (if bs = hash_block_size p then Inr (Plain (block_hashes r))
               else bindE (hlv_init (block_hashes r) (hash_block_size p) bs) (\<lambda>v. Inr (View v))) (\<lambda>hl.
        bindE (hl_slice_from hl num_cached) (\<lambda>new_block_hashes.
        bindE (foldE (cache_step new_block_hashes gid)
                 (enumerate 0 (py_slice blocks num_cached num_full)) (p, [])) (\<lambda>(p1, new_hashes).
        if enable_kv_cache_events p
        then bindE (stored_event sha256 p1 r blocks num_cached num_full bs hl new_hashes)
               (\<lambda>(e, r'). Inr (log_event e p1, r'))
        else Inr (p1, r))))))"

section \<open>The invariant\<close>

definition refs :: "block_pool \<Rightarrow> nat \<Rightarrow> int" where
  "refs p i = ref_cnt (blk p (Blk i))"

definition hash_at :: "block_pool \<Rightarrow> nat \<Rightarrow> bytes option" where
  "hash_at p i = block_hash (blk p (Blk i))"

text \<open>The blocks other than the null block.\<close>

definition in_pool :: "block_pool \<Rightarrow> nat \<Rightarrow> bool" where
  "in_pool p i \<longleftrightarrow> 0 < i \<and> int i < num_gpu_blocks p"

text \<open>
  The free queue stands for \<open>q\<close>, which holds exactly the unreferenced blocks of the pool, but
  for the blocks in \<open>R\<close> that were taken out without a reference; block 0 is the null block;
  the index holds exactly the blocks with a hash, each under its hash.
\<close>

definition pool_inv :: "nat set \<Rightarrow> block_pool \<Rightarrow> bref list \<Rightarrow> bool" where
  "pool_inv R p q \<longleftrightarrow>
     0 < num_gpu_blocks p \<and> null_block p = Blk 0 \<and>
     fq_rep (free_block_queue p) q \<and>
     (\<forall>i. Blk i \<in> set q \<longleftrightarrow> in_pool p i \<and> refs p i = 0 \<and> i \<notin> R) \<and>
     (\<forall>i. is_null (blk p (Blk i)) \<longleftrightarrow> i = 0) \<and>
     (\<forall>i. bid_of p (Blk i) = int i) \<and>
     (\<forall>i > 0. 0 \<le> refs p i) \<and>
     bhm_ok (bid_of p) (cached_block_hash_to_block p) \<and>
     (\<forall>key b. b \<in> cached (cached_block_hash_to_block p) key \<longleftrightarrow>
        (\<exists>i. b = Blk i \<and> in_pool p i \<and> hash_at p i = Some key)) \<and>
     (\<forall>i. \<not> in_pool p i \<longrightarrow> hash_at p i = None) \<and>
     (enable_caching p \<or> (\<forall>i. hash_at p i = None))"

lemma pool_invD:
  assumes "pool_inv R p q"
  shows "0 < num_gpu_blocks p" "null_block p = Blk 0" "fq_rep (free_block_queue p) q"
    "Blk i \<in> set q \<longleftrightarrow> in_pool p i \<and> refs p i = 0 \<and> i \<notin> R"
    "is_null (blk p (Blk i)) \<longleftrightarrow> i = 0" "bid_of p (Blk i) = int i" "0 < i \<Longrightarrow> 0 \<le> refs p i"
    "bhm_ok (bid_of p) (cached_block_hash_to_block p)"
    "b \<in> cached (cached_block_hash_to_block p) key \<longleftrightarrow>
        (\<exists>i. b = Blk i \<and> in_pool p i \<and> hash_at p i = Some key)"
    "\<not> in_pool p i \<Longrightarrow> hash_at p i = None"
    "enable_caching p \<or> hash_at p i = None"
  using assms by (auto simp: pool_inv_def)

lemma pool_inv_num_free: "pool_inv R p q \<Longrightarrow> get_num_free_blocks p = int (length q)"
  using fq_repD(5)[OF pool_invD(3)] by (simp add: get_num_free_blocks_def)

lemma pool_queue_Blk:
  assumes "pool_inv R p q" "b \<in> set q"
  obtains i where "b = Blk i" "in_pool p i" "refs p i = 0" "i \<notin> R"
  using assms fq_repD(3,4)[OF pool_invD(3)[OF assms(1)]] pool_invD(4)[OF assms(1)]
  by (cases b) auto

text \<open>What the operations on blocks leave alone.\<close>

definition same_config :: "block_pool \<Rightarrow> block_pool \<Rightarrow> bool" where
  "same_config p p' \<longleftrightarrow>
     num_gpu_blocks p' = num_gpu_blocks p \<and> enable_caching p' = enable_caching p \<and>
     hash_block_size p' = hash_block_size p \<and> null_block p' = null_block p \<and>
     enable_kv_cache_events p' = enable_kv_cache_events p \<and> use_int_hashes p' = use_int_hashes p"

lemma same_config_refl [simp, intro]: "same_config p p"
  and same_config_trans [trans]: "same_config p p' \<Longrightarrow> same_config p' p'' \<Longrightarrow> same_config p p''"
  by (simp_all add: same_config_def)

lemma same_config_in_pool: "same_config p p' \<Longrightarrow> in_pool p' i = in_pool p i"
  by (simp add: same_config_def in_pool_def)

lemma set_heap_simps [simp]:
  "heap (free_block_queue (set_heap h p)) = h"
  "num_free_blocks (free_block_queue (set_heap h p)) = num_free_blocks (free_block_queue p)"
  "free_block_queue (set_heap h p) = (free_block_queue p)\<lparr>heap := h\<rparr>"
  "cached_block_hash_to_block (set_heap h p) = cached_block_hash_to_block p"
  "num_gpu_blocks (set_heap h p) = num_gpu_blocks p" "enable_caching (set_heap h p) = enable_caching p"
  "null_block (set_heap h p) = null_block p"
  "same_config p (set_heap h p)" "in_pool (set_heap h p) = in_pool p"
  by (simp_all add: set_heap_def same_config_def in_pool_def fun_eq_iff)

lemma log_simps [simp]:
  "free_block_queue (log_metric m p) = free_block_queue p"
  "cached_block_hash_to_block (log_metric m p) = cached_block_hash_to_block p"
  "enable_caching (log_metric m p) = enable_caching p" "num_gpu_blocks (log_metric m p) = num_gpu_blocks p"
  "free_block_queue (log_event e p) = free_block_queue p"
  "cached_block_hash_to_block (log_event e p) = cached_block_hash_to_block p"
  "same_config p (log_metric m p)" "same_config p (log_event e p)"
  "refs (log_metric m p) = refs p" "refs (log_event e p) = refs p"
  "hash_at (log_metric m p) = hash_at p" "hash_at (log_event e p) = hash_at p"
  "in_pool (log_metric m p) = in_pool p" "in_pool (log_event e p) = in_pool p"
  by (simp_all add: log_metric_def log_event_def same_config_def refs_def hash_at_def in_pool_def fun_eq_iff)

lemma pool_inv_log [simp]:
  "pool_inv R (log_metric m p) q = pool_inv R p q" "pool_inv R (log_event e p) q = pool_inv R p q"
  by (simp_all add: pool_inv_def log_metric_def log_event_def refs_def hash_at_def in_pool_def)

lemma data_write_simps [simp, heap_simps]:
  "block_id (reset_hash h b r) = block_id (h r)" "ref_cnt (reset_hash h b r) = ref_cnt (h r)"
  "is_null (reset_hash h b r) = is_null (h r)"
  "block_hash (reset_hash h b r) = (if r = b then None else block_hash (h r))"
  "block_id (add_ref d h b r) = block_id (h r)" "block_hash (add_ref d h b r) = block_hash (h r)"
  "is_null (add_ref d h b r) = is_null (h r)"
  "ref_cnt (add_ref d h b r) = (if r = b then ref_cnt (h r) + d else ref_cnt (h r))"
  by (simp_all add: reset_hash_def add_ref_def)

text \<open>The well-formedness of the index depends on the identifiers of the blocks only.\<close>

lemma bhm_ok_cong:
  assumes "bhm_ok bid c" "\<And>key b. b \<in> cached c key \<Longrightarrow> bid b = bid' b"
  shows "bhm_ok bid' c"
proof -
  have "entry_ok bid' e" if e: "dget c key = Some e" for key e
  proof -
    have "entry_ok bid e" using assms(1) e by (rule bhm_okD)
    moreover have "b \<in> entry_blocks e \<Longrightarrow> bid b = bid' b" for b
      using assms(2)[of b key] e by (simp add: cached_def)
    ultimately show ?thesis by (cases e) force+
  qed
  then show ?thesis using assms(1) by (simp add: bhm_ok_def)
qed

text \<open>
  The two ways a pool changes: the queue is relinked and the data of the blocks stays, or data
  is written and the links stay.
\<close>

lemma pool_inv_requeue:
  assumes inv: "pool_inv R p q" and rep: "fq_rep fq' q'"
    and data: "same_data (heap (free_block_queue p)) (heap fq')"
    and q': "\<And>i. Blk i \<in> set q' \<longleftrightarrow> in_pool p i \<and> refs p i = 0 \<and> i \<notin> R'"
  shows "pool_inv R' (p\<lparr>free_block_queue := fq'\<rparr>) q'"
    and "refs (p\<lparr>free_block_queue := fq'\<rparr>) = refs p" "hash_at (p\<lparr>free_block_queue := fq'\<rparr>) = hash_at p"
proof -
  have d: "block_data (heap fq' (Blk i)) = block_data (blk p (Blk i))" for i
    using data by (simp add: same_data_def)
  then show r: "refs (p\<lparr>free_block_queue := fq'\<rparr>) = refs p" "hash_at (p\<lparr>free_block_queue := fq'\<rparr>) = hash_at p"
    by (auto simp: refs_def hash_at_def fun_eq_iff block_data_def)
  have bid: "block_id (heap fq' (Blk i)) = int i" "is_null (heap fq' (Blk i)) \<longleftrightarrow> i = 0" for i
    using d[of i] pool_invD(5,6)[OF inv, of i] by (auto simp: block_data_def)
  have "bhm_ok (\<lambda>b. block_id (heap fq' b)) (cached_block_hash_to_block p)"
  proof (rule bhm_ok_cong[OF pool_invD(8)[OF inv]])
    fix key b assume "b \<in> cached (cached_block_hash_to_block p) key"
    then obtain i where "b = Blk i" using pool_invD(9)[OF inv] by auto
    then show "bid_of p b = block_id (heap fq' b)" using pool_invD(6)[OF inv] bid by simp
  qed
  then show "pool_inv R' (p\<lparr>free_block_queue := fq'\<rparr>) q'"
    using inv rep q' bid unfolding pool_inv_def r by (simp add: in_pool_def)
qed

lemma pool_inv_set_refs:
  assumes inv: "pool_inv R p q" and links: "same_links (heap (free_block_queue p)) h"
    and same: "\<And>r. block_id (h r) = bid_of p r \<and> block_hash (h r) = block_hash (blk p r) \<and>
                    is_null (h r) = is_null (blk p r)"
    and pos: "\<And>i. 0 < i \<Longrightarrow> 0 \<le> ref_cnt (h (Blk i))"
    and q: "\<And>i. Blk i \<in> set q \<longleftrightarrow> in_pool p i \<and> ref_cnt (h (Blk i)) = 0 \<and> i \<notin> R'"
  shows "pool_inv R' (set_heap h p) q"
proof -
  have "fq_rep ((free_block_queue p)\<lparr>heap := h\<rparr>) q"
    using fq_rep_same_links[OF pool_invD(3)[OF inv] links] .
  moreover have "hash_at (set_heap h p) = hash_at p" using same by (auto simp: hash_at_def fun_eq_iff)
  moreover have "refs (set_heap h p) = (\<lambda>i. ref_cnt (h (Blk i)))" by (auto simp: refs_def fun_eq_iff)
  moreover have "(\<lambda>b. block_id (h b)) = bid_of p" using same by auto
  ultimately show ?thesis
    using inv pos q same unfolding pool_inv_def by simp
qed

section \<open>Each operation keeps the invariant\<close>

lemma pool_inv_evict_block:
  assumes inv: "pool_inv R p q" and key: "hash_at p i = Some key"
    and c: "bhm_pop (bid_of p) (cached_block_hash_to_block p) key (int i) = (found, c)"
  defines "p' \<equiv> set_heap (reset_hash (heap (free_block_queue p)) (Blk i)) (p\<lparr>cached_block_hash_to_block := c\<rparr>)"
  shows "found = Some (Blk i)" "pool_inv R p' q" "refs p' = refs p" "hash_at p' = (hash_at p)(i := None)"
    "cached c k = cached (cached_block_hash_to_block p) k - {Blk i}"
proof -
  let ?c = "cached_block_hash_to_block p"
  have ip: "in_pool p i" using pool_invD(10)[OF inv, of i] key by auto
  note spec = bhm_pop_spec[OF pool_invD(8)[OF inv], of key "int i"]
  have bids: "b \<in> cached ?c l \<Longrightarrow> bid_of p b = int i \<longleftrightarrow> b = Blk i" for b l
    using pool_invD(6,9)[OF inv] by auto
  have mem: "Blk i \<in> cached ?c key" using pool_invD(9)[OF inv] ip key by auto
  show f: "found = Some (Blk i)"
    using spec(3) mem bids pool_invD(6)[OF inv] unfolding c by (auto split: option.splits)
  have only: "Blk i \<in> cached ?c l \<Longrightarrow> l = key" for l using pool_invD(9)[OF inv] key by auto
  show cc: "cached c k = cached ?c k - {Blk i}" for k
    using spec(2)[of k] bids only unfolding c by auto
  show r: "refs p' = refs p" "hash_at p' = (hash_at p)(i := None)"
    by (auto simp: p'_def refs_def hash_at_def fun_eq_iff)
  have links: "same_links (heap (free_block_queue p)) (reset_hash (heap (free_block_queue p)) (Blk i))" by simp
  have "bid_of p' = bid_of p" "\<And>j. is_null (blk p' (Blk j)) = is_null (blk p (Blk j))"
    by (auto simp: p'_def fun_eq_iff)
  moreover have "in_pool p' = in_pool p" by (simp add: p'_def in_pool_def fun_eq_iff)
  moreover have "fq_rep (free_block_queue p') q"
    using fq_rep_same_links[OF pool_invD(3)[OF inv] links] by (simp add: p'_def)
  moreover have "bhm_ok (bid_of p) c" using spec(1) unfolding c by simp
  ultimately show "pool_inv R p' q"
    using inv cc unfolding pool_inv_def r by (auto simp: p'_def)
qed

lemma maybe_evict_inv:
  assumes inv: "pool_inv R p q"
  obtains p' where "maybe_evict_cached_block (Blk i) p = (hash_at p i \<noteq> None, p')"
    "pool_inv R p' q" "refs p' = refs p" "hash_at p' = (hash_at p)(i := None)" "same_config p p'"
    "\<And>k. cached (cached_block_hash_to_block p') k = cached (cached_block_hash_to_block p) k - {Blk i}"
proof (cases "hash_at p i")
  case None
  then have "Blk i \<notin> cached (cached_block_hash_to_block p) k" for k
    using pool_invD(9)[OF inv] by auto
  moreover have "maybe_evict_cached_block (Blk i) p = (False, log_metric (OnEvicted (bid_of p (Blk i))) p)"
    using None by (simp add: maybe_evict_cached_block_def hash_at_def)
  ultimately show thesis using that[of "log_metric (OnEvicted (bid_of p (Blk i))) p"] inv None
    by (auto simp: fun_upd_idem)
next
  case (Some key)
  let ?l = "log_metric (OnEvicted (bid_of p (Blk i))) p"
  obtain found c where c: "bhm_pop (bid_of ?l) (cached_block_hash_to_block ?l) key (int i) = (found, c)"
    by fastforce
  note E = pool_inv_evict_block[of R ?l q i key found c, OF _ _ c]
  let ?p = "set_heap (reset_hash (heap (free_block_queue ?l)) (Blk i)) (?l\<lparr>cached_block_hash_to_block := c\<rparr>)"
  let ?r = "log_event (BlockRemoved [maybe_convert_block_hash (use_int_hashes ?p) (get_block_hash key)]) ?p"
  have "maybe_evict_cached_block (Blk i) p = (True, ?r)"
    using Some c E(1) inv pool_invD(6)[OF inv]
    by (simp add: maybe_evict_cached_block_def hash_at_def Let_def)
  moreover have "same_config p ?r" by (simp add: log_metric_def log_event_def same_config_def set_heap_def)
  ultimately show thesis
    using that[of ?r] E inv Some by simp
qed

lemma alloc_step_inv:
  assumes inv: "pool_inv R p q" and i: "in_pool p i" "i \<in> R" "refs p i = 0"
  obtains p' where "alloc_step (Blk i) p = Inr p'" "pool_inv (R - {i}) p' q"
    "refs p' = (refs p)(i := 1)" "hash_at p' = (hash_at p)(i := None)" "same_config p p'"
proof -
  obtain p1 where p1: "(if enable_caching p then snd (maybe_evict_cached_block (Blk i) p) else p) = p1"
    "pool_inv R p1 q" "refs p1 = refs p" "hash_at p1 = (hash_at p)(i := None)" "same_config p p1"
  proof (cases "enable_caching p")
    case True
    with maybe_evict_inv[OF inv, of i] that show thesis by (metis snd_conv)
  next
    case False
    then have "hash_at p i = None" using pool_invD(11)[OF inv] by auto
    then show thesis using that[of p] False inv by (simp add: fun_upd_idem)
  qed
  let ?h = "add_ref 1 (heap (free_block_queue p1)) (Blk i)"
  have ref: "ref_cnt (?h (Blk j)) = (if j = i then 1 else refs p j)" for j
    using p1(3) i(3) by (auto simp: refs_def fun_eq_iff)
  have "pool_inv (R - {i}) (set_heap ?h p1) q"
  proof (rule pool_inv_set_refs[OF p1(2)])
    show "0 < j \<Longrightarrow> 0 \<le> ref_cnt (?h (Blk j))" for j
      using ref pool_invD(7)[OF inv] by simp
    show "Blk j \<in> set q \<longleftrightarrow> in_pool p1 j \<and> ref_cnt (?h (Blk j)) = 0 \<and> j \<notin> R - {i}" for j
      using pool_invD(4)[OF inv] i ref same_config_in_pool[OF p1(5)] by auto
  qed simp_all
  moreover have "alloc_step (Blk i) p = Inr (log_metric (OnAllocated (bid_of p1 (Blk i))) (set_heap ?h p1))"
    using p1(3) i(3) unfolding alloc_step_def p1(1) by (auto simp: refs_def fun_eq_iff)
  moreover have "refs (set_heap ?h p1) = (refs p)(i := 1)"
    using ref by (auto simp: refs_def fun_eq_iff)
  moreover have "hash_at (set_heap ?h p1) = (hash_at p)(i := None)"
    using p1(4) by (auto simp: hash_at_def fun_eq_iff)
  moreover have "same_config p (log_metric m (set_heap ?h p1))" for m
    using p1(5) by (simp add: same_config_def log_metric_def set_heap_def)
  ultimately show thesis using that by simp
qed

lemma alloc_loop_inv:
  assumes "pool_inv (R \<union> set is) p q" "distinct is" "set is \<inter> R = {}"
    and "\<forall>i \<in> set is. in_pool p i \<and> refs p i = 0"
  obtains p' where "foldE alloc_step (map Blk is) p = Inr p'" "pool_inv R p' q"
    "refs p' = (\<lambda>i. if i \<in> set is then 1 else refs p i)"
    "hash_at p' = (\<lambda>i. if i \<in> set is then None else hash_at p i)" "same_config p p'"
  using assms
proof (induction "is" arbitrary: p thesis)
  case Nil
  then show ?case by simp
next
  case (Cons i "is")
  have "in_pool p i" "i \<in> R \<union> set (i # is)" "refs p i = 0" using Cons.prems by auto
  from alloc_step_inv[OF Cons.prems(2) this]
  obtain p1 where p1: "alloc_step (Blk i) p = Inr p1" "pool_inv (R \<union> set (i # is) - {i}) p1 q"
    "refs p1 = (refs p)(i := 1)" "hash_at p1 = (hash_at p)(i := None)" "same_config p p1" by blast
  have "R \<union> set (i # is) - {i} = R \<union> set is" using Cons.prems(3,4) by auto
  with p1(2) have "pool_inv (R \<union> set is) p1 q" by simp
  moreover have "\<forall>j \<in> set is. in_pool p1 j \<and> refs p1 j = 0"
    using Cons.prems p1(3) same_config_in_pool[OF p1(5)] by auto
  moreover have "distinct is" "set is \<inter> R = {}" using Cons.prems(3,4) by auto
  ultimately obtain p2 where p2: "foldE alloc_step (map Blk is) p1 = Inr p2" "pool_inv R p2 q"
    "refs p2 = (\<lambda>j. if j \<in> set is then 1 else refs p1 j)"
    "hash_at p2 = (\<lambda>j. if j \<in> set is then None else hash_at p1 j)" "same_config p1 p2"
    using Cons.IH by blast
  show ?case
  proof (rule Cons.prems(1))
    show "foldE alloc_step (map Blk (i # is)) p = Inr p2" using p1(1) p2(1) by simp
    show "refs p2 = (\<lambda>j. if j \<in> set (i # is) then 1 else refs p j)" using p2(3) p1(3) by auto
    show "hash_at p2 = (\<lambda>j. if j \<in> set (i # is) then None else hash_at p j)" using p2(4) p1(4) by auto
    show "same_config p p2" using p1(5) p2(5) by (rule same_config_trans)
  qed (rule p2(2))
qed

lemma Blk_list: "(\<forall>b \<in> set bs. \<exists>i. b = Blk i) \<Longrightarrow> \<exists>is. bs = map Blk is"
  by (induction bs) (auto, metis list.simps(9))

lemma get_new_blocks_inv:
  assumes inv: "pool_inv R p q" and n: "0 \<le> n" "n \<le> int (length q)"
  obtains p' where "get_new_blocks p n = Inr (take (nat n) q, p')" "pool_inv R p' (drop (nat n) q)"
    "refs p' = (\<lambda>i. if Blk i \<in> set (take (nat n) q) then 1 else refs p i)"
    "hash_at p' = (\<lambda>i. if Blk i \<in> set (take (nat n) q) then None else hash_at p i)" "same_config p p'"
proof -
  let ?t = "take (nat n) q" and ?d = "drop (nat n) q"
  have q: "q = ?t @ ?d" by simp
  have t: "\<forall>b \<in> set ?t. \<exists>i. b = Blk i" by (auto elim: pool_queue_Blk[OF inv] dest: in_set_takeD)
  then obtain "is" where is': "?t = map Blk is" using Blk_list by blast
  have dist: "distinct (?t @ ?d)" using fq_repD(2)[OF pool_invD(3)[OF inv]] by simp
  then have dis: "distinct is" unfolding is' by (simp add: distinct_map)
  have memt: "Blk i \<in> set ?t \<longleftrightarrow> i \<in> set is" for i unfolding is' by auto
  obtain fq where fq: "fq_popleft_n (free_block_queue p) n = Inr (?t, fq)" "fq_rep fq ?d"
    "same_data (heap (free_block_queue p)) (heap fq)"
    using fq_popleft_n_split[of "free_block_queue p" ?t ?d] pool_invD(3)[OF inv] q n
    by (auto simp: min.absorb2)
  have on: "i \<in> set is \<Longrightarrow> in_pool p i \<and> refs p i = 0 \<and> i \<notin> R" for i
    using memt[of i] pool_invD(4)[OF inv, of i] by (auto dest: in_set_takeD)
  have rest: "Blk i \<in> set ?d \<longleftrightarrow> in_pool p i \<and> refs p i = 0 \<and> i \<notin> R \<union> set is" for i
  proof -
    have "Blk i \<in> set q \<longleftrightarrow> Blk i \<in> set ?t \<or> Blk i \<in> set ?d" by (metis q Un_iff set_append)
    moreover have "\<not> (Blk i \<in> set ?t \<and> Blk i \<in> set ?d)" using dist by (metis disjoint_iff distinct_append)
    ultimately show ?thesis using pool_invD(4)[OF inv, of i] memt[of i] by auto
  qed
  note rq = pool_inv_requeue[OF inv fq(2,3) rest]
  have "\<forall>i \<in> set is. in_pool (p\<lparr>free_block_queue := fq\<rparr>) i \<and> refs (p\<lparr>free_block_queue := fq\<rparr>) i = 0"
    "set is \<inter> R = {}"
    using on rq(2) by (auto simp: in_pool_def)
  from alloc_loop_inv[OF rq(1) dis this(2,1)] obtain p' where p': "foldE alloc_step (map Blk is) (p\<lparr>free_block_queue := fq\<rparr>) = Inr p'" "pool_inv R p' ?d"
    "refs p' = (\<lambda>i. if i \<in> set is then 1 else refs p i)"
    "hash_at p' = (\<lambda>i. if i \<in> set is then None else hash_at p i)" "same_config (p\<lparr>free_block_queue := fq\<rparr>) p'"
    unfolding rq(2,3) by blast
  show thesis
  proof (rule that)
    show "get_new_blocks p n = Inr (?t, p')"
      using fq(1) p'(1) n(2) pool_inv_num_free[OF inv] is' by (simp add: get_new_blocks_def)
    show "refs p' = (\<lambda>i. if Blk i \<in> set ?t then 1 else refs p i)"
      "hash_at p' = (\<lambda>i. if Blk i \<in> set ?t then None else hash_at p i)" using p'(3,4) memt by auto
    show "same_config p p'" using p'(5) by (simp add: same_config_def)
  qed (rule p'(2))
qed

lemma get_new_blocks_too_many:
  "pool_inv R p q \<Longrightarrow> int (length q) < n \<Longrightarrow> get_new_blocks p n = Inl ValueError"
  using pool_inv_num_free by (simp add: get_new_blocks_def)

text \<open>A reference to a block the pool lends out: the null block, or one not held back.\<close>

definition lendable :: "nat set \<Rightarrow> block_pool \<Rightarrow> nat \<Rightarrow> bool" where
  "lendable R p i \<longleftrightarrow> i = 0 \<or> (in_pool p i \<and> i \<notin> R)"

lemma touch_step_inv:
  assumes inv: "pool_inv R p q" and i: "lendable R p i"
  obtains p' where "touch_step (Blk i) p = Inr p'" "pool_inv R p' (removeAll (Blk i) q)"
    "refs p' = (refs p)(i := refs p i + 1)" "hash_at p' = hash_at p" "same_config p p'"
    "cached_block_hash_to_block p' = cached_block_hash_to_block p"
proof -
  let ?q = "removeAll (Blk i) q"
  have d: "distinct q" using fq_repD(2)[OF pool_invD(3)[OF inv]] .
  obtain p1 where p1: "(if ref_cnt (blk p (Blk i)) = 0 \<and> \<not> is_null (blk p (Blk i))
            then bindE (fq_remove (free_block_queue p) (Blk i)) (\<lambda>fq. Inr (p\<lparr>free_block_queue := fq\<rparr>))
            else Inr p) = Inr p1" "pool_inv (insert i R) p1 ?q" "refs p1 = refs p" "hash_at p1 = hash_at p" "same_config p p1"
    "cached_block_hash_to_block p1 = cached_block_hash_to_block p"
  proof (cases "refs p i = 0 \<and> i \<noteq> 0")
    case True
    then have "Blk i \<in> set q" using pool_invD(4)[OF inv] i by (auto simp: lendable_def)
    then obtain fq where fq: "fq_remove (free_block_queue p) (Blk i) = Inr fq" "fq_rep fq (remove1 (Blk i) q)"
      "same_data (heap (free_block_queue p)) (heap fq)"
      using fl.remove_keeps_order[OF pool_invD(3)[OF inv]] by blast
    have q: "remove1 (Blk i) q = ?q" using d by (simp add: distinct_remove1_removeAll)
    have "Blk j \<in> set ?q \<longleftrightarrow> in_pool p j \<and> refs p j = 0 \<and> j \<notin> insert i R" for j
      using pool_invD(4)[OF inv] by auto
    from pool_inv_requeue[OF inv fq(2,3)[unfolded q] this] fq(1) True show thesis
      using that[of "p\<lparr>free_block_queue := fq\<rparr>"] pool_invD(5)[OF inv, of i]
      by (simp add: refs_def same_config_def)
  next
    case False
    then have "Blk i \<notin> set q" using pool_invD(4)[OF inv] by (auto simp: in_pool_def)
    moreover have "pool_inv (insert i R) p q"
      using inv False unfolding pool_inv_def by (auto simp: in_pool_def)
    ultimately show thesis
      using that[of p] False pool_invD(5)[OF inv, of i] by (auto simp: refs_def)
  qed
  let ?h = "add_ref 1 (heap (free_block_queue p1)) (Blk i)"
  have ref: "ref_cnt (?h (Blk j)) = ((refs p)(i := refs p i + 1)) j" for j
    using p1(3) by (auto simp: refs_def fun_eq_iff)
  have "pool_inv R (set_heap ?h p1) ?q"
  proof (rule pool_inv_set_refs[OF p1(2)])
    show "0 < j \<Longrightarrow> 0 \<le> ref_cnt (?h (Blk j))" for j
      using ref[of j] pool_invD(7)[OF inv, of j] by (cases "j = i") auto
    show "Blk j \<in> set ?q \<longleftrightarrow> in_pool p1 j \<and> ref_cnt (?h (Blk j)) = 0 \<and> j \<notin> R" for j
      using pool_invD(4)[OF inv, of j] pool_invD(7)[OF inv, of j] ref[of j] same_config_in_pool[OF p1(5), of j]
      by (cases "j = i") (auto simp: in_pool_def)
  qed simp_all
  moreover have "touch_step (Blk i) p = Inr (log_metric (OnAccessed (bid_of p1 (Blk i))) (set_heap ?h p1))"
    unfolding touch_step_def p1(1) by simp
  moreover have "refs (set_heap ?h p1) = (refs p)(i := refs p i + 1)"
    using ref by (auto simp: refs_def fun_eq_iff)
  moreover have "hash_at (set_heap ?h p1) = hash_at p"
    using p1(4) by (auto simp: hash_at_def fun_eq_iff)
  moreover have "same_config p (log_metric m (set_heap ?h p1))" for m
    using p1(5) by (simp add: same_config_def log_metric_def set_heap_def)
  ultimately show thesis using that p1(6) by simp
qed

lemma touch_inv:
  assumes "pool_inv R p q" "\<forall>i \<in> set is. lendable R p i"
  obtains p' where "touch (map Blk is) p = Inr p'" "pool_inv R p' (filter (\<lambda>b. b \<notin> set (map Blk is)) q)"
    "refs p' = (\<lambda>i. refs p i + int (count_list is i))" "hash_at p' = hash_at p" "same_config p p'"
    "cached_block_hash_to_block p' = cached_block_hash_to_block p"
  using assms
proof (induction "is" arbitrary: p q thesis)
  case Nil
  then show ?case by (simp add: touch_def)
next
  case (Cons i "is")
  obtain p1 where p1: "touch_step (Blk i) p = Inr p1" "pool_inv R p1 (removeAll (Blk i) q)"
    "refs p1 = (refs p)(i := refs p i + 1)" "hash_at p1 = hash_at p" "same_config p p1"
    "cached_block_hash_to_block p1 = cached_block_hash_to_block p"
    using touch_step_inv[OF Cons.prems(2)] Cons.prems(3) by (metis list.set_intros(1))
  have "\<forall>j \<in> set is. lendable R p1 j"
    using Cons.prems(3) same_config_in_pool[OF p1(5)] by (simp add: lendable_def)
  from Cons.IH[OF _ p1(2) this] obtain p2 where p2: "touch (map Blk is) p1 = Inr p2"
    "pool_inv R p2 (filter (\<lambda>b. b \<notin> set (map Blk is)) (removeAll (Blk i) q))"
    "refs p2 = (\<lambda>j. refs p1 j + int (count_list is j))" "hash_at p2 = hash_at p1" "same_config p1 p2"
    "cached_block_hash_to_block p2 = cached_block_hash_to_block p1" by blast
  have "filter (\<lambda>b. b \<notin> set (map Blk is)) (removeAll (Blk i) q) = filter (\<lambda>b. b \<notin> set (map Blk (i # is))) q"
    by (auto simp: removeAll_filter_not_eq intro!: filter_cong)
  then show ?case
    using Cons.prems(1)[of p2] p1 p2 same_config_trans[OF p1(5) p2(5)] by (auto simp: touch_def fun_eq_iff)
qed

lemma fold_unref_fields:
  "block_id (fold (\<lambda>b h. add_ref (- 1) h b) bs h r) = block_id (h r)"
  "block_hash (fold (\<lambda>b h. add_ref (- 1) h b) bs h r) = block_hash (h r)"
  "is_null (fold (\<lambda>b h. add_ref (- 1) h b) bs h r) = is_null (h r)"
  "ref_cnt (fold (\<lambda>b h. add_ref (- 1) h b) bs h r) = ref_cnt (h r) - int (count_list bs r)"
  by (induction bs arbitrary: h) auto

lemma same_links_trans: "same_links h g \<Longrightarrow> same_links g k \<Longrightarrow> same_links h k"
  by (simp add: same_links_def)

lemma fold_unref_links: "same_links h (fold (\<lambda>b h. add_ref (- 1) h b) bs h)"
proof (induction bs arbitrary: h)
  case (Cons b bs)
  from Cons[of "add_ref (- 1) h b"] show ?case by (auto intro: same_links_trans[rotated])
qed simp

text \<open>
  Freeing blocks, each at most once but for the null block: the ones nobody else uses go to the
  end of the queue in the given order.
\<close>

lemma free_blocks_inv:
  assumes inv: "pool_inv R p q" and d: "distinct (filter (\<lambda>i. i \<noteq> 0) is)"
    and used: "\<forall>i \<in> set is. i = 0 \<or> (in_pool p i \<and> i \<notin> R \<and> 1 \<le> refs p i)"
  obtains p' where "free_blocks (map Blk is) p = Inr p'"
    "pool_inv R p' (q @ map Blk (filter (\<lambda>i. i \<noteq> 0 \<and> refs p i = 1) is))"
    "refs p' = (\<lambda>i. refs p i - int (count_list is i))" "hash_at p' = hash_at p" "same_config p p'"
    "cached_block_hash_to_block p' = cached_block_hash_to_block p"
proof -
  let ?f = "filter (\<lambda>i. i \<noteq> 0 \<and> refs p i = 1) is"
  define h where "h = fold (\<lambda>b h. add_ref (- 1) h b) (map Blk is) (heap (free_block_queue p))"
  have cnt: "count_list (map Blk is) (Blk i) = count_list is i" for i
    by (induction "is") auto
  have ref: "ref_cnt (h (Blk i)) = refs p i - int (count_list is i)" for i
    by (simp add: h_def fold_unref_fields refs_def cnt)
  have c1: "i \<noteq> 0 \<Longrightarrow> count_list is i = (if i \<in> set is then 1 else 0)" for i
    using count_list_distinct[OF d, of i] count_list_filter[of "\<lambda>i. i \<noteq> 0" i "is"] by simp
  have null: "is_null (h (Blk i)) \<longleftrightarrow> i = 0" for i
    using pool_invD(5)[OF inv, of i] by (simp add: h_def fold_unref_fields)
  have "filter (\<lambda>b. ref_cnt (h b) = 0 \<and> \<not> is_null (h b)) (map Blk is) = map Blk ?f"
    using c1 ref null by (auto simp: filter_map o_def intro!: arg_cong[where f = "map Blk"] filter_cong)
  moreover have q0: "pool_inv (R \<union> set ?f) (set_heap h p) q"
  proof (rule pool_inv_set_refs[OF inv])
    show "same_links (blk p) h" unfolding h_def by (rule fold_unref_links)
    show "0 < i \<Longrightarrow> 0 \<le> ref_cnt (h (Blk i))" for i
      using ref[of i] c1[of i] used pool_invD(7)[OF inv, of i] by auto
    show "Blk i \<in> set q \<longleftrightarrow> in_pool p i \<and> ref_cnt (h (Blk i)) = 0 \<and> i \<notin> R \<union> set ?f" for i
      using pool_invD(4)[OF inv, of i] ref[of i] c1[of i] used by (cases "i \<in> set is") (auto simp: in_pool_def)
  qed (simp_all add: h_def fold_unref_fields)
  moreover have "\<exists>fq. fq_append_n (free_block_queue (set_heap h p)) (map Blk ?f) = Inr fq \<and>
      fq_rep fq (q @ map Blk ?f) \<and> same_data h (heap fq)"
  proof -
    have "distinct ?f" using distinct_filter[OF d, of "\<lambda>i. refs p i = 1"] by (simp add: conj_commute)
    moreover have "set (map Blk ?f) \<inter> set q = {}" using pool_invD(4)[OF inv] by auto
    ultimately show ?thesis
      using fq_append_n_snoc[OF pool_invD(3)[OF q0], of "map Blk ?f"] by (auto simp: distinct_map inj_on_def)
  qed
  then obtain fq where fq: "fq_append_n (free_block_queue (set_heap h p)) (map Blk ?f) = Inr fq"
    "fq_rep fq (q @ map Blk ?f)" "same_data (blk (set_heap h p)) (heap fq)" by auto
  have "Blk i \<in> set (q @ map Blk ?f) \<longleftrightarrow> in_pool (set_heap h p) i \<and> refs (set_heap h p) i = 0 \<and> i \<notin> R" for i
    using pool_invD(4)[OF inv, of i] ref[of i] c1[of i] used
    by (cases "i \<in> set is") (auto simp: in_pool_def refs_def)
  note rq = pool_inv_requeue[OF q0 fq(2,3) this]
  show thesis
  proof (rule that)
    show "free_blocks (map Blk is) p = Inr ((set_heap h p)\<lparr>free_block_queue := fq\<rparr>)"
      using calculation(1) fq(1) by (simp add: free_blocks_def Let_def h_def[symmetric])
    show "refs ((set_heap h p)\<lparr>free_block_queue := fq\<rparr>) = (\<lambda>i. refs p i - int (count_list is i))"
      unfolding rq(2) using ref by (auto simp: refs_def)
    show "hash_at ((set_heap h p)\<lparr>free_block_queue := fq\<rparr>) = hash_at p"
      unfolding rq(3) by (auto simp: hash_at_def h_def fold_unref_fields)
    show "same_config p ((set_heap h p)\<lparr>free_block_queue := fq\<rparr>)" by (simp add: same_config_def set_heap_def)
  qed (use rq(1) in simp_all)
qed

lemma evict_blocks_inv:
  assumes "pool_inv R p q" "\<forall>i \<in> set ids. 0 \<le> i \<and> i < num_gpu_blocks p"
  obtains p' where "evict_blocks ids p = Inr p'" "pool_inv R p' q" "refs p' = refs p"
    "hash_at p' = (\<lambda>i. if int i \<in> set ids then None else hash_at p i)" "same_config p p'"
  using assms
proof (induction ids arbitrary: p thesis)
  case Nil
  then show ?case by (simp add: evict_blocks_def)
next
  case (Cons j ids)
  have j: "0 \<le> j" "j < num_gpu_blocks p" using Cons.prems by auto
  obtain p1 where p1: "maybe_evict_cached_block (Blk (nat j)) p = (hash_at p (nat j) \<noteq> None, p1)"
    "pool_inv R p1 q" "refs p1 = refs p" "hash_at p1 = (hash_at p)(nat j := None)" "same_config p p1"
    by (rule maybe_evict_inv[OF Cons.prems(2)])
  have "evict_step j p = Inr p1"
    using j p1(1) by (simp add: evict_step_def pool_blocks_def py_nth_nonneg)
  moreover obtain p2 where p2: "evict_blocks ids p1 = Inr p2" "pool_inv R p2 q" "refs p2 = refs p1"
    "hash_at p2 = (\<lambda>i. if int i \<in> set ids then None else hash_at p1 i)" "same_config p1 p2"
    using Cons.IH[OF _ p1(2)] Cons.prems(3) p1(5) by (auto simp: same_config_def)
  moreover have "hash_at p2 = (\<lambda>i. if int i \<in> set (j # ids) then None else hash_at p i)"
    using p2(4) p1(4) j(1) by (auto simp: fun_eq_iff)
  ultimately show ?case
    using Cons.prems(1)[of p2] p1(3) same_config_trans[OF p1(5) p2(5)] by (simp add: evict_blocks_def)
qed

lemma fold_reset_fields:
  "block_id (fold (\<lambda>b h. reset_hash h b) bs h r) = block_id (h r)"
  "ref_cnt (fold (\<lambda>b h. reset_hash h b) bs h r) = ref_cnt (h r)"
  "is_null (fold (\<lambda>b h. reset_hash h b) bs h r) = is_null (h r)"
  "block_hash (fold (\<lambda>b h. reset_hash h b) bs h r) = (if r \<in> set bs then None else block_hash (h r))"
  by (induction bs arbitrary: h) auto

lemma fold_reset_links: "same_links h (fold (\<lambda>b h. reset_hash h b) bs h)"
proof (induction bs arbitrary: h)
  case (Cons b bs)
  from Cons[of "reset_hash h b"] show ?case by (auto intro: same_links_trans[rotated])
qed simp

lemma reset_prefix_cache_inv:
  assumes inv: "pool_inv R p q"
  shows "if int (length q) = num_gpu_blocks p - 1
         then \<exists>p'. reset_prefix_cache p = (True, p') \<and> pool_inv R p' q \<and> refs p' = refs p \<and>
                   (\<forall>i. hash_at p' i = None) \<and> (\<forall>k. cached (cached_block_hash_to_block p') k = {}) \<and> same_config p p'
         else reset_prefix_cache p = (False, p)"
proof (cases "int (length q) = num_gpu_blocks p - 1")
  case False
  then show ?thesis using pool_inv_num_free[OF inv] by (simp add: reset_prefix_cache_def)
next
  case True
  define h where "h = fold (\<lambda>b h. reset_hash h b) (pool_blocks p) (heap (free_block_queue p))"
  define u where "u = set_heap h (p\<lparr>cached_block_hash_to_block := bhm_init\<rparr>)"
  define v where "v = u\<lparr>metrics_collector := map_option (\<lambda>l. l @ [OnReset]) (metrics_collector u)\<rparr>"
  have hash: "hash_at u i = None" for i
    using pool_invD(10)[OF inv, of i]
    by (cases "in_pool p i") (auto simp: u_def hash_at_def h_def fold_reset_fields pool_blocks_def in_pool_def)
  have refs: "refs u = refs p" by (auto simp: refs_def u_def h_def fold_reset_fields)
  have rep: "fq_rep (free_block_queue u) q"
    using fq_rep_same_links[OF pool_invD(3)[OF inv] fold_reset_links] by (simp add: u_def h_def)
  have bid: "bid_of u = bid_of p" "\<And>i. is_null (blk u (Blk i)) = is_null (blk p (Blk i))"
    by (auto simp: u_def h_def fold_reset_fields)
  have "cached_block_hash_to_block u = bhm_init" "num_gpu_blocks u = num_gpu_blocks p" "null_block u = null_block p"
    "in_pool u = in_pool p" by (simp_all add: u_def in_pool_def fun_eq_iff)
  moreover have "\<And>i. bid_of u (Blk i) = int i" using fun_cong[OF bid(1)] pool_invD(6)[OF inv] by simp
  ultimately have "pool_inv R u q"
    using inv rep bid refs hash unfolding pool_inv_def by simp
  then have "pool_inv R v q" by (simp add: v_def pool_inv_def refs_def hash_at_def in_pool_def)
  moreover have "reset_prefix_cache p = (True, log_event AllBlocksCleared v)"
    using True pool_inv_num_free[OF inv]
    by (simp add: reset_prefix_cache_def Let_def v_def u_def h_def pool_blocks_def)
  moreover have "same_config p (log_event AllBlocksCleared v)"
    by (simp add: same_config_def log_event_def v_def u_def set_heap_def)
  moreover have "refs v = refs p" "hash_at v = hash_at u" "cached_block_hash_to_block v = bhm_init"
    using refs by (simp_all add: v_def refs_def hash_at_def fun_eq_iff u_def)
  ultimately show ?thesis using True hash by simp
qed

lemma pool_init_inv:
  assumes "0 < n"
  obtains p where "pool_init n caching hbs events use_int metrics = Inr p"
    "pool_inv {} p (map Blk [1..<nat n])" "refs p = (\<lambda>i. 0)" "hash_at p = (\<lambda>i. None)"
    "num_gpu_blocks p = n" "enable_caching p = caching" "hash_block_size p = hbs"
proof -
  let ?bs = "map Blk [0..<nat n]"
  have bs: "?bs = Blk 0 # map Blk [1..<nat n]" using assms upt_conv_Cons[of 0 "nat n"] by simp
  have d: "distinct (Head # Tail # ?bs)" by (auto simp: distinct_map inj_on_def)
  have "prev_free_block (initial_heap r) = None" "next_free_block (initial_heap r) = None" for r
    by (cases r; simp add: initial_heap_def new_block_def)+
  note init = fq_init_rep[OF d this]
  have "fq_rep (fq_init initial_heap ?bs) (Blk 0 # map Blk [1..<nat n])" using init(1) bs by simp
  from fq_popleft_Cons[OF this] obtain fq where fq: "fq_popleft (fq_init initial_heap ?bs) = Inr (Blk 0, fq)" "fq_rep fq (map Blk [1..<nat n])"
    "same_data (heap (fq_init initial_heap ?bs)) (heap fq)"
    by (elim exE conjE)
  have data: "block_data (heap fq (Blk i)) = (int i, 0, None, False)" for i
    using same_data_trans[OF init(2) fq(3)]
    by (simp add: same_data_def initial_heap_def new_block_def block_data_def)
  define h where "h = (heap fq)(Blk 0 := (heap fq (Blk 0))\<lparr>is_null := True\<rparr>)"
  have f: "block_id (h (Blk i)) = int i" "ref_cnt (h (Blk i)) = 0" "block_hash (h (Blk i)) = None"
    "is_null (h (Blk i)) \<longleftrightarrow> i = 0" for i
    using data[of i] by (auto simp: h_def block_data_def)
  have rep: "fq_rep (fq\<lparr>heap := h\<rparr>) (map Blk [1..<nat n])"
    by (rule fq_rep_same_links[OF fq(2)]) (simp add: same_links_def h_def)
  define p where "p = \<lparr>num_gpu_blocks = n, enable_caching = caching, hash_block_size = hbs,
      free_block_queue = fq\<lparr>heap := h\<rparr>, cached_block_hash_to_block = bhm_init, null_block = Blk 0,
      enable_kv_cache_events = events, kv_event_queue = [], use_int_hashes = use_int,
      metrics_collector = (if metrics then Some [] else None)\<rparr>"
  have "pool_init n caching hbs events use_int metrics = Inr p"
    using assms fq(1) by (simp add: pool_init_def p_def h_def Let_def)
  moreover have pf: "free_block_queue p = fq\<lparr>heap := h\<rparr>" "cached_block_hash_to_block p = bhm_init"
    "null_block p = Blk 0" "num_gpu_blocks p = n" "enable_caching p = caching" "hash_block_size p = hbs"
    by (simp_all add: p_def)
  moreover have r: "refs p = (\<lambda>i. 0)" "hash_at p = (\<lambda>i. None)"
    by (simp_all add: pf refs_def hash_at_def fun_eq_iff f)
  moreover have "pool_inv {} p (map Blk [1..<nat n])"
    unfolding pool_inv_def r
  proof (intro conjI allI impI)
    show "fq_rep (free_block_queue p) (map Blk [1..<nat n])" using rep by (simp add: pf)
    show "Blk i \<in> set (map Blk [1..<nat n]) \<longleftrightarrow> in_pool p i \<and> 0 = (0::int) \<and> i \<notin> {}" for i
      by (auto simp: pf in_pool_def)
  qed (simp_all add: pf f assms)
  ultimately show thesis using that[of p] by blast
qed

end
