(* ===== verification/Pool_Caching.thy ===== *)
theory Pool_Caching
  imports Block_Pool
begin

text \<open>
  Caching the full blocks of a request (\<open>BlockPool.cache_full_blocks\<close>): every block that is
  newly full enters the index under its chained hash and its group, and the pool invariant is
  kept.
\<close>

section \<open>Caching full blocks\<close>

text \<open>The key a block is cached under.\<close>

definition group_key :: "bytes \<Rightarrow> int \<Rightarrow> bytes" where
  "group_key h g = h @ be_bytes 4 g"

lemma make_group_key: "0 \<le> g \<Longrightarrow> g < 2 ^ 32 \<Longrightarrow> make_block_hash_with_group_id h g = Inr (group_key h g)"
  by (simp add: make_block_hash_with_group_id_def to_bytes_def group_key_def)

lemma cache_step_null:
  "pool_inv R p q \<Longrightarrow> cache_step hs g (k, Blk 0) (p, nh) = Inr (p, nh)"
  using pool_invD(5)[of R p q 0] by (simp add: cache_step_def)

lemma cache_step_inv:
  assumes inv: "pool_inv R p q" and caching: "enable_caching p" and g: "0 \<le> g" "g < 2 ^ 32"
    and i: "in_pool p i" "hash_at p i = None" and k: "k < length hs"
  obtains p' where "cache_step hs g (k, Blk i) (p, nh) =
      Inr (p', nh @ [maybe_convert_block_hash (use_int_hashes p) (hs ! k)])"
    "pool_inv R p' q" "refs p' = refs p" "hash_at p' = (hash_at p)(i := Some (group_key (hs ! k) g))" "same_config p p'"
proof -
  let ?key = "group_key (hs ! k) g"
  define h where "h = (heap (free_block_queue p))(Blk i := (blk p (Blk i))\<lparr>block_hash := Some ?key\<rparr>)"
  define u where "u = set_heap h p"
  define v where "v = u\<lparr>cached_block_hash_to_block := bhm_insert (bid_of u) (cached_block_hash_to_block u) ?key (Blk i)\<rparr>"
  have bid: "bid_of u = bid_of p" by (auto simp: u_def h_def)
  have inj: "inj_on (bid_of u) (insert (Blk i) (cached (cached_block_hash_to_block p) ?key))"
    unfolding bid using pool_invD(6,9)[OF inv] by (auto simp: inj_on_def)
  note ins = bhm_insert_spec[of "bid_of u" "cached_block_hash_to_block p", OF _ inj]
  have ok: "bhm_ok (bid_of u) (cached_block_hash_to_block p)" using pool_invD(8)[OF inv] bid by simp
  have refs: "refs v = refs p" by (auto simp: v_def u_def h_def refs_def)
  have hash: "hash_at v = (hash_at p)(i := Some ?key)" by (auto simp: v_def u_def h_def hash_at_def)
  have cached: "cached (cached_block_hash_to_block v) l =
      (if l = ?key then insert (Blk i) (cached (cached_block_hash_to_block p) l) else cached (cached_block_hash_to_block p) l)" for l
    using ins(2)[OF ok] by (simp add: v_def u_def)
  have "fq_rep (free_block_queue v) q"
    using fq_rep_same_links[OF pool_invD(3)[OF inv], of h] by (simp add: v_def u_def h_def same_links_def)
  moreover have "bid_of v = bid_of p" "bhm_ok (bid_of v) (cached_block_hash_to_block v)"
    using bid ins(1)[OF ok] by (simp_all add: v_def u_def)
  moreover have "bid_of v (Blk j) = int j" "is_null (blk v (Blk j)) \<longleftrightarrow> j = 0" for j
    using pool_invD(5,6)[OF inv, of j] by (auto simp: v_def u_def h_def)
  moreover have "in_pool v = in_pool p" "num_gpu_blocks v = num_gpu_blocks p" "null_block v = null_block p"
    "enable_caching v" using caching by (simp_all add: v_def u_def in_pool_def fun_eq_iff)
  moreover have "b \<in> cached (cached_block_hash_to_block v) l \<longleftrightarrow>
      (\<exists>j. b = Blk j \<and> in_pool p j \<and> hash_at v j = Some l)" for b l
    using cached[of l] pool_invD(9)[OF inv, of b l] hash i by (cases b) (auto split: if_splits)
  ultimately have "pool_inv R v q"
    using pool_invD(1,2,4,7,10)[OF inv] hash i(1) unfolding pool_inv_def refs by auto
  moreover have "cache_step hs g (k, Blk i) (p, nh) =
      Inr (v, nh @ [maybe_convert_block_hash (use_int_hashes p) (hs ! k)])"
    using i k make_group_key[OF g] pool_invD(5)[OF inv, of i]
    by (simp add: cache_step_def hash_at_def in_pool_def py_nth_nonneg set_block_hash_def Let_def
        v_def u_def h_def)
  moreover have "same_config p v" by (simp add: same_config_def v_def u_def set_heap_def)
  ultimately show thesis using that refs hash by blast
qed

lemma cache_loop_inv:
  assumes "pool_inv R p q" "enable_caching p" "0 \<le> g" "g < 2 ^ 32" "m + length is \<le> length hs"
    and "distinct (filter (\<lambda>i. i \<noteq> 0) is)" "\<forall>i \<in> set is. i \<noteq> 0 \<longrightarrow> in_pool p i \<and> hash_at p i = None"
  obtains p' nh' where "foldE (cache_step hs g) (enumerate m (map Blk is)) (p, nh) = Inr (p', nh')"
    "pool_inv R p' q" "refs p' = refs p" "same_config p p'"
    "\<forall>i. i = 0 \<or> i \<notin> set is \<longrightarrow> hash_at p' i = hash_at p i"
    "\<forall>k. k < length is \<longrightarrow> is ! k \<noteq> 0 \<longrightarrow> hash_at p' (is ! k) = Some (group_key (hs ! (m + k)) g)"
    "length nh' = length nh + length (filter (\<lambda>i. i \<noteq> 0) is)"
  using assms
proof (induction "is" arbitrary: p nh m thesis)
  case Nil
  then show ?case by simp
next
  case (Cons i "is")
  show ?case
  proof (cases "i = 0")
    case True
    obtain p2 nh2 where p2: "foldE (cache_step hs g) (enumerate (Suc m) (map Blk is)) (p, nh) = Inr (p2, nh2)"
      "pool_inv R p2 q" "refs p2 = refs p" "same_config p p2"
      "\<forall>i. i = 0 \<or> i \<notin> set is \<longrightarrow> hash_at p2 i = hash_at p i"
      "\<forall>k. k < length is \<longrightarrow> is ! k \<noteq> 0 \<longrightarrow> hash_at p2 (is ! k) = Some (group_key (hs ! (Suc m + k)) g)"
      "length nh2 = length nh + length (filter (\<lambda>i. i \<noteq> 0) is)"
      using Cons.IH[OF _ Cons.prems(2-5), of "Suc m" nh] Cons.prems(6,7,8) True by auto
    show ?thesis
      using p2 cache_step_null[OF Cons.prems(2)] True
      by (intro Cons.prems(1)[of p2 nh2]) (auto simp: nth_Cons split: nat.splits)
  next
    case False
    then have i: "in_pool p i" "hash_at p i = None" "m < length hs" using Cons.prems by auto
    obtain p1 where p1: "cache_step hs g (m, Blk i) (p, nh) =
        Inr (p1, nh @ [maybe_convert_block_hash (use_int_hashes p) (hs ! m)])"
      "pool_inv R p1 q" "refs p1 = refs p" "hash_at p1 = (hash_at p)(i := Some (group_key (hs ! m) g))" "same_config p p1"
      by (rule cache_step_inv[OF Cons.prems(2-5) i])
    have ni: "i \<notin> set is" using Cons.prems(7) False by auto
    have "enable_caching p1" "\<forall>j \<in> set is. j \<noteq> 0 \<longrightarrow> in_pool p1 j \<and> hash_at p1 j = None"
      using Cons.prems(3,8) p1(4,5) ni same_config_in_pool[OF p1(5)] by (auto simp: same_config_def)
    then obtain p2 nh2 where p2: "foldE (cache_step hs g) (enumerate (Suc m) (map Blk is))
        (p1, nh @ [maybe_convert_block_hash (use_int_hashes p) (hs ! m)]) = Inr (p2, nh2)"
      "pool_inv R p2 q" "refs p2 = refs p1" "same_config p1 p2"
      "\<forall>i. i = 0 \<or> i \<notin> set is \<longrightarrow> hash_at p2 i = hash_at p1 i"
      "\<forall>k. k < length is \<longrightarrow> is ! k \<noteq> 0 \<longrightarrow> hash_at p2 (is ! k) = Some (group_key (hs ! (Suc m + k)) g)"
      "length nh2 = Suc (length nh) + length (filter (\<lambda>i. i \<noteq> 0) is)"
      using Cons.IH[OF _ p1(2) _ Cons.prems(4,5), of "Suc m" "nh @ [maybe_convert_block_hash (use_int_hashes p) (hs ! m)]"]
        Cons.prems(6,7) False by auto
    show ?thesis
    proof (rule Cons.prems(1)[of p2 nh2])
      show "foldE (cache_step hs g) (enumerate m (map Blk (i # is))) (p, nh) = Inr (p2, nh2)"
        using p1(1) p2(1) by simp
      show "refs p2 = refs p" using p2(3) p1(3) by simp
      show "same_config p p2" using p1(5) p2(4) by (rule same_config_trans)
      show "\<forall>j. j = 0 \<or> j \<notin> set (i # is) \<longrightarrow> hash_at p2 j = hash_at p j"
        using p2(5) p1(4) False by auto
      show "\<forall>k. k < length (i # is) \<longrightarrow> (i # is) ! k \<noteq> 0 \<longrightarrow>
          hash_at p2 ((i # is) ! k) = Some (group_key (hs ! (m + k)) g)"
        using p2(5,6) p1(4) ni by (auto simp: nth_Cons split: nat.split)
    qed (use p2(2,7) False in simp_all)
  qed
qed

section \<open>The hashes of a group\<close>

text \<open>
  The hash of block \<open>i\<close> of a group with block size \<open>bs\<close>, from the hashes at the hash block size.
\<close>

definition group_hash :: "int \<Rightarrow> int \<Rightarrow> bytes list \<Rightarrow> nat \<Rightarrow> bytes" where
  "group_hash hbs bs hs i =
     (if bs = hbs then hs ! i else concat (take (nat (bs div hbs)) (drop (i * nat (bs div hbs)) hs)))"

definition num_group_hashes :: "int \<Rightarrow> int \<Rightarrow> bytes list \<Rightarrow> nat" where
  "num_group_hashes hbs bs hs = (if bs = hbs then length hs else length hs div nat (bs div hbs))"

definition hash_list_for :: "int \<Rightarrow> int \<Rightarrow> bytes list \<Rightarrow> hash_list result" where
  "hash_list_for hbs bs hs =
     (if bs = hbs then Inr (Plain hs) else bindE (hlv_init hs hbs bs) (\<lambda>v. Inr (View v)))"

lemma mapE_all: "(\<forall>x \<in> set xs. f x = Inr (g x)) \<Longrightarrow> mapE f xs = Inr (map g xs)"
  by (induction xs) auto

lemma upto_int_upt: "[int c..int n - 1] = map int [c..<n]"
proof (induction n)
  case (Suc n)
  show ?case
  proof (cases "c \<le> n")
    case True
    then have "[int c..int n] = [int c..int n - 1] @ [int n]" by (intro upto_rec2) simp
    then show ?thesis using Suc True by simp
  qed simp
qed simp

lemma hash_list_for_spec:
  assumes "0 < hbs" "0 < bs" "bs mod hbs = 0"
  obtains hl where "hash_list_for hbs bs hs = Inr hl"
    "\<And>i. i < num_group_hashes hbs bs hs \<Longrightarrow> hl_get hl (int i) = Inr (group_hash hbs bs hs i)"
    "\<And>c. hl_slice_from hl (int c) = Inr (map (group_hash hbs bs hs) [c..<num_group_hashes hbs bs hs])"
proof (cases "bs = hbs")
  case True
  have "drop c hs = map ((!) hs) [c..<length hs]" for c
    by (rule nth_equalityI) auto
  then show thesis
    using that[of "Plain hs"] True
    by (simp add: hash_list_for_def num_group_hashes_def group_hash_def py_nth_nonneg cong: map_cong)
next
  case False
  define k where "k = nat (bs div hbs)"
  have dv: "hbs dvd bs" using assms(3) by (simp add: dvd_eq_mod_eq_0)
  then have "0 < bs div hbs" using zdvd_imp_le[OF dv assms(2)] assms(1) by (simp add: pos_imp_zdiv_pos_iff)
  then have k: "0 < k" "bs = int k * hbs" using dv by (simp_all add: k_def)
  define v where "v = \<lparr>hl_hashes = hs, scale_factor = int k\<rparr>"
  have v: "hlv_init hs hbs bs = Inr v" using assms k by (simp add: hlv_init_def v_def)
  have len: "hlv_len v = int (length hs div k)" by (simp add: hlv_len_def v_def zdiv_int)
  have get: "i < length hs div k \<Longrightarrow> hlv_get_value_at v (int i) = Inr (concat (take k (drop (i * k) hs)))" for i
    using hlv_get_value_concat[of hs hbs k v "int i"] v assms(1) k len by simp
  have "mapE (hlv_get_value_at v) [int c..int (length hs div k) - 1] =
      Inr (map (\<lambda>i. concat (take k (drop (i * k) hs))) [c..<length hs div k])" for c
    unfolding upto_int_upt
    by (subst mapE_all[where g = "\<lambda>i. concat (take k (drop (nat i * k) hs))"]) (auto simp: get o_def)
  moreover have "[slice_start (hlv_len v) (int c)..hlv_len v - 1] = [int c..int (length hs div k) - 1]" for c
    by (auto simp: slice_start_def len min_def)
  ultimately have "hl_slice_from (View v) (int c) =
      Inr (map (\<lambda>i. concat (take k (drop (i * k) hs))) [c..<length hs div k])" for c by simp
  then show thesis
    using that[of "View v"] False v get
    by (simp add: hash_list_for_def num_group_hashes_def group_hash_def k_def[symmetric])
qed

section \<open>The event and the whole operation\<close>

lemma generate_extra_keys_total:
  assumes "0 \<le> i"
  obtains ks j r' where "generate_block_hash_extra_keys sha256 r s e i = Inr (ks, j, r')" "0 \<le> j"
    "r' = r\<lparr>prompt_embeds_hashes := prompt_embeds_hashes r'\<rparr>"
proof -
  have "\<exists>ks j. gen_mm_extra_hash_keys r s e i = Inr (ks, j) \<and> 0 \<le> j"
    unfolding gen_mm_extra_hash_keys_def Let_def case_prod_beta using assms by auto
  then obtain ks j where g: "gen_mm_extra_hash_keys r s e i = Inr (ks, j)" "0 \<le> j" by auto
  obtain es r' where e: "gen_prompt_embeds_extra_hash_keys sha256 r s e = (es, r')" by fastforce
  have "\<exists>xs. generate_block_hash_extra_keys sha256 r s e i = Inr (xs, j, r')"
    using g e by (simp add: generate_block_hash_extra_keys_def Let_def)
  then obtain xs where x: "generate_block_hash_extra_keys sha256 r s e i = Inr (xs, j, r')" ..
  from that[OF x g(2) generate_extra_keys_frame[OF x]] show thesis .
qed

lemma event_extra_keys_total:
  assumes "\<forall>i \<in> set is. 0 \<le> i \<and> i < int (length blocks)" "0 \<le> mm_idx"
  obtains kss r' where "event_extra_keys sha256 p blocks bs is mm_idx r = Inr (kss, r')"
    "r' = r\<lparr>prompt_embeds_hashes := prompt_embeds_hashes r'\<rparr>"
  using assms
proof (induction "is" arbitrary: mm_idx r thesis)
  case Nil
  then show ?case by simp
next
  case (Cons i "is")
  have i: "py_nth blocks i = Inr (blocks ! nat i)" using Cons.prems by (simp add: py_nth_nonneg)
  show ?case
  proof (cases "is_null (blk p (blocks ! nat i))")
    case True
    then show ?thesis using Cons.IH[of mm_idx r] Cons.prems i by auto
  next
    case False
    obtain ks j u where g: "generate_block_hash_extra_keys sha256 r (i * bs) (i * bs + bs) mm_idx = Inr (ks, j, u)" "0 \<le> j"
      "u = r\<lparr>prompt_embeds_hashes := prompt_embeds_hashes u\<rparr>"
      using generate_extra_keys_total[OF Cons.prems(3)] by blast
    obtain kss r' where l: "event_extra_keys sha256 p blocks bs is j u = Inr (kss, r')"
      "r' = u\<lparr>prompt_embeds_hashes := prompt_embeds_hashes r'\<rparr>"
      using Cons.IH[of j u] Cons.prems(2) g(2) by auto
    have "r' = r\<lparr>prompt_embeds_hashes := prompt_embeds_hashes r'\<rparr>"
      using g(3) l(2) by (metis request.update_convs(17) request.surjective)
    then show ?thesis using Cons.prems(1) i False g(1) l(1) by auto
  qed
qed

lemma cache_full_blocks_unfold:
  "cache_full_blocks sha256 r blocks num_cached num_full bs gid p =
     (if num_full \<le> num_cached then Inr (p, r)
      else
        bindE (assertE (num_full \<le> int (length (block_hashes r)))) (\<lambda>_.
        bindE (hash_list_for (hash_block_size p) bs (block_hashes r)) (\<lambda>hl.
        bindE (hl_slice_from hl num_cached) (\<lambda>new_block_hashes.
        bindE (foldE (cache_step new_block_hashes gid)
                 (enumerate 0 (py_slice blocks num_cached num_full)) (p, [])) (\<lambda>(p1, new_hashes).
        if enable_kv_cache_events p
        then bindE (stored_event sha256 p1 r blocks num_cached num_full bs hl new_hashes)
               (\<lambda>(e, r'). Inr (log_event e p1, r'))
        else Inr (p1, r))))))"
  unfolding cache_full_blocks_def hash_list_for_def by (rule refl)

text \<open>
  The blocks of a request that become full are at the positions from \<open>a\<close> up to \<open>b\<close>; each is the
  null block or a block of the pool without hash, and no block occurs twice.
\<close>

lemma cache_full_blocks_inv:
  assumes inv: "pool_inv R p q" and caching: "enable_caching p" and g: "0 \<le> g" "g < 2 ^ 32"
    and bs: "0 < hash_block_size p" "0 < bs" "bs mod hash_block_size p = 0"
    and ab: "a \<le> b" "b \<le> length is" "b \<le> num_group_hashes (hash_block_size p) bs (block_hashes r)"
    and d: "distinct (filter (\<lambda>i. i \<noteq> 0) (drop a (take b is)))"
    and new: "\<forall>i \<in> set (drop a (take b is)). i \<noteq> 0 \<longrightarrow> in_pool p i \<and> hash_at p i = None"
  obtains p' r' where "cache_full_blocks sha256 r (map Blk is) (int a) (int b) bs g p = Inr (p', r')"
    "pool_inv R p' q" "refs p' = refs p" "same_config p p'"
    "r' = r\<lparr>prompt_embeds_hashes := prompt_embeds_hashes r'\<rparr>"
    "\<forall>i. i = 0 \<or> i \<notin> set (drop a (take b is)) \<longrightarrow> hash_at p' i = hash_at p i"
    "\<forall>k. a \<le> k \<longrightarrow> k < b \<longrightarrow> is ! k \<noteq> 0 \<longrightarrow>
       hash_at p' (is ! k) = Some (group_key (group_hash (hash_block_size p) bs (block_hashes r) k) g)"
proof (cases "a = b")
  case True
  then show thesis using that[of p r] inv by (simp add: cache_full_blocks_def)
next
  case False
  let ?hbs = "hash_block_size p" and ?hs = "block_hashes r" and ?seg = "drop a (take b is)"
  let ?n = "num_group_hashes ?hbs bs ?hs"
  obtain hl where hl: "hash_list_for ?hbs bs ?hs = Inr hl"
    "\<And>i. i < ?n \<Longrightarrow> hl_get hl (int i) = Inr (group_hash ?hbs bs ?hs i)"
    "\<And>c. hl_slice_from hl (int c) = Inr (map (group_hash ?hbs bs ?hs) [c..<?n])"
    using hash_list_for_spec[OF bs, of ?hs] by blast
  let ?nh = "map (group_hash ?hbs bs ?hs) [a..<?n]"
  have seg: "py_slice (map Blk is) (int a) (int b) = map Blk ?seg" by (simp add: drop_map take_map)
  have len: "0 + length ?seg \<le> length ?nh" using ab by simp
  obtain p1 nh where p1: "foldE (cache_step ?nh g) (enumerate 0 (map Blk ?seg)) (p, []) = Inr (p1, nh)"
    "pool_inv R p1 q" "refs p1 = refs p" "same_config p p1"
    "\<forall>i. i = 0 \<or> i \<notin> set ?seg \<longrightarrow> hash_at p1 i = hash_at p i"
    "\<forall>k. k < length ?seg \<longrightarrow> ?seg ! k \<noteq> 0 \<longrightarrow> hash_at p1 (?seg ! k) = Some (group_key (?nh ! (0 + k)) g)"
    "length nh = length ([] :: external_hash list) + length (filter (\<lambda>i. i \<noteq> 0) ?seg)"
    by (rule cache_loop_inv[OF inv caching g len d new, where nh = "[]"])
  have keys: "hash_at p1 (is ! k) = Some (group_key (group_hash ?hbs bs ?hs k) g)"
    if "a \<le> k" "k < b" "is ! k \<noteq> 0" for k
    using spec[OF p1(6), of "k - a"] that ab by simp
  have "length ?hs div m \<le> length ?hs" for m by simp
  then have enough: "int b \<le> int (length ?hs)" using ab(3) by (auto simp: num_group_hashes_def split: if_splits intro: le_trans)
  show thesis
  proof (cases "enable_kv_cache_events p")
    case False
    then show thesis
      using that[of p1 r] p1 keys hl(1,3) enough seg ab(1) \<open>a \<noteq> b\<close>
      by (simp add: cache_full_blocks_unfold)
  next
    case True
    have rng: "\<forall>i \<in> set [int a..int b - 1]. 0 \<le> i \<and> i < int (length (map Blk is))" using ab by auto
    obtain kss r' where ev: "event_extra_keys sha256 p1 (map Blk is) bs [int a..int b - 1] 0 r = Inr (kss, r')"
      "r' = r\<lparr>prompt_embeds_hashes := prompt_embeds_hashes r'\<rparr>"
      by (rule event_extra_keys_total[OF rng order_refl])
    have "\<exists>pa. (if int a = 0 then Inr None else bindE (hl_get hl (int a - 1))
            (\<lambda>h. Inr (Some (maybe_convert_block_hash (use_int_hashes p1) h)))) = (Inr pa :: external_hash option result)"
    proof (cases a)
      case (Suc a')
      then have "hl_get hl (int a - 1) = Inr (group_hash ?hbs bs ?hs a')"
        using hl(2)[of a'] ab by simp
      then show ?thesis by simp
    qed simp
    then obtain e where "stored_event sha256 p1 r (map Blk is) (int a) (int b) bs hl nh = Inr (e, r')"
      using ev(1) by (auto simp: stored_event_def)
    then have "cache_full_blocks sha256 r (map Blk is) (int a) (int b) bs g p = Inr (log_event e p1, r')"
      using p1(1) hl(1,3) enough seg ab(1) \<open>a \<noteq> b\<close> True by (simp add: cache_full_blocks_unfold)
    then show thesis
      using p1(2-5) keys ev(2) same_config_trans[OF p1(4) log_simps(8)]
      by (intro that[of "log_event e p1" r']) simp_all
  qed
qed

end
