(* ===== verification/Pool_Runs.thy ===== *)
theory Pool_Runs
  imports Pool_Caching
begin

text \<open>
  All uses of the block pool as a step relation, the invariant of every reachable pool, and the
  properties of the pool that follow: it never lends a block that is in use, it lends every free
  block, and its prefix cache answers with blocks that carry the hash asked for.
\<close>

section \<open>Runs of the pool\<close>

lemma cache_step_preserves:
  assumes inv: "pool_inv R p q" and caching: "enable_caching p" and i: "i = 0 \<or> in_pool p i"
    and step: "cache_step hs g (k, Blk i) (p, nh) = Inr (p', nh')"
  shows "pool_inv R p' q \<and> refs p' = refs p \<and> same_config p p'"
proof (cases "i = 0")
  case True
  then show ?thesis using step cache_step_null[OF inv] inv by simp
next
  case False
  then have n: "\<not> is_null (blk p (Blk i))" using pool_invD(5)[OF inv] by simp
  obtain h key where h: "hash_at p i = None" "py_nth hs (int k) = Inr h" "make_block_hash_with_group_id h g = Inr key"
    using step n by (auto simp: cache_step_def hash_at_def elim!: bindE_InrE)
  have k: "k < length hs" using py_nth_InrD[of "int k" hs h] h(2) by simp
  have g: "0 \<le> g" "g < 2 ^ 32" using h(3)
    by (auto simp: make_block_hash_with_group_id_def to_bytes_def elim!: bindE_InrE split: if_splits)
  have ip: "in_pool p i" using i False by simp
  obtain p2 where "cache_step hs g (k, Blk i) (p, nh) =
      Inr (p2, nh @ [maybe_convert_block_hash (use_int_hashes p) (hs ! k)])"
    "pool_inv R p2 q" "refs p2 = refs p" "hash_at p2 = (hash_at p)(i := Some (group_key (hs ! k) g))" "same_config p p2"
    by (rule cache_step_inv[OF inv caching g ip h(1) k])
  with step show ?thesis by simp
qed

lemma set_enumerate_blocks: "x \<in> set (enumerate n (map Blk is)) \<Longrightarrow> \<exists>k i. x = (k, Blk i) \<and> i \<in> set is"
  by (induction "is" arbitrary: n) (auto, blast)

lemma cache_full_blocks_loop:
  assumes "cache_full_blocks sha256 r blocks a b bs g p = Inr (p', r')" "\<not> b \<le> a"
  shows "\<exists>nbh p1 nh. foldE (cache_step nbh g) (enumerate 0 (py_slice blocks a b)) (p, []) = Inr (p1, nh) \<and>
           (p' = p1 \<or> (\<exists>e. p' = log_event e p1))"
proof -
  obtain hl nbh p1 nh where l: "foldE (cache_step nbh g) (enumerate 0 (py_slice blocks a b)) (p, []) = Inr (p1, nh)"
    and rest: "(if enable_kv_cache_events p
        then bindE (stored_event sha256 p1 r blocks a b bs hl nh) (\<lambda>(e, r'). Inr (log_event e p1, r'))
        else Inr (p1, r)) = Inr (p', r')"
    using assms by (auto simp: cache_full_blocks_unfold elim!: bindE_InrE)
  from rest have "p' = p1 \<or> (\<exists>e. p' = log_event e p1)"
    by (auto elim!: bindE_InrE split: if_splits)
  with l show ?thesis by blast
qed

lemma cache_full_blocks_preserves:
  assumes inv: "pool_inv R p q" and caching: "enable_caching p" and i: "\<forall>i \<in> set is. i = 0 \<or> in_pool p i"
    and res: "cache_full_blocks sha256 r (map Blk is) a b bs g p = Inr (p', r')"
  shows "pool_inv R p' q \<and> refs p' = refs p \<and> same_config p p'"
proof (cases "b \<le> a")
  case True
  then show ?thesis using res inv by (simp add: cache_full_blocks_def)
next
  case False
  define P where "P = (\<lambda>s :: block_pool \<times> external_hash list.
      pool_inv R (fst s) q \<and> refs (fst s) = refs p \<and> same_config p (fst s))"
  obtain nbh p1 nh where l: "foldE (cache_step nbh g) (enumerate 0 (py_slice (map Blk is) a b)) (p, []) = Inr (p1, nh)"
    and fin: "p' = p1 \<or> (\<exists>e. p' = log_event e p1)"
    using cache_full_blocks_loop[OF res False] by blast
  have "P (p1, nh)"
  proof (rule foldE_invariant[OF l])
    show "P (p, [])" using inv by (simp add: P_def)
    fix x s t assume x: "x \<in> set (enumerate 0 (py_slice (map Blk is) a b))" and s: "P s"
      and step: "cache_step nbh g x s = Inr t"
    have "py_slice (map Blk is) a b = map Blk (py_slice is a b)"
      by (simp add: py_slice_def slice_bound_def drop_map take_map)
    with x obtain k j where kj: "x = (k, Blk j)" "j \<in> set (py_slice is a b)" using set_enumerate_blocks by metis
    obtain u v where uv: "s = (u, v)" by fastforce
    have u: "pool_inv R u q" "refs u = refs p" "same_config p u" using s uv by (simp_all add: P_def)
    have "j \<in> set is" using kj(2) set_py_slice_subset[of "is" a b] by blast
    then have j: "j = 0 \<or> in_pool u j" using i same_config_in_pool[OF u(3)] by simp
    have c: "enable_caching u" using caching u(3) by (simp add: same_config_def)
    have "cache_step nbh g (k, Blk j) (u, v) = Inr (fst t, snd t)" using step kj(1) uv by simp
    from cache_step_preserves[OF u(1) c j this] u(2) same_config_trans[OF u(3)]
    show "P t" by (simp add: P_def)
  qed
  then have P1: "pool_inv R p1 q" "refs p1 = refs p" "same_config p p1" by (simp_all add: P_def)
  from fin show ?thesis
  proof (elim disjE exE)
    fix e assume "p' = log_event e p1"
    then show ?thesis using P1 same_config_trans[OF P1(3) log_simps(8)] by simp
  qed (use P1 in simp)
qed

text \<open>
  All ways a pool is used: made, asked for blocks, given references to count, given references
  back, told to cache, to evict and to reset. The function counts the references each block's
  users hold; a user gives back only references it holds, none twice in one call.
\<close>

inductive pool_run :: "block_pool \<Rightarrow> (nat \<Rightarrow> nat) \<Rightarrow> bool" where
  init: "pool_init n caching hbs events use_int metrics = Inr p \<Longrightarrow> pool_run p (\<lambda>i. 0)"
| alloc: "pool_run p held \<Longrightarrow> get_new_blocks p n = Inr (bs, p') \<Longrightarrow> 0 \<le> n \<Longrightarrow>
     pool_run p' (\<lambda>i. held i + count_list bs (Blk i))"
| touch: "pool_run p held \<Longrightarrow> touch (map Blk is) p = Inr p' \<Longrightarrow> \<forall>i \<in> set is. i = 0 \<or> in_pool p i \<Longrightarrow>
     pool_run p' (\<lambda>i. held i + count_list is i)"
| free: "pool_run p held \<Longrightarrow> free_blocks (map Blk is) p = Inr p' \<Longrightarrow> distinct (filter (\<lambda>i. i \<noteq> 0) is) \<Longrightarrow>
     \<forall>i \<in> set is. i = 0 \<or> 1 \<le> held i \<Longrightarrow> pool_run p' (\<lambda>i. held i - count_list is i)"
| cache: "pool_run p held \<Longrightarrow> cache_full_blocks sha256 r (map Blk is) a b bs g p = Inr (p', r') \<Longrightarrow>
     enable_caching p \<Longrightarrow> \<forall>i \<in> set is. i = 0 \<or> in_pool p i \<Longrightarrow> pool_run p' held"
| evict: "pool_run p held \<Longrightarrow> evict_blocks ids p = Inr p' \<Longrightarrow> \<forall>i \<in> set ids. 0 \<le> i \<Longrightarrow> pool_run p' held"
| reset: "pool_run p held \<Longrightarrow> reset_prefix_cache p = (b, p') \<Longrightarrow> pool_run p' held"
| events: "pool_run p held \<Longrightarrow> pool_take_events p = (es, p') \<Longrightarrow> pool_run p' held"

definition run_inv :: "block_pool \<Rightarrow> (nat \<Rightarrow> nat) \<Rightarrow> bref list \<Rightarrow> bool" where
  "run_inv p held q \<longleftrightarrow> pool_inv {} p q \<and> (\<forall>i > 0. refs p i = int (held i)) \<and>
     (\<forall>i > 0. \<not> in_pool p i \<longrightarrow> held i = 0)"

lemma run_invD:
  assumes "run_inv p held q"
  shows "pool_inv {} p q" "0 < i \<Longrightarrow> refs p i = int (held i)" "0 < i \<Longrightarrow> \<not> in_pool p i \<Longrightarrow> held i = 0"
  using assms by (simp_all add: run_inv_def)

lemma take_events_inv:
  assumes "pool_take_events p = (es, p')"
  shows "pool_inv R p' q = pool_inv R p q" "refs p' = refs p" "num_gpu_blocks p' = num_gpu_blocks p" "same_config p p'"
  using assms by (auto simp: pool_take_events_def pool_inv_def in_pool_def refs_def hash_at_def same_config_def
      fun_eq_iff split: if_splits)

lemma evict_blocks_range:
  "evict_blocks ids p = Inr p' \<Longrightarrow> pool_inv R p q \<Longrightarrow> \<forall>i \<in> set ids. 0 \<le> i \<Longrightarrow> \<forall>i \<in> set ids. i < num_gpu_blocks p"
proof (induction ids arbitrary: p)
  case (Cons j ids)
  from Cons.prems(1) obtain p1 where p1: "evict_step j p = Inr p1" "evict_blocks ids p1 = Inr p'"
    by (auto simp: evict_blocks_def elim!: bindE_InrE)
  then have j: "j < num_gpu_blocks p" using Cons.prems(3)
    by (auto simp: evict_step_def pool_blocks_def elim!: bindE_InrE split: if_splits)
  obtain p2 where p2: "evict_blocks [j] p = Inr p2" "pool_inv R p2 q" "same_config p p2"
    using evict_blocks_inv[OF Cons.prems(2), of "[j]"] j Cons.prems(3) by auto
  then have "p2 = p1" using p1(1) by (auto simp: evict_blocks_def)
  with Cons.IH[OF p1(2)] p2 Cons.prems(3) j show ?case by (auto simp: same_config_def)
qed simp

lemma pool_run_inv: "pool_run p held \<Longrightarrow> \<exists>q. run_inv p held q"
proof (induction rule: pool_run.induct)
  case (init n caching hbs events use_int metrics p)
  then have n: "0 < n" by (auto simp: pool_init_def elim!: bindE_InrE)
  obtain p1 where p1: "pool_init n caching hbs events use_int metrics = Inr p1"
    "pool_inv {} p1 (map Blk [1..<nat n])" "refs p1 = (\<lambda>i. 0)" "hash_at p1 = (\<lambda>i. None)"
    "num_gpu_blocks p1 = n" "enable_caching p1 = caching" "hash_block_size p1 = hbs"
    by (rule pool_init_inv[OF n])
  then have "run_inv p1 (\<lambda>i. 0) (map Blk [1..<nat n])" by (simp add: run_inv_def)
  then show ?case using p1(1) init by auto
next
  case (alloc p held n bs p')
  then obtain q where q: "run_inv p held q" by blast
  have inv: "pool_inv {} p q" using q by (simp add: run_inv_def)
  have le: "n \<le> int (length q)"
    using alloc.hyps(2) get_new_blocks_too_many[OF inv, of n] by (cases "int (length q) < n") simp_all
  obtain p1 where p1: "get_new_blocks p n = Inr (take (nat n) q, p1)" "pool_inv {} p1 (drop (nat n) q)"
    "refs p1 = (\<lambda>i. if Blk i \<in> set (take (nat n) q) then 1 else refs p i)"
    "hash_at p1 = (\<lambda>i. if Blk i \<in> set (take (nat n) q) then None else hash_at p i)" "same_config p p1"
    by (rule get_new_blocks_inv[OF inv alloc.hyps(3) le])
  have p': "p1 = p'" "bs = take (nat n) q" using p1(1) alloc.hyps(2) by auto
  have fresh: "in_pool p i" "refs p i = 0" if "Blk i \<in> set bs" for i
    using that p'(2) pool_invD(4)[OF inv, of i] by (auto dest!: in_set_takeD)
  have unheld: "held i = 0" if "Blk i \<in> set bs" for i
    using fresh[OF that] q by (auto simp: run_inv_def in_pool_def)
  have "distinct bs" using p'(2) fq_repD(2)[OF pool_invD(3)[OF inv]] by simp
  then have "count_list bs (Blk i) = (if Blk i \<in> set bs then 1 else 0)" for i
    by (rule count_list_distinct)
  then have "run_inv p' (\<lambda>i. held i + count_list bs (Blk i)) (drop (nat n) q)"
    using p1(2,3) p' q fresh unheld same_config_in_pool[OF p1(5)] by (auto simp: run_inv_def)
  then show ?case by blast
next
  case (touch p held "is" p')
  then obtain q where q: "run_inv p held q" by blast
  have l: "\<forall>i \<in> set is. lendable {} p i" using touch.hyps(3) by (simp add: lendable_def)
  have inv: "pool_inv {} p q" using q by (simp add: run_inv_def)
  obtain p1 where p1: "touch (map Blk is) p = Inr p1" "pool_inv {} p1 (filter (\<lambda>b. b \<notin> set (map Blk is)) q)"
    "refs p1 = (\<lambda>i. refs p i + int (count_list is i))" "hash_at p1 = hash_at p" "same_config p p1"
    "cached_block_hash_to_block p1 = cached_block_hash_to_block p"
    by (rule touch_inv[OF inv l])
  have "i > 0 \<Longrightarrow> \<not> in_pool p i \<Longrightarrow> count_list is i = 0" for i
    using touch.hyps(3) by (auto simp: count_list_zero_iff)
  then show ?case
    using p1(1-3) q touch.hyps(2) same_config_in_pool[OF p1(5)] by (auto simp: run_inv_def)
next
  case (free p held "is" p')
  then obtain q where q: "run_inv p held q" by blast
  have used: "\<forall>i \<in> set is. i = 0 \<or> (in_pool p i \<and> i \<notin> {} \<and> 1 \<le> refs p i)"
  proof
    fix i assume i: "i \<in> set is"
    show "i = 0 \<or> (in_pool p i \<and> i \<notin> {} \<and> 1 \<le> refs p i)"
    proof (cases "i = 0")
      case False
      then have "1 \<le> held i" using free.hyps(4) i by auto
      moreover from this have "in_pool p i" using run_invD(3)[OF q, of i] False by (cases "in_pool p i") auto
      ultimately show ?thesis using run_invD(2)[OF q, of i] False by auto
    qed simp
  qed
  have inv: "pool_inv {} p q" using q by (simp add: run_inv_def)
  obtain p1 where p1: "free_blocks (map Blk is) p = Inr p1"
    "pool_inv {} p1 (q @ map Blk (filter (\<lambda>i. i \<noteq> 0 \<and> refs p i = 1) is))"
    "refs p1 = (\<lambda>i. refs p i - int (count_list is i))" "hash_at p1 = hash_at p" "same_config p p1"
    "cached_block_hash_to_block p1 = cached_block_hash_to_block p"
    by (rule free_blocks_inv[OF inv free.hyps(3) used])
  have le: "i > 0 \<Longrightarrow> count_list is i \<le> held i" for i
    using count_list_distinct[OF free.hyps(3), of i] count_list_filter[of "\<lambda>i. i \<noteq> 0" i "is"] free.hyps(4)
    by (auto split: if_splits)
  have "run_inv p1 (\<lambda>i. held i - count_list is i) (q @ map Blk (filter (\<lambda>i. i \<noteq> 0 \<and> refs p i = 1) is))"
    using p1(2,3) q le same_config_in_pool[OF p1(5)] by (auto simp: run_inv_def of_nat_diff)
  then show ?case using p1(1) free.hyps(2) by auto
next
  case (cache p held sha256 r "is" a b bs g p' r')
  then obtain q where q: "run_inv p held q" by blast
  then have "pool_inv {} p' q \<and> refs p' = refs p \<and> same_config p p'"
    by (intro cache_full_blocks_preserves[OF _ cache.hyps(3,4,2)]) (simp add: run_inv_def)
  then have "run_inv p' held q" using q same_config_in_pool[of p p'] by (simp add: run_inv_def)
  then show ?case ..
next
  case (evict p held ids p')
  then obtain q where q: "run_inv p held q" by blast
  then have inv: "pool_inv {} p q" by (simp add: run_inv_def)
  have rng: "\<forall>i \<in> set ids. 0 \<le> i \<and> i < num_gpu_blocks p"
    using evict_blocks_range[OF evict.hyps(2) inv evict.hyps(3)] evict.hyps(3) by blast
  obtain p1 where p1: "evict_blocks ids p = Inr p1" "pool_inv {} p1 q" "refs p1 = refs p"
    "hash_at p1 = (\<lambda>i. if int i \<in> set ids then None else hash_at p i)" "same_config p p1"
    by (rule evict_blocks_inv[OF inv rng])
  then have "run_inv p1 held q" using q same_config_in_pool[OF p1(5)] by (simp add: run_inv_def)
  then show ?case using p1(1) evict.hyps(2) by auto
next
  case (reset p held b p')
  then obtain q where q: "run_inv p held q" by blast
  then have "pool_inv {} p' q \<and> refs p' = refs p \<and> same_config p p'"
    using reset_prefix_cache_inv[of "{}" p q] reset.hyps(2) by (auto simp: run_inv_def split: if_splits)
  then have "run_inv p' held q" using q same_config_in_pool[of p p'] by (simp add: run_inv_def)
  then show ?case ..
next
  case (events p held es p')
  then obtain q where "run_inv p held q" by blast
  then have "run_inv p' held q" using take_events_inv[OF events.hyps(2)] by (simp add: run_inv_def in_pool_def)
  then show ?case ..
qed

section \<open>Consequences\<close>

lemma get_cached_block_spec:
  assumes inv: "pool_inv R p q" and "\<forall>g \<in> set gs. 0 \<le> g \<and> g < 2 ^ 32"
  shows "case get_cached_block p h gs of
      Inl e \<Rightarrow> False
    | Inr None \<Rightarrow> \<exists>g \<in> set gs. \<forall>i. hash_at p i \<noteq> Some (group_key h g)
    | Inr (Some bs) \<Rightarrow> list_all2 (\<lambda>b g. \<exists>i. b = Blk i \<and> in_pool p i \<and> hash_at p i = Some (group_key h g)) bs gs"
  using assms(2)
proof (induction gs)
  case (Cons g gs)
  let ?c = "cached_block_hash_to_block p"
  have g: "make_block_hash_with_group_id h g = Inr (group_key h g)" using Cons.prems by (simp add: make_group_key)
  note get = get_one_block_spec[OF pool_invD(8)[OF inv], of "group_key h g"]
  note mem = pool_invD(9)[OF inv, of _ "group_key h g"]
  show ?case
  proof (cases "get_one_block ?c (group_key h g)")
    case (Inl e) then show ?thesis using get by simp
  next
    case (Inr b)
    show ?thesis
    proof (cases b)
      case None
      then have "hash_at p i \<noteq> Some (group_key h g)" for i
        using get Inr mem[of "Blk i"] pool_invD(10)[OF inv, of i] by auto
      then show ?thesis using None Inr g by simp
    next
      case (Some x)
      then have x: "\<exists>i. x = Blk i \<and> in_pool p i \<and> hash_at p i = Some (group_key h g)"
        using get Inr mem[of x] by simp
      show ?thesis
        using Cons Some Inr g x by (auto split: sum.splits option.splits)
    qed
  qed
qed simp

lemma card_free:
  assumes "run_inv p held q"
  shows "get_num_free_blocks p = int (card {i. in_pool p i \<and> held i = 0})"
proof -
  note inv = run_invD(1)[OF assms]
  have "Blk i \<in> set q \<longleftrightarrow> in_pool p i \<and> held i = 0" for i
    using pool_invD(4)[OF inv, of i] run_invD(2)[OF assms, of i] by (auto simp: in_pool_def)
  moreover have "set q \<subseteq> range Blk" by (auto elim: pool_queue_Blk[OF inv])
  ultimately have "set q = Blk ` {i. in_pool p i \<and> held i = 0}" by auto
  then have "card (set q) = card {i. in_pool p i \<and> held i = 0}"
    by (simp add: card_image inj_on_def)
  then show ?thesis
    using pool_inv_num_free[OF inv] distinct_card[OF fq_repD(2)[OF pool_invD(3)[OF inv]]] by simp
qed

lemma finite_in_pool: "finite {i. in_pool p i \<and> P i}"
  by (rule finite_subset[of _ "{..<nat (num_gpu_blocks p)}"]) (auto simp: in_pool_def)

lemma card_in_pool: "0 < num_gpu_blocks p \<Longrightarrow> int (card {i. in_pool p i}) = num_gpu_blocks p - 1"
proof -
  assume "0 < num_gpu_blocks p"
  moreover have "{i. in_pool p i} = {1..<nat (num_gpu_blocks p)}" by (auto simp: in_pool_def)
  ultimately show ?thesis by simp
qed

section \<open>Properties of the pool\<close>

text \<open>
  C16: in every run of the pool the free queue, the reference counts and the prefix cache index
  stay consistent: the queue is a well-formed list that holds exactly the blocks no user holds,
  reference counts are the numbers of references held, the null block is never queued and
  never cached, and a block is in the index under a key exactly when it carries that hash.
\<close>

theorem pool_invariant:
  assumes "pool_run p held"
  shows "\<exists>q. fq_rep (free_block_queue p) q \<and>
    (\<forall>i. Blk i \<in> set q \<longleftrightarrow> in_pool p i \<and> held i = 0) \<and>
    (\<forall>i > 0. refs p i = int (held i)) \<and> Blk 0 \<notin> set q \<and>
    (\<forall>key b. b \<in> cached (cached_block_hash_to_block p) key \<longleftrightarrow>
       (\<exists>i. b = Blk i \<and> in_pool p i \<and> hash_at p i = Some key))"
proof -
  obtain q where q: "run_inv p held q" using pool_run_inv[OF assms] by blast
  note inv = run_invD(1)[OF q]
  have "Blk i \<in> set q \<longleftrightarrow> in_pool p i \<and> held i = 0" for i
    using pool_invD(4)[OF inv, of i] run_invD(2)[OF q, of i] by (auto simp: in_pool_def)
  moreover have "Blk 0 \<notin> set q" using pool_invD(4)[OF inv, of 0] by (simp add: in_pool_def)
  ultimately show ?thesis
    using pool_invD(3)[OF inv] run_invD(2)[OF q] pool_invD(9)[OF inv] by blast
qed

theorem pool_invariant_witness:
  "\<exists>p. pool_init 4 True 16 False False False = Inr p \<and> (\<exists>q. fq_rep (free_block_queue p) q \<and> Blk 3 \<in> set q)"
proof -
  have "0 < (4::int)" by simp
  then obtain p where p: "pool_init 4 True 16 False False False = Inr p" "num_gpu_blocks p = 4"
    by (rule pool_init_inv)
  have "in_pool p 3" using p(2) by (simp add: in_pool_def)
  with pool_invariant[OF pool_run.init[OF p(1)]] p(1) show ?thesis by blast
qed

text \<open>
  C10: the pool never lends a block that is in use. Whatever was done before, the blocks that
  \<open>get_new_blocks\<close> returns are pairwise different blocks of the pool that nobody holds a
  reference to; afterwards each has exactly one reference and no hash.
\<close>

theorem pool_never_lends_used_block:
  assumes "pool_run p held" "get_new_blocks p n = Inr (bs, p')" "0 \<le> n"
  shows "int (length bs) = n \<and> distinct bs \<and>
    (\<forall>b \<in> set bs. \<exists>i. b = Blk i \<and> in_pool p i \<and> held i = 0 \<and> refs p' i = 1 \<and> hash_at p' i = None)"
proof -
  obtain q where q: "run_inv p held q" using pool_run_inv[OF assms(1)] by blast
  note inv = run_invD(1)[OF q]
  have le: "n \<le> int (length q)"
    using assms(2) get_new_blocks_too_many[OF inv, of n] by (cases "int (length q) < n") simp_all
  obtain p1 where p1: "get_new_blocks p n = Inr (take (nat n) q, p1)" "pool_inv {} p1 (drop (nat n) q)"
    "refs p1 = (\<lambda>i. if Blk i \<in> set (take (nat n) q) then 1 else refs p i)"
    "hash_at p1 = (\<lambda>i. if Blk i \<in> set (take (nat n) q) then None else hash_at p i)" "same_config p p1"
    by (rule get_new_blocks_inv[OF inv assms(3) le])
  have bs: "bs = take (nat n) q" "p1 = p'" using p1(1) assms(2) by auto
  have "\<exists>i. b = Blk i \<and> in_pool p i \<and> held i = 0 \<and> refs p' i = 1 \<and> hash_at p' i = None" if b: "b \<in> set bs" for b
  proof -
    obtain i where i: "b = Blk i" "in_pool p i" "refs p i = 0"
      using b bs(1) by (auto elim: pool_queue_Blk[OF inv] dest: in_set_takeD)
    then have "held i = 0" using run_invD(2)[OF q, of i] by (simp add: in_pool_def)
    then show ?thesis using i b bs p1(3,4) by auto
  qed
  then show ?thesis using bs le assms(3) fq_repD(2)[OF pool_invD(3)[OF inv]] by (auto simp: min_def)
qed

theorem pool_never_lends_used_block_witness:
  "\<exists>p bs p'. pool_init 4 True 16 False False False = Inr p \<and> get_new_blocks p 2 = Inr (bs, p') \<and>
     length bs = 2 \<and> distinct bs"
proof -
  have n: "0 < (4::int)" by simp
  obtain p where p: "pool_init 4 True 16 False False False = Inr p" "pool_inv {} p (map Blk [1..<nat 4])"
    using pool_init_inv[OF n] by blast
  have "0 \<le> (2::int)" "2 \<le> int (length (map Blk [1..<nat 4]))" by simp_all
  from get_new_blocks_inv[OF p(2) this] obtain bs p' where b: "get_new_blocks p 2 = Inr (bs, p')" by blast
  from pool_never_lends_used_block[OF pool_run.init[OF p(1)] b] p(1) b show ?thesis by auto
qed

text \<open>
  C19: allocation is complete. A request for \<open>n\<close> blocks succeeds when at least \<open>n\<close> blocks of the
  pool are held by nobody, and raises ValueError otherwise; the number of free blocks the pool
  reports is the number of blocks held by nobody.
\<close>

theorem pool_allocation_complete:
  assumes "pool_run p held" "0 \<le> n"
  shows "get_num_free_blocks p = int (card {i. in_pool p i \<and> held i = 0}) \<and>
    (if n \<le> int (card {i. in_pool p i \<and> held i = 0})
     then \<exists>bs p'. get_new_blocks p n = Inr (bs, p')
     else get_new_blocks p n = Inl ValueError)"
proof -
  obtain q where q: "run_inv p held q" using pool_run_inv[OF assms(1)] by blast
  note inv = run_invD(1)[OF q]
  have c: "get_num_free_blocks p = int (card {i. in_pool p i \<and> held i = 0})" using card_free[OF q] .
  then have len: "int (length q) = int (card {i. in_pool p i \<and> held i = 0})" using pool_inv_num_free[OF inv] by simp
  show ?thesis
  proof (cases "n \<le> int (length q)")
    case True
    then obtain p' where "get_new_blocks p n = Inr (take (nat n) q, p')"
      using get_new_blocks_inv[OF inv assms(2)] by blast
    then show ?thesis using c len True by auto
  next
    case False
    then show ?thesis using get_new_blocks_too_many[OF inv] c len by simp
  qed
qed

theorem pool_allocation_complete_witness:
  "\<exists>p. pool_init 4 True 16 False False False = Inr p \<and> get_new_blocks p 4 = Inl ValueError"
proof -
  have n: "0 < (4::int)" by simp
  obtain p where p: "pool_init 4 True 16 False False False = Inr p" "num_gpu_blocks p = 4"
    by (rule pool_init_inv[OF n])
  have "{i. in_pool p i} = {1, 2, 3}" using p(2) by (auto simp: in_pool_def)
  with pool_allocation_complete[OF pool_run.init[OF p(1)], of 4] p(1) show ?thesis by simp
qed

text \<open>
  C18: a prefix cache lookup answers with the right blocks. It never raises; it returns one block
  per group asked for, each a block of the pool that carries the given hash for that group; and
  it misses only when for some group no block of the pool carries the hash.
\<close>

theorem cache_lookup_sound_complete:
  assumes "pool_run p held" "\<forall>g \<in> set gs. 0 \<le> g \<and> g < 2 ^ 32"
  shows "case get_cached_block p h gs of
      Inl e \<Rightarrow> False
    | Inr None \<Rightarrow> \<exists>g \<in> set gs. \<forall>i. hash_at p i \<noteq> Some (group_key h g)
    | Inr (Some bs) \<Rightarrow> list_all2 (\<lambda>b g. \<exists>i. b = Blk i \<and> in_pool p i \<and> hash_at p i = Some (group_key h g)) bs gs"
proof -
  obtain q where "run_inv p held q" using pool_run_inv[OF assms(1)] by blast
  from get_cached_block_spec[OF run_invD(1)[OF this] assms(2)] show ?thesis .
qed

theorem cache_lookup_sound_complete_witness:
  "\<exists>p. pool_init 4 True 16 False False False = Inr p \<and> get_cached_block p [5] [0] = Inr None"
proof -
  have n: "0 < (4::int)" by simp
  obtain p where p: "pool_init 4 True 16 False False False = Inr p" "hash_at p = (\<lambda>i. None)"
    by (rule pool_init_inv[OF n])
  have "case get_cached_block p [5] [0] of Inl e \<Rightarrow> False
      | Inr None \<Rightarrow> \<exists>g \<in> set [0]. \<forall>i. hash_at p i \<noteq> Some (group_key [5] g)
      | Inr (Some bs) \<Rightarrow> list_all2 (\<lambda>b g. \<exists>i. b = Blk i \<and> in_pool p i \<and> hash_at p i = Some (group_key [5] g)) bs [0]"
    using cache_lookup_sound_complete[OF pool_run.init[OF p(1)], of "[0]" "[5]"] by simp
  then show ?thesis using p by (auto split: sum.splits option.splits simp: list_all2_Cons2)
qed

text \<open>
  C20: the prefix cache can be reset exactly when no block is in use. When some block is held the
  call returns False and changes nothing; otherwise it returns True, every later lookup misses,
  and the free blocks are the same.
\<close>

theorem reset_prefix_cache_correct:
  assumes "pool_run p held"
  shows "if \<forall>i. in_pool p i \<longrightarrow> held i = 0
         then \<exists>p'. reset_prefix_cache p = (True, p') \<and>
                   (\<forall>h g. 0 \<le> g \<and> g < 2 ^ 32 \<longrightarrow> get_cached_block p' h [g] = Inr None) \<and>
                   get_num_free_blocks p' = num_gpu_blocks p - 1
         else reset_prefix_cache p = (False, p)"
proof -
  obtain q where q: "run_inv p held q" using pool_run_inv[OF assms(1)] by blast
  note inv = run_invD(1)[OF q]
  have len: "int (length q) = int (card {i. in_pool p i \<and> held i = 0})"
    using card_free[OF q] pool_inv_num_free[OF inv] by simp
  note all = card_in_pool[OF pool_invD(1)[OF inv]]
  have iff: "int (length q) = num_gpu_blocks p - 1 \<longleftrightarrow> (\<forall>i. in_pool p i \<longrightarrow> held i = 0)"
  proof
    assume "int (length q) = num_gpu_blocks p - 1"
    then have "card {i. in_pool p i \<and> held i = 0} = card {i. in_pool p i}" using len all by simp
    then have "{i. in_pool p i \<and> held i = 0} = {i. in_pool p i}"
      using finite_in_pool[of p "\<lambda>i. True"] by (intro card_subset_eq) auto
    then show "\<forall>i. in_pool p i \<longrightarrow> held i = 0" by blast
  next
    assume "\<forall>i. in_pool p i \<longrightarrow> held i = 0"
    then have "{i. in_pool p i \<and> held i = 0} = {i. in_pool p i}" by auto
    then show "int (length q) = num_gpu_blocks p - 1" using len all by simp
  qed
  show ?thesis
  proof (cases "int (length q) = num_gpu_blocks p - 1")
    case True
    then obtain p' where p': "reset_prefix_cache p = (True, p')" "pool_inv {} p' q" "\<forall>i. hash_at p' i = None"
      using reset_prefix_cache_inv[OF inv] by auto
    have "get_cached_block p' h [g] = Inr None" if "0 \<le> g" "g < 2 ^ 32" for h g
      using get_cached_block_spec[OF p'(2), of "[g]" h] that p'(3)
      by (auto split: sum.splits option.splits simp: list_all2_Cons2)
    then show ?thesis using p' True iff pool_inv_num_free[OF p'(2)] by auto
  next
    case False
    then show ?thesis using reset_prefix_cache_inv[OF inv] iff by auto
  qed
qed

theorem reset_prefix_cache_correct_witness:
  "\<exists>p p'. pool_init 4 True 16 False False False = Inr p \<and> reset_prefix_cache p = (True, p') \<and>
     get_cached_block p' [5] [0] = Inr None"
proof -
  have n: "0 < (4::int)" by simp
  obtain p where p: "pool_init 4 True 16 False False False = Inr p" by (rule pool_init_inv[OF n])
  from reset_prefix_cache_correct[OF pool_run.init[OF p]] p show ?thesis by auto
qed

text \<open>
  C21: freed blocks are evicted last. Giving back references, none twice, appends to the free
  queue exactly the blocks whose last reference was given back, in the given order, after the
  blocks that were free before.
\<close>

theorem free_blocks_eviction_order:
  assumes "pool_run p held" "fq_get_all_free_blocks (free_block_queue p) = Inr (Some q)"
    and "distinct (filter (\<lambda>i. i \<noteq> 0) is)" "\<forall>i \<in> set is. i = 0 \<or> 1 \<le> held i"
  shows "\<exists>p'. free_blocks (map Blk is) p = Inr p' \<and>
    fq_get_all_free_blocks (free_block_queue p') =
      Inr (Some (q @ map Blk (filter (\<lambda>i. i \<noteq> 0 \<and> held i = 1) is)))"
proof -
  obtain q0 where q0: "run_inv p held q0" using pool_run_inv[OF assms(1)] by blast
  note inv = run_invD(1)[OF q0]
  have "q0 = q" using fq_get_all_free_blocks_rep[OF pool_invD(3)[OF inv]] assms(2) by simp
  have used: "\<forall>i \<in> set is. i = 0 \<or> (in_pool p i \<and> i \<notin> {} \<and> 1 \<le> refs p i)"
  proof
    fix i assume i: "i \<in> set is"
    show "i = 0 \<or> (in_pool p i \<and> i \<notin> {} \<and> 1 \<le> refs p i)"
    proof (cases "i = 0")
      case False
      then have "1 \<le> held i" using assms(4) i by auto
      moreover from this have "in_pool p i" using run_invD(3)[OF q0, of i] False by (cases "in_pool p i") auto
      ultimately show ?thesis using run_invD(2)[OF q0, of i] False by auto
    qed simp
  qed
  obtain p1 where p1: "free_blocks (map Blk is) p = Inr p1"
    "pool_inv {} p1 (q0 @ map Blk (filter (\<lambda>i. i \<noteq> 0 \<and> refs p i = 1) is))"
    "refs p1 = (\<lambda>i. refs p i - int (count_list is i))" "hash_at p1 = hash_at p" "same_config p p1"
    "cached_block_hash_to_block p1 = cached_block_hash_to_block p"
    by (rule free_blocks_inv[OF inv assms(3) used])
  have "filter (\<lambda>i. i \<noteq> 0 \<and> refs p i = 1) is = filter (\<lambda>i. i \<noteq> 0 \<and> held i = 1) is"
    using run_invD(2)[OF q0] by (auto intro!: filter_cong)
  then show ?thesis
    using p1(1) fq_get_all_free_blocks_rep[OF pool_invD(3)[OF p1(2)]] \<open>q0 = q\<close> by simp
qed

theorem free_blocks_eviction_order_witness:
  "\<exists>p p1 p2. pool_init 3 True 16 False False False = Inr p \<and> get_new_blocks p 1 = Inr ([Blk 1], p1) \<and>
     free_blocks [Blk 1] p1 = Inr p2 \<and> fq_get_all_free_blocks (free_block_queue p2) = Inr (Some [Blk 2, Blk 1])"
proof -
  have n: "0 < (3::int)" and e: "map Blk [1..<nat 3] = [Blk 1, Blk 2]" by (simp_all add: numeral_eq_Suc)
  obtain p where p: "pool_init 3 True 16 False False False = Inr p" "pool_inv {} p (map Blk [1..<nat 3])"
    by (rule pool_init_inv[OF n])
  have "0 \<le> (1::int)" "1 \<le> int (length (map Blk [1..<nat 3]))" by simp_all
  then obtain p1 where p1: "get_new_blocks p 1 = Inr (take (nat 1) (map Blk [1..<nat 3]), p1)"
    "pool_inv {} p1 (drop (nat 1) (map Blk [1..<nat 3]))"
    by (rule get_new_blocks_inv[OF p(2)])
  have g: "get_new_blocks p 1 = Inr ([Blk 1], p1)" and i: "pool_inv {} p1 [Blk 2]" using p1 e by simp_all
  have f: "fq_get_all_free_blocks (free_block_queue p1) = Inr (Some [Blk 2])"
    using fq_get_all_free_blocks_rep[OF pool_invD(3)[OF i]] .
  from free_blocks_eviction_order[OF pool_run.alloc[OF pool_run.init[OF p(1)] g] f, of "[1]"] p(1) g
  show ?thesis by auto
qed

text \<open>
  The usage the pool reports is a fraction between zero and one.
\<close>

lemma pool_usage_bounds:
  assumes "pool_run p held"
  shows "0 \<le> get_usage p \<and> get_usage p \<le> 1"
proof -
  obtain q where q: "run_inv p held q" using pool_run_inv[OF assms(1)] by blast
  note inv = run_invD(1)[OF q]
  have "card {i. in_pool p i \<and> held i = 0} \<le> card {i. in_pool p i}"
    using finite_in_pool[of p "\<lambda>i. True"] by (intro card_mono) auto
  then have b: "0 \<le> get_num_free_blocks p" "get_num_free_blocks p \<le> num_gpu_blocks p - 1"
    using card_free[OF q] card_in_pool[OF pool_invD(1)[OF inv]] by simp_all
  show ?thesis
  proof (cases "num_gpu_blocks p - 1 = 0")
    case False
    then have "0 < num_gpu_blocks p - 1" using pool_invD(1)[OF inv] by linarith
    then have pos: "(0::rat) < of_int (num_gpu_blocks p - 1)" by (simp only: of_int_0_less_iff)
    have "(of_int (get_num_free_blocks p) :: rat) \<le> of_int (num_gpu_blocks p - 1)" using b(2) by (simp only: of_int_le_iff)
    moreover have "(0::rat) \<le> of_int (get_num_free_blocks p)" using b(1) by (simp only: of_int_0_le_iff)
    ultimately have "0 \<le> of_int (get_num_free_blocks p) / (of_int (num_gpu_blocks p - 1) :: rat)"
      "of_int (get_num_free_blocks p) / (of_int (num_gpu_blocks p - 1) :: rat) \<le> 1"
      using pos by (simp_all only: divide_le_eq_1_pos zero_le_divide_iff) auto
    then show ?thesis using False by (simp add: get_usage_def Let_def)
  qed (simp add: get_usage_def)
qed

end
