(* ===== verification/Sched_Utils.thy ===== *)
theory Sched_Utils
  imports Block_Hash "HOL-Library.Sublist"
begin

text \<open>
  When a request stops: \<open>vllm/v1/core/sched/utils.py\<close> (repetition detection, removal of
  finished requests from the running list, the stop check) and the loop of
  \<open>Scheduler._update_request_with_output\<close> that appends sampled tokens and runs the check after
  each. A Python set of items to remove is a list without duplicates.
\<close>

section \<open>Repetition detection\<close>

fun pattern_copies :: "int list \<Rightarrow> int \<Rightarrow> int \<Rightarrow> int \<Rightarrow> int list \<Rightarrow> bool result" where
  "pattern_copies toks plen n target [] = Inr True"
| "pattern_copies toks plen n target (m # ms) =
     bindE (py_nth toks (- (plen * m + n))) (\<lambda>t.
       if t \<noteq> target then Inr False else pattern_copies toks plen n target ms)"

fun pattern_positions :: "int list \<Rightarrow> int \<Rightarrow> int \<Rightarrow> int list \<Rightarrow> bool result" where
  "pattern_positions toks plen cnt [] = Inr True"
| "pattern_positions toks plen cnt (n # ns) =
     bindE (py_nth toks (- n)) (\<lambda>target.
     bindE (pattern_copies toks plen n target [1..cnt - 1]) (\<lambda>same.
       if same then pattern_positions toks plen cnt ns else Inr False))"

definition has_repeating_pattern :: "int list \<Rightarrow> int \<Rightarrow> int \<Rightarrow> bool result" where
  "has_repeating_pattern toks plen cnt = pattern_positions toks plen cnt [1..plen]"

fun try_patterns :: "int list \<Rightarrow> int \<Rightarrow> int list \<Rightarrow> bool result" where
  "try_patterns toks cnt [] = Inr False"
| "try_patterns toks cnt (plen # ps) =
     (if int (length toks) < plen * cnt then Inr False
      else bindE (has_repeating_pattern toks plen cnt) (\<lambda>found.
        if found then Inr True else try_patterns toks cnt ps))"

definition check_sequence_repetition :: "int list \<Rightarrow> repetition_params \<Rightarrow> bool result" where
  "check_sequence_repetition toks params =
     (let lo = (if min_pattern_size params \<le> 0 then 1 else min_pattern_size params);
          hi = max_pattern_size params
      in if hi \<le> 0 \<or> min_count params < 2 \<or> hi < lo then Inr False
         else try_patterns toks (min_count params) [lo..hi])"

section \<open>Removing items from a list\<close>

definition remove_all :: "'a list \<Rightarrow> 'a list \<Rightarrow> 'a list" where
  "remove_all lst items =
     (case items of
        [] \<Rightarrow> lst
      | [item] \<Rightarrow> remove1 item lst
      | _ \<Rightarrow> filter (\<lambda>x. x \<notin> set items) lst)"

section \<open>The stop check\<close>

definition check_stop :: "int \<Rightarrow> request \<Rightarrow> (bool \<times> request) result" where
  "check_stop max_model_len r =
     bindE (assertE (pooling_params_of r = None)) (\<lambda>_.
     (case sampling_params_of r of
        None \<Rightarrow> Inl AssertionError
      | Some sp \<Rightarrow>
          if num_output_tokens r < sp_min_tokens sp then Inr (False, r)
          else bindE (py_nth (output_token_ids r) (- 1)) (\<lambda>last_token_id.
            if eos_token_id sp = Some last_token_id
            then Inr (True, r\<lparr>status := FINISHED_STOPPED\<rparr>)
            else if last_token_id \<in> set (case stop_token_ids sp of None \<Rightarrow> [] | Some ts \<Rightarrow> ts)
            then Inr (True, r\<lparr>status := FINISHED_STOPPED, stop_reason_of := Some (StopToken last_token_id)\<rparr>)
            else if max_model_len \<le> num_tokens r \<or> max_tokens r \<le> num_output_tokens r
            then Inr (True, r\<lparr>status := FINISHED_LENGTH_CAPPED\<rparr>)
            else (case repetition_detection sp of
                    None \<Rightarrow> Inr (False, r)
                  | Some params \<Rightarrow>
                      bindE (check_sequence_repetition (output_token_ids r) params) (\<lambda>found.
                        if found
                        then Inr (True, r\<lparr>status := FINISHED_REPETITION,
                                          stop_reason_of := Some (StopString ''repetition_detected'')\<rparr>)
                        else Inr (False, r))))))"

text \<open>
  The loop over the sampled tokens returns the tokens kept, whether the request stopped, and
  the request. The argument \<open>kept\<close> holds the tokens appended so far.
\<close>

fun append_and_check :: "hasher option \<Rightarrow> int \<Rightarrow> int list \<Rightarrow> int list \<Rightarrow> request \<Rightarrow>
    (int list \<times> bool \<times> request) result" where
  "append_and_check hasher max_model_len kept [] r = Inr (kept, False, r)"
| "append_and_check hasher max_model_len kept (t # ts) r =
     bindE (append_output_token_ids hasher [t] r) (\<lambda>r1.
     bindE (check_stop max_model_len r1) (\<lambda>(stopped, r2).
       if stopped then Inr (kept @ [t], True, r2)
       else append_and_check hasher max_model_len (kept @ [t]) ts r2))"

definition update_request_with_output :: "hasher option \<Rightarrow> int \<Rightarrow> int list \<Rightarrow> request \<Rightarrow>
    (int list \<times> bool \<times> request) result" where
  "update_request_with_output hasher max_model_len new_token_ids r =
     append_and_check hasher max_model_len [] new_token_ids r"

section \<open>Lemmas on repetition\<close>

lemma py_nth_neg: "0 < i \<Longrightarrow> i \<le> int (length xs) \<Longrightarrow> py_nth xs (- i) = Inr (rev xs ! nat (i - 1))"
  by (auto simp: py_nth_def rev_nth nat_diff_distrib' Suc_diff_le intro!: arg_cong[of _ _ "nth xs"])

lemma pattern_copies_spec:
  assumes "\<forall>m \<in> set ms. 1 \<le> m \<and> p * m + n \<le> int (length toks)" "0 < n" "0 < p"
  shows "pattern_copies toks p n t ms = Inr (\<forall>m \<in> set ms. rev toks ! nat (p * m + n - 1) = t)"
  using assms
proof (induction ms)
  case (Cons m ms)
  have "0 < p * m" using Cons.prems by simp
  then have "0 < p * m + n" using Cons.prems by linarith
  then have "py_nth toks (- (p * m + n)) = Inr (rev toks ! nat (p * m + n - 1))"
    using Cons.prems by (intro py_nth_neg) simp_all
  then show ?case using Cons by simp
qed simp

lemma pattern_positions_spec:
  assumes "\<forall>n \<in> set ns. 0 < n \<and> n \<le> p" "0 < p" "2 \<le> c" "p * c \<le> int (length toks)"
  shows "pattern_positions toks p c ns =
    Inr (\<forall>n \<in> set ns. \<forall>m. 1 \<le> m \<and> m < c \<longrightarrow> rev toks ! nat (p * m + n - 1) = rev toks ! nat (n - 1))"
  using assms
proof (induction ns)
  case (Cons n ns)
  have le: "p * m + n \<le> int (length toks)" if "m < c" for m
  proof -
    have "p * (m + 1) \<le> p * c" using that Cons.prems by (intro mult_left_mono) auto
    then have "p * m + p \<le> p * c" by (simp add: distrib_left)
    then show ?thesis using Cons.prems by simp
  qed
  have "py_nth toks (- n) = Inr (rev toks ! nat (n - 1))"
    using Cons.prems le[of 0] by (intro py_nth_neg) auto
  moreover have "pattern_copies toks p n t [1..c - 1] =
      Inr (\<forall>m \<in> set [1..c - 1]. rev toks ! nat (p * m + n - 1) = t)" for t
    using Cons.prems le by (intro pattern_copies_spec) auto
  ultimately show ?case using Cons by auto
qed simp

text \<open>Tokens read from the end repeat with period \<open>p\<close> exactly when they are copies of one word.\<close>

lemma nth_concat_replicate:
  "n < length v \<Longrightarrow> m < c \<Longrightarrow> concat (replicate c v) ! (length v * m + n) = v ! n"
proof (induction c arbitrary: m)
  case (Suc c)
  show ?case
  proof (cases m)
    case (Suc k)
    then have "length v * m + n = length v + (length v * k + n)" by simp
    then show ?thesis using Suc.IH[of k] Suc.prems Suc by (simp add: nth_append)
  qed (use Suc.prems in \<open>simp add: nth_append\<close>)
qed simp

lemma length_concat_replicate [simp]: "length (concat (replicate c v)) = length v * c"
  by (induction c) simp_all

lemma rev_concat_replicate: "rev (concat (replicate c w)) = concat (replicate c (rev w))"
  by (simp add: rev_concat)

lemma take_periodic_iff:
  assumes "p * c \<le> length ys" "0 < p" "1 \<le> c"
  shows "take (p * c) ys = concat (replicate c (take p ys)) \<longleftrightarrow>
    (\<forall>n < p. \<forall>m. 1 \<le> m \<and> m < c \<longrightarrow> ys ! (p * m + n) = ys ! n)" (is "?l = ?r")
proof -
  have p: "p \<le> length ys" using assms by (metis le_trans mult.commute mult_le_mono1 mult_1)
  have idx: "p * m + n < p * c" if "n < p" "m < c" for n m
  proof -
    have "p * Suc m \<le> p * c" using that(2) by (intro mult_le_mono2) simp
    then show ?thesis using that(1) by simp
  qed
  have rep: "concat (replicate c (take p ys)) ! (p * m + n) = ys ! n" if "n < p" "m < c" for n m
    using nth_concat_replicate[of n "take p ys" m c] p that by simp
  show ?thesis
  proof
    assume l: ?l
    show ?r
    proof (intro allI impI)
      fix n m assume "n < p" "1 \<le> m \<and> m < c"
      then show "ys ! (p * m + n) = ys ! n"
        using arg_cong[OF l, of "\<lambda>xs. xs ! (p * m + n)"] rep[of n m] idx[of n m] by simp
    qed
  next
    assume r: ?r
    show ?l
    proof (rule nth_equalityI)
      fix i assume "i < length (take (p * c) ys)"
      then have i: "i < p * c" by simp
      define m n where mn: "m = i div p" "n = i mod p"
      then have eq: "i = p * m + n" and n: "n < p" using assms(2) by simp_all
      have m: "m < c" using i assms(2) unfolding mn(1) by (metis less_mult_imp_div_less mult.commute)
      have "ys ! i = ys ! n" using r n m eq by (cases "m = 0") simp_all
      then show "take (p * c) ys ! i = concat (replicate c (take p ys)) ! i"
        using i rep[OF n m] eq by simp
    qed (use assms p in simp)
  qed
qed

lemma suffix_replicate_iff:
  assumes "p * c \<le> length toks" "0 < p" "1 \<le> c"
  shows "(\<exists>w. length w = p \<and> suffix (concat (replicate c w)) toks) \<longleftrightarrow>
    take (p * c) (rev toks) = concat (replicate c (take p (rev toks)))"
proof
  assume "\<exists>w. length w = p \<and> suffix (concat (replicate c w)) toks"
  then obtain w where w: "length w = p" "suffix (concat (replicate c w)) toks" by blast
  then obtain zs where zs: "rev toks = concat (replicate c (rev w)) @ zs"
    by (auto simp: suffix_to_prefix rev_concat_replicate prefix_def)
  obtain d where "c = Suc d" using assms(3) by (cases c) auto
  then have "take p (rev toks) = rev w" using zs w(1) by simp
  moreover have "take (p * c) (rev toks) = concat (replicate c (rev w))" using zs w(1) by simp
  ultimately show "take (p * c) (rev toks) = concat (replicate c (take p (rev toks)))" by simp
next
  assume eq: "take (p * c) (rev toks) = concat (replicate c (take p (rev toks)))"
  have p: "p \<le> length toks" using assms by (metis le_trans mult.commute mult_le_mono1 mult_1)
  let ?w = "rev (take p (rev toks))"
  have "prefix (rev (concat (replicate c ?w))) (rev toks)"
    unfolding rev_concat_replicate rev_rev_ident eq[symmetric] by (rule take_is_prefix)
  then have "suffix (concat (replicate c ?w)) toks" by (simp only: suffix_to_prefix)
  moreover have "length ?w = p" using p by simp
  ultimately show "\<exists>w. length w = p \<and> suffix (concat (replicate c w)) toks" by blast
qed

definition repeats_at_end :: "int list \<Rightarrow> int \<Rightarrow> int \<Rightarrow> bool" where
  "repeats_at_end toks p c \<longleftrightarrow>
     (\<exists>w. int (length w) = p \<and> suffix (concat (replicate (nat c) w)) toks)"

lemma repeats_at_end_length: "repeats_at_end toks p c \<Longrightarrow> 0 \<le> c \<Longrightarrow> p * c \<le> int (length toks)"
proof -
  assume c: "0 \<le> c" and "repeats_at_end toks p c"
  then obtain w where w: "int (length w) = p" "suffix (concat (replicate (nat c) w)) toks"
    by (auto simp: repeats_at_end_def)
  have "int (length w) * int (nat c) \<le> int (length toks)"
    using suffix_length_le[OF w(2)] unfolding of_nat_mult[symmetric] of_nat_le_iff by simp
  then show ?thesis using w(1) by (simp only: int_nat_eq c if_True)
qed

lemma has_repeating_pattern_spec:
  assumes "0 < p" "2 \<le> c" "p * c \<le> int (length toks)"
  shows "has_repeating_pattern toks p c = Inr (repeats_at_end toks p c)"
proof -
  define q d where q: "q = nat p" and d: "d = nat c"
  have pq: "p = int q" "c = int d" using assms by (simp_all add: q d)
  have qd: "q * d \<le> length toks" "0 < q" "1 \<le> d"
    using assms unfolding pq by (simp_all flip: of_nat_mult)
  have "(\<forall>n \<in> set [1..p]. \<forall>m. 1 \<le> m \<and> m < c \<longrightarrow> rev toks ! nat (p * m + n - 1) = rev toks ! nat (n - 1)) \<longleftrightarrow>
        (\<forall>n < q. \<forall>m. 1 \<le> m \<and> m < d \<longrightarrow> rev toks ! (q * m + n) = rev toks ! n)" (is "?l = ?r")
  proof
    assume l: ?l
    show ?r
    proof (intro allI impI)
      fix n m assume nm: "n < q" "1 \<le> m \<and> m < d"
      then have "rev toks ! nat (p * int m + (int n + 1) - 1) = rev toks ! nat (int n + 1 - 1)"
        using bspec[OF l, of "int n + 1"] pq by simp
      then show "rev toks ! (q * m + n) = rev toks ! n"
        using nat_int[of "q * m + n"] by (simp add: pq)
    qed
  next
    assume r: ?r
    show ?l
    proof (intro ballI allI impI)
      fix n m assume nm: "n \<in> set [1..p]" "1 \<le> m \<and> m < c"
      define n' m' where n': "n' = nat (n - 1)" and m': "m' = nat m"
      have eq: "n = int n' + 1" "m = int m'" using nm by (simp_all add: n' m')
      have "n' < q" "1 \<le> m'" "m' < d" using nm eq pq by auto
      then show "rev toks ! nat (p * m + n - 1) = rev toks ! nat (n - 1)"
        using r nat_int[of "q * m' + n'"] by (simp add: eq pq)
    qed
  qed
  then show ?thesis
    using pattern_positions_spec[of "[1..p]" p c toks] assms
      suffix_replicate_iff[OF qd] take_periodic_iff[of q d "rev toks"] qd
    by (simp add: has_repeating_pattern_def repeats_at_end_def pq)
qed

lemma try_patterns_spec:
  assumes "sorted ps" "\<forall>p \<in> set ps. 0 < p" "2 \<le> c"
  shows "try_patterns toks c ps = Inr (\<exists>p \<in> set ps. repeats_at_end toks p c)"
  using assms
proof (induction ps)
  case (Cons p ps)
  show ?case
  proof (cases "int (length toks) < p * c")
    case True
    have "\<not> repeats_at_end toks q c" if "q \<in> set (p # ps)" for q
    proof
      assume "repeats_at_end toks q c"
      then have "q * c \<le> int (length toks)" using Cons.prems(3) repeats_at_end_length by simp
      moreover have "p * c \<le> q * c" using that Cons.prems by (intro mult_right_mono) auto
      ultimately show False using True by simp
    qed
    then show ?thesis using True by simp
  next
    case False
    then show ?thesis using Cons has_repeating_pattern_spec[of p c toks] by simp
  qed
qed simp

lemma check_sequence_repetition_spec:
  "check_sequence_repetition toks params =
     Inr (2 \<le> min_count params \<and>
          (\<exists>p. max 1 (min_pattern_size params) \<le> p \<and> p \<le> max_pattern_size params \<and>
               repeats_at_end toks p (min_count params)))"
proof -
  let ?lo = "max 1 (min_pattern_size params)"
  have lo: "(if min_pattern_size params \<le> 0 then 1 else min_pattern_size params) = ?lo" by simp
  have "try_patterns toks (min_count params) [?lo..max_pattern_size params] =
      Inr (\<exists>p \<in> set [?lo..max_pattern_size params]. repeats_at_end toks p (min_count params))"
    if "2 \<le> min_count params"
    using that by (intro try_patterns_spec) auto
  then show ?thesis unfolding check_sequence_repetition_def Let_def lo by auto
qed

section \<open>Lemmas on the stop check\<close>

text \<open>The reasons to stop, in words of the parameters and the tokens.\<close>

definition stop_condition :: "int \<Rightarrow> sampling_params \<Rightarrow> request \<Rightarrow> bool" where
  "stop_condition max_model_len sp r \<longleftrightarrow>
     sp_min_tokens sp \<le> num_output_tokens r \<and>
     (eos_token_id sp = Some (last (output_token_ids r)) \<or>
      (\<exists>ts. stop_token_ids sp = Some ts \<and> last (output_token_ids r) \<in> set ts) \<or>
      max_model_len \<le> num_tokens r \<or> max_tokens r \<le> num_output_tokens r \<or>
      (\<exists>params p. repetition_detection sp = Some params \<and> 2 \<le> min_count params \<and>
         max 1 (min_pattern_size params) \<le> p \<and> p \<le> max_pattern_size params \<and>
         repeats_at_end (output_token_ids r) p (min_count params)))"

lemma check_stop_spec:
  assumes "pooling_params_of r = None" "sampling_params_of r = Some sp" "output_token_ids r \<noteq> []"
  obtains r' where "check_stop L r = Inr (stop_condition L sp r, r')"
    "\<not> stop_condition L sp r \<longrightarrow> r' = r"
    "stop_condition L sp r \<longrightarrow> status_is_finished (status r')"
    "r' = r\<lparr>status := status r', stop_reason_of := stop_reason_of r'\<rparr>"
proof -
  have len: "0 < length (output_token_ids r)" using assms(3) by simp
  then have l: "py_nth (output_token_ids r) (- 1) = Inr (last (output_token_ids r))"
    using py_nth_neg[of 1 "output_token_ids r"] assms(3) by (simp add: rev_nth last_conv_nth Suc_leI)
  show thesis
  proof (cases "check_stop L r")
    case (Inl e)
    then show ?thesis
      using assms l by (auto simp: check_stop_def check_sequence_repetition_spec split: if_splits option.splits)
  next
    case (Inr br)
    obtain b r' where br: "br = (b, r')" by (cases br)
    have "b = stop_condition L sp r \<and> (\<not> b \<longrightarrow> r' = r) \<and> (b \<longrightarrow> status_is_finished (status r')) \<and>
        r' = r\<lparr>status := status r', stop_reason_of := stop_reason_of r'\<rparr>"
      using Inr[unfolded br] assms l
      by (auto simp: check_stop_def check_sequence_repetition_spec stop_condition_def status_is_finished_def
          split: if_splits option.splits)
    then show ?thesis using that Inr br by blast
  qed
qed

section \<open>Lemmas on the update loop\<close>

definition with_output :: "int list \<Rightarrow> request \<Rightarrow> request" where
  "with_output ts r = r\<lparr>output_token_ids := output_token_ids r @ ts, all_token_ids := all_token_ids r @ ts\<rparr>"

text \<open>A hasher that returns for every request and changes nothing but the memo.\<close>

definition hasher_returns :: "hasher option \<Rightarrow> bool" where
  "hasher_returns hasher \<longleftrightarrow>
     (\<forall>f. hasher = Some f \<longrightarrow> hasher_frame f \<and> (\<forall>r. \<exists>hs r'. f r = Inr (hs, r')))"

definition same_but_outcome :: "request \<Rightarrow> request \<Rightarrow> bool" where
  "same_but_outcome r r' \<longleftrightarrow>
     r' = r\<lparr>status := status r', stop_reason_of := stop_reason_of r',
            prompt_embeds_hashes := prompt_embeds_hashes r', block_hashes := block_hashes r'\<rparr>"

lemma same_but_outcome_refl [simp]: "same_but_outcome r r"
  by (simp add: same_but_outcome_def)

lemma same_but_outcomeD:
  assumes "same_but_outcome r r'"
  shows "output_token_ids r' = output_token_ids r" "all_token_ids r' = all_token_ids r"
    "max_tokens r' = max_tokens r" "pooling_params_of r' = pooling_params_of r"
    "sampling_params_of r' = sampling_params_of r" "resumable r' = resumable r"
  using assms by (auto simp: same_but_outcome_def elim!: ssubst)

lemma same_but_outcome_trans:
  assumes "same_but_outcome (with_output xs r) r'" "same_but_outcome (with_output ys r') r''"
  shows "same_but_outcome (with_output (xs @ ys) r) r''"
  using assms by (cases r; cases r'; cases r'') (auto simp: same_but_outcome_def with_output_def)

lemma stop_condition_cong:
  "same_but_outcome r r' \<Longrightarrow> stop_condition L sp r' = stop_condition L sp r"
  by (simp add: stop_condition_def num_output_tokens_def num_tokens_def same_but_outcomeD)

lemma with_output_append: "with_output ys (with_output xs r) = with_output (xs @ ys) r"
  by (simp add: with_output_def)

lemma stop_condition_after:
  assumes "same_but_outcome (with_output xs r) r'"
  shows "stop_condition L sp (with_output ys r') = stop_condition L sp (with_output (xs @ ys) r)"
  using same_but_outcomeD[OF assms]
  by (simp add: stop_condition_def num_output_tokens_def num_tokens_def with_output_def)

lemma append_output_returns:
  assumes "hasher_returns hasher"
  obtains r' where "append_output_token_ids hasher ts r = Inr r'" "same_but_outcome (with_output ts r) r'"
    "status r' = status r"
proof -
  have "\<exists>r'. append_output_token_ids hasher ts r = Inr r'"
  proof (cases hasher)
    case (Some f)
    then obtain hs u where "f (with_output ts r) = Inr (hs, u)"
      using assms unfolding hasher_returns_def by blast
    then show ?thesis
      using Some by (simp add: append_output_token_ids_def update_block_hashes_def with_output_def)
  qed (simp add: append_output_token_ids_def update_block_hashes_def)
  then obtain r' where r': "append_output_token_ids hasher ts r = Inr r'" by blast
  then have f: "r' = (with_output ts r)\<lparr>prompt_embeds_hashes := prompt_embeds_hashes r', block_hashes := block_hashes r'\<rparr>"
    using assms unfolding append_output_token_ids_def with_output_def hasher_returns_def
    by (intro update_block_hashes_frame) auto
  have "status r' = status r" "stop_reason_of r' = stop_reason_of r"
    by (subst f, simp add: with_output_def)+
  then show thesis using that r' f by (simp add: same_but_outcome_def with_output_def)
qed

text \<open>
  One turn of the loop either stops at the token or leaves a request that differs from the
  old one by the token and its hashes.
\<close>

lemma append_and_check_step:
  assumes "hasher_returns hasher" "pooling_params_of r = None" "sampling_params_of r = Some sp"
  obtains r1 r2 where "append_output_token_ids hasher [t] r = Inr r1"
    "check_stop L r1 = Inr (stop_condition L sp (with_output [t] r), r2)"
    "same_but_outcome (with_output [t] r) r2"
    "stop_condition L sp (with_output [t] r) \<longrightarrow> status_is_finished (status r2)"
    "\<not> stop_condition L sp (with_output [t] r) \<longrightarrow> status r2 = status r"
proof -
  obtain r1 where r1: "append_output_token_ids hasher [t] r = Inr r1"
    "same_but_outcome (with_output [t] r) r1" "status r1 = status r"
    by (rule append_output_returns[OF assms(1)])
  note same = same_but_outcomeD[OF r1(2)]
  have "pooling_params_of r1 = None" "sampling_params_of r1 = Some sp" "output_token_ids r1 \<noteq> []"
    using same assms by (simp_all add: with_output_def)
  then obtain r2 where r2: "check_stop L r1 = Inr (stop_condition L sp r1, r2)"
    "\<not> stop_condition L sp r1 \<longrightarrow> r2 = r1" "stop_condition L sp r1 \<longrightarrow> status_is_finished (status r2)"
    "r2 = r1\<lparr>status := status r2, stop_reason_of := stop_reason_of r2\<rparr>"
    by (rule check_stop_spec)
  have c: "stop_condition L sp r1 = stop_condition L sp (with_output [t] r)"
    using stop_condition_cong[OF r1(2)] .
  have "same_but_outcome (with_output [t] r) r2"
    using r1(2) r2(4) by (cases r; cases r1; cases r2) (simp add: same_but_outcome_def with_output_def)
  then show thesis using that[OF r1(1) r2(1)[unfolded c]] r2(2,3) r1(3) c by blast
qed

lemma append_and_check_spec:
  assumes "hasher_returns hasher" "pooling_params_of r = None" "sampling_params_of r = Some sp"
  shows "\<exists>k stopped r'. append_and_check hasher L kept ts r = Inr (kept @ take k ts, stopped, r') \<and>
    k \<le> length ts \<and> same_but_outcome (with_output (take k ts) r) r' \<and>
    (\<forall>j. 1 \<le> j \<and> j < k \<longrightarrow> \<not> stop_condition L sp (with_output (take j ts) r)) \<and>
    (stopped \<longrightarrow> 1 \<le> k \<and> stop_condition L sp (with_output (take k ts) r) \<and> status_is_finished (status r')) \<and>
    (\<not> stopped \<longrightarrow> k = length ts \<and> status r' = status r \<and>
       (1 \<le> k \<longrightarrow> \<not> stop_condition L sp (with_output (take k ts) r)))"
  using assms(2,3)
proof (induction ts arbitrary: kept r)
  case Nil
  then show ?case by (intro exI[of _ 0] exI[of _ False] exI[of _ r]) (simp add: with_output_def)
next
  case (Cons t ts)
  let ?stop = "stop_condition L sp (with_output [t] r)"
  obtain r1 r2 where s: "append_output_token_ids hasher [t] r = Inr r1"
    "check_stop L r1 = Inr (?stop, r2)" "same_but_outcome (with_output [t] r) r2"
    "?stop \<longrightarrow> status_is_finished (status r2)" "\<not> ?stop \<longrightarrow> status r2 = status r"
    by (rule append_and_check_step[OF assms(1) Cons.prems])
  show ?case
  proof (cases ?stop)
    case True
    then show ?thesis using s by (intro exI[of _ 1] exI[of _ True] exI[of _ r2]) simp
  next
    case False
    have "pooling_params_of r2 = None" "sampling_params_of r2 = Some sp"
      using same_but_outcomeD[OF s(3)] Cons.prems by (simp_all add: with_output_def)
    from Cons.IH[OF this, of "kept @ [t]"] obtain k stopped r' where ih:
      "append_and_check hasher L (kept @ [t]) ts r2 = Inr ((kept @ [t]) @ take k ts, stopped, r')"
      "k \<le> length ts" "same_but_outcome (with_output (take k ts) r2) r'"
      "\<forall>j. 1 \<le> j \<and> j < k \<longrightarrow> \<not> stop_condition L sp (with_output (take j ts) r2)"
      "stopped \<longrightarrow> 1 \<le> k \<and> stop_condition L sp (with_output (take k ts) r2) \<and> status_is_finished (status r')"
      "\<not> stopped \<longrightarrow> k = length ts \<and> status r' = status r2 \<and>
         (1 \<le> k \<longrightarrow> \<not> stop_condition L sp (with_output (take k ts) r2))" by blast
    have sc: "stop_condition L sp (with_output xs r2) = stop_condition L sp (with_output (t # xs) r)" for xs
      using stop_condition_after[OF s(3), of L sp xs] by simp
    let ?n = "Suc k" and ?ts = "t # ts"
    have "\<forall>j. 1 \<le> j \<and> j < ?n \<longrightarrow> \<not> stop_condition L sp (with_output (take j ?ts) r)"
    proof (intro allI impI)
      fix j assume "1 \<le> j \<and> j < ?n"
      then show "\<not> stop_condition L sp (with_output (take j ?ts) r)"
        using ih(4) False sc by (cases j; cases "j - 1") auto
    qed
    moreover have "append_and_check hasher L kept ?ts r = Inr (kept @ take ?n ?ts, stopped, r')"
      using s(1,2) False ih(1) by simp
    moreover have "same_but_outcome (with_output (take ?n ?ts) r) r'"
      using same_but_outcome_trans[OF s(3) ih(3)] by simp
    moreover have not: "\<not> stopped \<longrightarrow> \<not> stop_condition L sp (with_output (take ?n ?ts) r)"
      unfolding take_Suc_Cons using ih(6) sc[of "take k ts"] False
      by (cases "1 \<le> k") (blast, simp add: not_le)
    have "\<not> stopped \<longrightarrow> ?n = length ?ts \<and> status r' = status r \<and>
        (1 \<le> ?n \<longrightarrow> \<not> stop_condition L sp (with_output (take ?n ?ts) r))"
      using ih(6) s(5) False not by simp
    moreover have "stopped \<longrightarrow> 1 \<le> ?n \<and> stop_condition L sp (with_output (take ?n ?ts) r) \<and>
        status_is_finished (status r')"
      using ih(5) sc[of "take k ts"] by simp
    moreover have "?n \<le> length ?ts" using ih(2) by simp
    ultimately show ?thesis by (intro exI[of _ ?n] exI[of _ stopped] exI[of _ r'] conjI) assumption+
  qed
qed

lemma remove_all_filter:
  assumes "distinct lst"
  shows "remove_all lst items = filter (\<lambda>x. x \<notin> set items) lst"
proof (cases items)
  case (Cons item rest)
  then show ?thesis
    using assms by (cases rest) (auto simp: remove_all_def distinct_remove1_removeAll removeAll_filter_not_eq
      intro: filter_cong)
qed (simp add: remove_all_def)

section \<open>Properties\<close>

text \<open>
  C29: repetition detection never raises an index error and reports a repetition exactly when the
  output ends in at least \<open>min_count\<close> (two or more) copies of one word whose length is between
  the minimum (one when not positive) and the maximum pattern size.
\<close>

theorem repetition_detected_iff:
  "check_sequence_repetition toks params =
     Inr (2 \<le> min_count params \<and>
          (\<exists>w. max 1 (min_pattern_size params) \<le> int (length w) \<and>
               int (length w) \<le> max_pattern_size params \<and>
               suffix (concat (replicate (nat (min_count params)) w)) toks))"
  unfolding check_sequence_repetition_spec repeats_at_end_def by (rule arg_cong[of _ _ Inr]) blast

text \<open>
  C28: a request takes the sampled tokens up to and including the first at which a stop condition
  holds, and all of them if none does. It ends in a finished status exactly when it stopped,
  with its status unchanged otherwise, and the tokens it took are appended to both token lists.
\<close>

theorem update_stops_at_first_condition:
  assumes "hasher_returns hasher" "pooling_params_of r = None" "sampling_params_of r = Some sp"
  shows "\<exists>k stopped r'. update_request_with_output hasher L toks r = Inr (take k toks, stopped, r') \<and>
    k \<le> length toks \<and> same_but_outcome (with_output (take k toks) r) r' \<and>
    (\<forall>j. 1 \<le> j \<and> j < k \<longrightarrow> \<not> stop_condition L sp (with_output (take j toks) r)) \<and>
    (stopped \<longrightarrow> 1 \<le> k \<and> stop_condition L sp (with_output (take k toks) r) \<and> status_is_finished (status r')) \<and>
    (\<not> stopped \<longrightarrow> k = length toks \<and> status r' = status r \<and>
       (1 \<le> k \<longrightarrow> \<not> stop_condition L sp (with_output (take k toks) r)))"
  using append_and_check_spec[OF assms, of L "[]" toks] by (simp add: update_request_with_output_def)

theorem update_stops_at_first_condition_witness:
  "\<exists>k stopped r'. update_request_with_output None 100 [5, 2, 6] (example_request ''a'' [7, 8]) =
     Inr (take k [5, 2, 6], stopped, r') \<and> (stopped \<longrightarrow> status_is_finished (status r'))"
proof -
  obtain sp where "sampling_params_of (example_request ''a'' [7, 8]) = Some sp"
    "pooling_params_of (example_request ''a'' [7, 8]) = None"
    by (simp add: example_request_def init_request_def example_message_def)
  moreover have "hasher_returns None" by (simp add: hasher_returns_def)
  ultimately show ?thesis
    using update_stops_at_first_condition[of None "example_request ''a'' [7, 8]" sp 100 "[5, 2, 6]"] by blast
qed

text \<open>
  C27: generation ends. Whatever tokens the model samples, a request whose minimum length is within
  its maximum stops by the time as many tokens arrive as its maximum leaves, and it never holds
  more than the maximum.
\<close>

theorem request_stops_within_max_tokens:
  assumes "hasher_returns hasher" "pooling_params_of r = None" "sampling_params_of r = Some sp"
    "sp_min_tokens sp \<le> max_tokens r" "num_output_tokens r < max_tokens r"
    "max_tokens r - num_output_tokens r \<le> int (length toks)"
  shows "\<exists>kept r'. update_request_with_output hasher L toks r = Inr (kept, True, r') \<and>
    status_is_finished (status r') \<and> num_output_tokens r' \<le> max_tokens r"
proof -
  from append_and_check_spec[OF assms(1-3), of L "[]" toks] obtain k stopped r' where s:
    "update_request_with_output hasher L toks r = Inr (take k toks, stopped, r')"
    "k \<le> length toks" "same_but_outcome (with_output (take k toks) r) r'"
    "\<forall>j. 1 \<le> j \<and> j < k \<longrightarrow> \<not> stop_condition L sp (with_output (take j toks) r)"
    "stopped \<longrightarrow> status_is_finished (status r')"
    "\<not> stopped \<longrightarrow> k = length toks \<and> (1 \<le> k \<longrightarrow> \<not> stop_condition L sp (with_output (take k toks) r))"
    by (auto simp: update_request_with_output_def)
  define n where "n = nat (max_tokens r - num_output_tokens r)"
  have n: "1 \<le> n" "n \<le> length toks" "num_output_tokens r + int n = max_tokens r"
    using assms(5,6) by (simp_all add: n_def)
  have stop: "stop_condition L sp (with_output (take n toks) r)"
    using n assms(4) by (simp add: stop_condition_def with_output_def num_output_tokens_def)
  have k: "k \<le> n" using s(4) stop n(1) by (meson not_le)
  have stopped: stopped
  proof (rule ccontr)
    assume "\<not> stopped"
    with s(6) have e: "k = length toks" "1 \<le> k \<longrightarrow> \<not> stop_condition L sp (with_output (take k toks) r)" by blast+
    then have "k = n" using k n(2) by simp
    then show False using e(2) stop n(1) by simp
  qed
  moreover have "num_output_tokens r' \<le> max_tokens r"
    using same_but_outcomeD(1)[OF s(3)] k n(3) by (simp add: num_output_tokens_def with_output_def)
  ultimately show ?thesis using s(1,5) by (intro exI[of _ "take k toks"] exI[of _ r']) simp
qed

theorem request_stops_within_max_tokens_witness:
  "\<exists>kept r'. update_request_with_output None 100 (replicate 20 5) (example_request ''a'' [7, 8]) = Inr (kept, True, r') \<and>
    status_is_finished (status r') \<and> num_output_tokens r' \<le> 16"
proof -
  let ?r = "example_request ''a'' [7, 8]"
  obtain sp where "sampling_params_of ?r = Some sp" "pooling_params_of ?r = None" "sp_min_tokens sp = 0"
    "max_tokens ?r = 16" "num_output_tokens ?r = 0"
    by (simp add: example_request_def init_request_def example_message_def num_output_tokens_def)
  then show ?thesis
    using request_stops_within_max_tokens[of None ?r sp "replicate 20 5" 100] by (simp add: hasher_returns_def)
qed

text \<open>
  On a list without duplicates, as the running list is, both paths of \<open>remove_all\<close> return the
  items that are not to be removed, in their order.
\<close>

lemma remove_all_is_filter:
  assumes "distinct lst"
  shows "remove_all lst items = filter (\<lambda>x. x \<notin> set items) lst"
  using assms by (rule remove_all_filter)

lemma remove_all_is_filter_witness: "remove_all [1::nat, 2, 3] [2] = [1, 3]"
  using remove_all_is_filter[of "[1::nat, 2, 3]" "[2]"] by simp

end
