(* ===== verification/Heapq.thy ===== *)
theory Heapq
  imports Prelude
begin

text \<open>
  The binary heaps of Python's \<open>heapq\<close>, as the request queue uses them: \<open>_siftdown\<close>,
  \<open>_siftup\<close>, \<open>heappush\<close>, \<open>heappop\<close> and \<open>heapify\<close> on a list, with the comparison \<open>\<open><\<close>\<close> of the
  items as an argument. Both sifting loops carry the new item in hand and leave a hole in the
  list; the heap invariant is stated for a list with a hole.
\<close>

section \<open>Operations\<close>

abbreviation parent_pos :: "nat \<Rightarrow> nat" where
  "parent_pos i \<equiv> (i - 1) div 2"

function siftdown_loop :: "('a \<Rightarrow> 'a \<Rightarrow> bool) \<Rightarrow> nat \<Rightarrow> 'a \<Rightarrow> nat \<Rightarrow> 'a list \<Rightarrow> 'a list" where
  "siftdown_loop lt startpos newitem pos heap =
     (if startpos < pos \<and> lt newitem (heap ! parent_pos pos)
      then siftdown_loop lt startpos newitem (parent_pos pos) (heap[pos := heap ! parent_pos pos])
      else heap[pos := newitem])"
  by pat_completeness auto
termination by (relation "measure (\<lambda>(_, _, _, pos, _). pos)") auto

declare siftdown_loop.simps [simp del]

definition siftdown :: "('a \<Rightarrow> 'a \<Rightarrow> bool) \<Rightarrow> nat \<Rightarrow> nat \<Rightarrow> 'a list \<Rightarrow> 'a list" where
  "siftdown lt startpos pos heap = siftdown_loop lt startpos (heap ! pos) pos heap"

definition smaller_child :: "('a \<Rightarrow> 'a \<Rightarrow> bool) \<Rightarrow> nat \<Rightarrow> 'a list \<Rightarrow> nat" where
  "smaller_child lt pos heap =
     (let childpos = 2 * pos + 1; rightpos = childpos + 1
      in if rightpos < length heap \<and> \<not> lt (heap ! childpos) (heap ! rightpos) then rightpos else childpos)"

lemma smaller_child_cases: "smaller_child lt pos heap = 2 * pos + 1 \<or> smaller_child lt pos heap = 2 * pos + 2"
  by (simp add: smaller_child_def Let_def)

function siftup_loop :: "('a \<Rightarrow> 'a \<Rightarrow> bool) \<Rightarrow> nat \<Rightarrow> 'a list \<Rightarrow> nat \<times> 'a list" where
  "siftup_loop lt pos heap =
     (if 2 * pos + 1 < length heap
      then let childpos = smaller_child lt pos heap
           in siftup_loop lt childpos (heap[pos := heap ! childpos])
      else (pos, heap))"
  by pat_completeness auto
termination
proof (relation "measure (\<lambda>(_, pos, heap). length heap - pos)")
  fix lt :: "'a \<Rightarrow> 'a \<Rightarrow> bool" and pos childpos and heap :: "'a list"
  assume "2 * pos + 1 < length heap" "childpos = smaller_child lt pos heap"
  then show "((lt, childpos, heap[pos := heap ! childpos]), lt, pos, heap) \<in>
      measure (\<lambda>(_, pos, heap). length heap - pos)"
    using smaller_child_cases[of lt pos heap] by auto
qed simp

declare siftup_loop.simps [simp del]

definition siftup :: "('a \<Rightarrow> 'a \<Rightarrow> bool) \<Rightarrow> nat \<Rightarrow> 'a list \<Rightarrow> 'a list" where
  "siftup lt startpos heap =
     (let newitem = heap ! startpos; (pos, heap') = siftup_loop lt startpos heap
      in siftdown lt startpos pos (heap'[pos := newitem]))"

definition heappush :: "('a \<Rightarrow> 'a \<Rightarrow> bool) \<Rightarrow> 'a \<Rightarrow> 'a list \<Rightarrow> 'a list" where
  "heappush lt item heap = siftdown lt 0 (length heap) (heap @ [item])"

definition heappop :: "('a \<Rightarrow> 'a \<Rightarrow> bool) \<Rightarrow> 'a list \<Rightarrow> ('a \<times> 'a list) result" where
  "heappop lt heap =
     (if heap = [] then Inl IndexError
      else let lastelt = last heap; rest = butlast heap
           in if rest = [] then Inr (lastelt, [])
              else Inr (rest ! 0, siftup lt 0 (rest[0 := lastelt])))"

definition heapify :: "('a \<Rightarrow> 'a \<Rightarrow> bool) \<Rightarrow> 'a list \<Rightarrow> 'a list" where
  "heapify lt heap = fold (siftup lt) (rev [0..<length heap div 2]) heap"

section \<open>Invariants\<close>

text \<open>
  \<open>heap_from lt s xs\<close>: no item is smaller than its parent, for the items whose parent is at
  \<open>s\<close> or later. \<open>heap_hole lt s pos xs\<close>: the same for a list with a hole at \<open>pos\<close>, whose
  neighbours are only compared across the hole.
\<close>

definition heap_from :: "('a \<Rightarrow> 'a \<Rightarrow> bool) \<Rightarrow> nat \<Rightarrow> 'a list \<Rightarrow> bool" where
  "heap_from lt s xs \<longleftrightarrow>
     (\<forall>x. 0 < x \<and> x < length xs \<and> s \<le> parent_pos x \<longrightarrow> \<not> lt (xs ! x) (xs ! parent_pos x))"

abbreviation is_heap :: "('a \<Rightarrow> 'a \<Rightarrow> bool) \<Rightarrow> 'a list \<Rightarrow> bool" where
  "is_heap lt xs \<equiv> heap_from lt 0 xs"

definition heap_hole :: "('a \<Rightarrow> 'a \<Rightarrow> bool) \<Rightarrow> nat \<Rightarrow> nat \<Rightarrow> 'a list \<Rightarrow> bool" where
  "heap_hole lt s pos xs \<longleftrightarrow>
     pos < length xs \<and>
     (\<forall>x. 0 < x \<and> x < length xs \<and> s \<le> parent_pos x \<and> x \<noteq> pos \<and> parent_pos x \<noteq> pos \<longrightarrow>
        \<not> lt (xs ! x) (xs ! parent_pos x)) \<and>
     (\<forall>x. 0 < x \<and> x < length xs \<and> parent_pos x = pos \<and> 0 < pos \<and> s \<le> parent_pos pos \<longrightarrow>
        \<not> lt (xs ! x) (xs ! parent_pos pos))"

lemma heap_holeD:
  assumes "heap_hole lt s pos xs" "0 < x" "x < length xs"
  shows "s \<le> parent_pos x \<Longrightarrow> x \<noteq> pos \<Longrightarrow> parent_pos x \<noteq> pos \<Longrightarrow> \<not> lt (xs ! x) (xs ! parent_pos x)"
    and "parent_pos x = pos \<Longrightarrow> 0 < pos \<Longrightarrow> s \<le> parent_pos pos \<Longrightarrow> \<not> lt (xs ! x) (xs ! parent_pos pos)"
  using assms by (simp_all add: heap_hole_def)

lemma heap_holeI:
  assumes "pos < length xs"
    and "\<And>x. 0 < x \<Longrightarrow> x < length xs \<Longrightarrow> s \<le> parent_pos x \<Longrightarrow> x \<noteq> pos \<Longrightarrow> parent_pos x \<noteq> pos \<Longrightarrow>
      \<not> lt (xs ! x) (xs ! parent_pos x)"
    and "\<And>x. 0 < x \<Longrightarrow> x < length xs \<Longrightarrow> parent_pos x = pos \<Longrightarrow> 0 < pos \<Longrightarrow> s \<le> parent_pos pos \<Longrightarrow>
      \<not> lt (xs ! x) (xs ! parent_pos pos)"
  shows "heap_hole lt s pos xs"
  using assms by (simp add: heap_hole_def)

lemma heap_hole_update: "heap_hole lt s pos xs \<Longrightarrow> heap_hole lt s pos (xs[pos := v])"
proof (rule heap_holeI)
  assume h: "heap_hole lt s pos xs"
  then show "pos < length (xs[pos := v])" by (simp add: heap_hole_def)
  show "\<not> lt (xs[pos := v] ! x) (xs[pos := v] ! parent_pos x)"
    if "0 < x" "x < length (xs[pos := v])" "s \<le> parent_pos x" "x \<noteq> pos" "parent_pos x \<noteq> pos" for x
    using heap_holeD(1)[OF h, of x] that by simp
  show "\<not> lt (xs[pos := v] ! x) (xs[pos := v] ! parent_pos pos)"
    if "0 < x" "x < length (xs[pos := v])" "parent_pos x = pos" "0 < pos" "s \<le> parent_pos pos" for x
  proof -
    have "x \<noteq> pos" "parent_pos pos \<noteq> pos" using that by auto
    then show ?thesis using heap_holeD(2)[OF h, of x] that by simp
  qed
qed

text \<open>Positions in the subtree of \<open>s\<close>.\<close>

fun below :: "nat \<Rightarrow> nat \<Rightarrow> bool" where
  "below s p = (if s < p then below s (parent_pos p) else p = s)"

declare below.simps [simp del]

lemma below_refl [simp]: "below s s"
  by (simp add: below.simps)

lemma parent_pos_less: "0 < x \<Longrightarrow> parent_pos x < x"
  by simp

lemma below_le: "below s p \<Longrightarrow> s \<le> p"
  using below.simps[of s p] by (simp split: if_splits)

lemma below_parent: "below s p \<Longrightarrow> s < p \<Longrightarrow> below s (parent_pos p) \<and> s \<le> parent_pos p"
  using below.simps[of s p] below_le[of s "parent_pos p"] by simp

lemma below_child: "below s p \<Longrightarrow> c = 2 * p + 1 \<or> c = 2 * p + 2 \<Longrightarrow> below s c"
  using below.simps[of s c] below_le[of s p] by auto

lemma below_0 [simp]: "below 0 p"
proof (induction p rule: less_induct)
  case (less p)
  then show ?case using below.simps[of 0 p] by (cases "p = 0") auto
qed

text \<open>Sifting permutes the items, with the item in hand counted at the hole.\<close>

lemma mset_move_hole:
  assumes "i < length xs" "j < length xs" "i \<noteq> j"
  shows "mset (xs[i := xs ! j, j := v]) = mset (xs[i := v])"
proof -
  let ?ys = "xs[i := v]"
  have "mset (?ys[i := ?ys ! j, j := ?ys ! i]) = mset ?ys"
    using assms(1,2) mset_swap[of j ?ys i] by (simp add: list_update_swap)
  moreover have "?ys[i := ?ys ! j, j := ?ys ! i] = xs[i := xs ! j, j := v]" using assms by simp
  ultimately show ?thesis by simp
qed

lemma siftdown_loop_mset:
  assumes "pos < length xs"
  shows "mset (siftdown_loop lt s v pos xs) = mset (xs[pos := v])"
  using assms
proof (induction pos arbitrary: xs rule: less_induct)
  case (less pos)
  show ?case
  proof (cases "s < pos \<and> lt v (xs ! parent_pos pos)")
    case True
    then have p: "parent_pos pos < pos" using parent_pos_less[of pos] by simp
    let ?ys = "xs[pos := xs ! parent_pos pos]"
    have "siftdown_loop lt s v pos xs = siftdown_loop lt s v (parent_pos pos) ?ys"
      unfolding siftdown_loop.simps[of lt s v pos xs] if_P[OF True] ..
    moreover have "mset (siftdown_loop lt s v (parent_pos pos) ?ys) = mset (?ys[parent_pos pos := v])"
      using less.IH[OF p, of ?ys] less.prems p by simp
    moreover have "mset (?ys[parent_pos pos := v]) = mset (xs[pos := v])"
      using less.prems p by (intro mset_move_hole) simp_all
    ultimately show ?thesis by simp
  next
    case False
    show ?thesis unfolding siftdown_loop.simps[of lt s v pos xs] if_not_P[OF False] ..
  qed
qed

lemma siftup_loop_mset:
  assumes "pos < length xs" "siftup_loop lt pos xs = (q, ys)"
  shows "q < length ys \<and> mset (ys[q := v]) = mset (xs[pos := v])"
  using assms
proof (induction "length xs - pos" arbitrary: pos xs rule: less_induct)
  case less
  show ?case
  proof (cases "2 * pos + 1 < length xs")
    case True
    let ?c = "smaller_child lt pos xs"
    have c: "pos < ?c" "?c < length xs"
      using True smaller_child_cases[of lt pos xs] by (auto simp: smaller_child_def Let_def)
    let ?ys = "xs[pos := xs ! ?c]"
    have "siftup_loop lt ?c ?ys = (q, ys)"
      using less.prems(2) True by (simp add: siftup_loop.simps[of lt pos xs] Let_def)
    then have "q < length ys \<and> mset (ys[q := v]) = mset (?ys[?c := v])"
      using less.hyps[of ?ys ?c] c less.prems(1) by simp
    moreover have "mset (?ys[?c := v]) = mset (xs[pos := v])"
      using c less.prems(1) by (intro mset_move_hole) simp_all
    ultimately show ?thesis by simp
  next
    case False
    then show ?thesis using less.prems by (simp add: siftup_loop.simps[of lt pos xs])
  qed
qed

lemma siftup_mset: "s < length xs \<Longrightarrow> mset (siftup lt s xs) = mset xs"
proof -
  assume s: "s < length xs"
  obtain q ys where q: "siftup_loop lt s xs = (q, ys)" by (cases "siftup_loop lt s xs")
  have m: "q < length ys \<and> mset (ys[q := xs ! s]) = mset (xs[s := xs ! s])"
    by (rule siftup_loop_mset[OF s q])
  let ?zs = "ys[q := xs ! s]"
  have "siftup lt s xs = siftdown_loop lt s (?zs ! q) q ?zs" by (simp add: siftup_def q siftdown_def Let_def)
  then have "mset (siftup lt s xs) = mset (?zs[q := ?zs ! q])" using m siftdown_loop_mset[of q ?zs] by simp
  then show ?thesis using m by simp
qed

lemma heappush_mset [simp]: "mset (heappush lt x xs) = add_mset x (mset xs)"
  using siftdown_loop_mset[of "length xs" "xs @ [x]" lt 0 x] by (simp add: heappush_def siftdown_def)

lemma heappop_mset: "heappop lt xs = Inr (x, ys) \<Longrightarrow> mset xs = add_mset x (mset ys)"
proof -
  assume pop: "heappop lt xs = Inr (x, ys)"
  then have ne: "xs \<noteq> []" by (auto simp: heappop_def)
  then have split: "xs = butlast xs @ [last xs]" by simp
  show ?thesis
  proof (cases "butlast xs")
    case Nil
    then have "xs = [last xs]" using split by simp
    then show ?thesis using pop Nil by (cases xs) (auto simp: heappop_def Let_def)
  next
    case (Cons a rest)
    then have "x = a" "ys = siftup lt 0 (last xs # rest)" using pop ne by (auto simp: heappop_def Let_def)
    then have "mset ys = add_mset (last xs) (mset rest)" by (simp add: siftup_mset)
    moreover have "mset xs = add_mset (last xs) (mset (a # rest))"
      unfolding Cons[symmetric] by (subst split) simp
    ultimately show ?thesis using \<open>x = a\<close> by (simp add: add_mset_commute)
  qed
qed

lemma heapify_mset [simp]: "mset (heapify lt xs) = mset xs"
proof -
  have "mset (fold (siftup lt) is ys) = mset ys" if "\<forall>i \<in> set is. i < length ys" for "is" and ys :: "'a list"
    using that
  proof (induction "is" arbitrary: ys)
    case (Cons i "is")
    then show ?case using siftup_mset[of i ys lt] mset_eq_length[OF siftup_mset[of i ys lt]] by simp
  qed simp
  moreover have "\<forall>i \<in> set (rev [0..<length xs div 2]). i < length xs" by auto
  ultimately show ?thesis unfolding heapify_def by blast
qed

text \<open>Popping until the heap is empty.\<close>

function heap_drain :: "('a \<Rightarrow> 'a \<Rightarrow> bool) \<Rightarrow> 'a list \<Rightarrow> 'a list" where
  "heap_drain lt heap = (case heappop lt heap of Inl e \<Rightarrow> [] | Inr (x, rest) \<Rightarrow> x # heap_drain lt rest)"
  by pat_completeness auto
termination
proof (relation "measure (\<lambda>(_, heap). length heap)")
  fix lt :: "'a \<Rightarrow> 'a \<Rightarrow> bool" and heap x rest and xr :: "'a \<times> 'a list"
  assume "heappop lt heap = Inr xr" "(x, rest) = xr"
  then have "length heap = Suc (length rest)" using heappop_mset[of lt heap x rest] by (metis size_add_mset size_mset)
  then show "((lt, rest), lt, heap) \<in> measure (\<lambda>(_, heap). length heap)" by simp
qed simp

declare heap_drain.simps [simp del]

lemma heappop_Inl_iff: "heappop lt xs = Inl e \<longleftrightarrow> xs = [] \<and> e = IndexError"
  by (auto simp: heappop_def Let_def)

lemma heap_drain_mset: "mset (heap_drain lt xs) = mset xs"
proof (induction lt xs rule: heap_drain.induct)
  case (1 lt xs)
  show ?case
  proof (cases "heappop lt xs")
    case (Inl e)
    have "heap_drain lt xs = []" by (subst heap_drain.simps) (simp add: Inl)
    then show ?thesis using Inl by (simp add: heappop_Inl_iff)
  next
    case (Inr xr)
    obtain x ys where xr: "xr = (x, ys)" by (cases xr)
    then show ?thesis using 1[OF Inr xr[symmetric]] heappop_mset[of lt xs x ys] Inr by (simp add: heap_drain.simps[of lt xs])
  qed
qed

text \<open>A comparison that is a strict weak order: what the heap operations need of \<open>\<open><\<close>\<close>.\<close>

locale weak_order =
  fixes lt :: "'a \<Rightarrow> 'a \<Rightarrow> bool"
  assumes lt_irrefl: "\<not> lt a a"
    and lt_asym: "lt a b \<Longrightarrow> \<not> lt b a"
    and not_lt_trans: "\<not> lt b a \<Longrightarrow> \<not> lt c b \<Longrightarrow> \<not> lt c a"
begin

lemma lt_le_trans: "lt a b \<Longrightarrow> \<not> lt c b \<Longrightarrow> \<not> lt c a"
  using lt_asym not_lt_trans by blast

lemma hole_up:
  assumes hole: "heap_hole lt s pos xs" and kids: "\<And>x. 0 < x \<Longrightarrow> x < length xs \<Longrightarrow> parent_pos x = pos \<Longrightarrow> \<not> lt (xs ! x) v"
    and pos: "s < pos" "s \<le> parent_pos pos" and lt: "lt v (xs ! parent_pos pos)"
  defines "ys \<equiv> xs[pos := xs ! parent_pos pos]"
  shows "heap_hole lt s (parent_pos pos) ys \<and>
    (\<forall>x. 0 < x \<and> x < length ys \<and> parent_pos x = parent_pos pos \<longrightarrow> \<not> lt (ys ! x) v)"
proof -
  let ?p = "parent_pos pos"
  have p: "?p < pos" "pos < length xs" "?p < length xs" using pos hole by (auto simp: heap_hole_def)
  have order: "\<not> lt (xs ! x) (xs ! parent_pos x)"
    if "0 < x" "x < length xs" "s \<le> parent_pos x" "x \<noteq> pos" "parent_pos x \<noteq> pos" for x
    using hole that by (simp add: heap_hole_def)
  have across: "\<not> lt (xs ! x) (xs ! ?p)" if "0 < x" "x < length xs" "parent_pos x = pos" for x
    using hole that pos by (simp add: heap_hole_def)
  have at: "ys ! x = (if x = pos then xs ! ?p else xs ! x)" if "x < length xs" for x
    using that by (simp add: ys_def nth_list_update)
  have len: "length ys = length xs" by (simp add: ys_def)
  have kid: "\<not> lt (ys ! x) v" if "0 < x" "x < length xs" "parent_pos x = ?p" for x
  proof (cases "x = pos")
    case True
    then show ?thesis using at p lt lt_asym by simp
  next
    case False
    then have "\<not> lt (xs ! x) (xs ! ?p)" using order[of x] that p pos by simp
    then show ?thesis using at[of x] False that lt_le_trans[OF lt] by simp
  qed
  have rest: "\<not> lt (ys ! x) (ys ! parent_pos x)"
    if "0 < x" "x < length xs" "s \<le> parent_pos x" "x \<noteq> ?p" "parent_pos x \<noteq> ?p" for x
  proof (cases "parent_pos x = pos")
    case True
    moreover have "x \<noteq> pos" using True parent_pos_less[OF that(1)] by simp
    ultimately show ?thesis using at[of x] at[of pos] across[of x] that p by simp
  next
    case False
    have "x \<noteq> pos" using that(5) by blast
    moreover have "parent_pos x < length xs" using that(2) parent_pos_less[OF that(1)] by simp
    ultimately show ?thesis using False order[of x] at[of x] at[of "parent_pos x"] that by simp
  qed
  have far: "\<not> lt (ys ! x) (ys ! parent_pos ?p)"
    if "0 < x" "x < length xs" "parent_pos x = ?p" "0 < ?p" "s \<le> parent_pos ?p" for x
  proof -
    have pp: "parent_pos ?p < ?p" using that(4) by (rule parent_pos_less)
    have up: "\<not> lt (xs ! ?p) (xs ! parent_pos ?p)" using order[of ?p] that p pp by simp
    have "\<not> lt (ys ! x) (xs ! ?p)"
    proof (cases "x = pos")
      case False
      then show ?thesis using order[of x] at[of x] that p pos by simp
    qed (use at p lt_irrefl in simp)
    then show ?thesis using not_lt_trans[OF up] at[of "parent_pos ?p"] pp p by simp
  qed
  have "heap_hole lt s ?p ys"
    by (rule heap_holeI; unfold len) (rule p(3), (rule rest; assumption), (rule far; assumption))
  then show ?thesis using kid by (simp only: len) blast
qed

lemma siftdown_loop_heap:
  assumes "heap_hole lt s pos xs" "below s pos"
    "\<forall>x. 0 < x \<and> x < length xs \<and> parent_pos x = pos \<longrightarrow> \<not> lt (xs ! x) v"
  shows "heap_from lt s (siftdown_loop lt s v pos xs)"
  using assms
proof (induction pos arbitrary: xs rule: less_induct)
  case (less pos)
  show ?case
  proof (cases "s < pos \<and> lt v (xs ! parent_pos pos)")
    case True
    then have b: "below s (parent_pos pos)" "s \<le> parent_pos pos" using below_parent less.prems(2) by simp_all
    let ?ys = "xs[pos := xs ! parent_pos pos]"
    have "heap_hole lt s (parent_pos pos) ?ys \<and>
        (\<forall>x. 0 < x \<and> x < length ?ys \<and> parent_pos x = parent_pos pos \<longrightarrow> \<not> lt (?ys ! x) v)"
      using less.prems(1,3) True b(2) by (intro hole_up) simp_all
    then show ?thesis
      using less.IH[of "parent_pos pos" ?ys] parent_pos_less[of pos] True b(1)
      by (subst siftdown_loop.simps) simp
  next
    case False
    have "\<not> lt (xs[pos := v] ! x) (xs[pos := v] ! parent_pos x)"
      if x: "0 < x" "x < length xs" "s \<le> parent_pos x" for x
    proof -
      consider "x = pos" | "x \<noteq> pos" "parent_pos x = pos" | "x \<noteq> pos" "parent_pos x \<noteq> pos" by blast
      then show ?thesis
      proof cases
        case 1
        then have "s < pos" "parent_pos pos \<noteq> pos" using x parent_pos_less[of x] by auto
        then show ?thesis using False 1 x by simp
      next
        case 2
        then show ?thesis using less.prems(3) x by simp
      next
        case 3
        then show ?thesis using less.prems(1) x by (simp add: heap_hole_def)
      qed
    qed
    then show ?thesis
      unfolding siftdown_loop.simps[of lt s v pos xs] if_not_P[OF False] by (simp add: heap_from_def)
  qed
qed

lemma smaller_child_least:
  assumes "2 * pos + 1 < length xs" "0 < x" "x < length xs" "parent_pos x = pos"
  shows "\<not> lt (xs ! x) (xs ! smaller_child lt pos xs)"
proof -
  have "x = 2 * pos + 1 \<or> x = 2 * pos + 2" using assms(2,4) by linarith
  then show ?thesis
    using assms(3) lt_irrefl lt_asym by (auto simp: smaller_child_def Let_def)
qed

lemma hole_down:
  assumes hole: "heap_hole lt s pos xs" and leaf: "2 * pos + 1 < length xs"
  defines "c \<equiv> smaller_child lt pos xs"
  shows "heap_hole lt s c (xs[pos := xs ! c])"
proof -
  let ?ys = "xs[pos := xs ! c]"
  have cc: "c = 2 * pos + 1 \<or> c = 2 * pos + 2" unfolding c_def by (rule smaller_child_cases)
  have c: "c < length xs" using leaf by (auto simp: c_def smaller_child_def Let_def)
  have pc: "parent_pos c = pos" "pos < c" using cc by auto
  have at: "?ys ! x = (if x = pos then xs ! c else xs ! x)" if "x < length xs" for x
    using that by (simp add: nth_list_update)
  have "\<not> lt (?ys ! x) (?ys ! parent_pos x)"
    if x: "0 < x" "x < length xs" "s \<le> parent_pos x" "x \<noteq> c" "parent_pos x \<noteq> c" for x
  proof -
    have px: "parent_pos x < x" using x(1) by (rule parent_pos_less)
    consider "x = pos" | "parent_pos x = pos" | "x \<noteq> pos" "parent_pos x \<noteq> pos" by blast
    then show ?thesis
    proof cases
      case 1
      have "\<not> lt (xs ! c) (xs ! parent_pos pos)" using heap_holeD(2)[OF hole, of c] c pc x 1 by simp
      then show ?thesis using 1 x px at[of pos] at[of "parent_pos pos"] by simp
    next
      case 2
      then show ?thesis using smaller_child_least[OF leaf x(1,2) 2] x px by (simp add: c_def)
    next
      case 3
      then show ?thesis using hole x px by (simp add: heap_hole_def)
    qed
  qed
  moreover have "\<not> lt (?ys ! x) (?ys ! parent_pos c)"
    if x: "0 < x" "x < length xs" "parent_pos x = c" "s \<le> parent_pos c" for x
  proof -
    have "x \<noteq> pos" "pos \<noteq> c" "s \<le> c" using x pc parent_pos_less[of x] by auto
    then have "\<not> lt (xs ! x) (xs ! c)" using heap_holeD(1)[OF hole x(1,2)] x(3) by simp
    then show ?thesis using x pc \<open>x \<noteq> pos\<close> at[of x] at[of pos] c by simp
  qed
  ultimately show ?thesis using c by (simp add: heap_hole_def)
qed

lemma siftup_loop_heap:
  assumes "heap_hole lt s pos xs" "below s pos" "siftup_loop lt pos xs = (q, ys)"
  shows "heap_hole lt s q ys \<and> below s q \<and> length ys = length xs \<and> length ys \<le> 2 * q + 1"
  using assms
proof (induction "length xs - pos" arbitrary: pos xs rule: less_induct)
  case less
  show ?case
  proof (cases "2 * pos + 1 < length xs")
    case True
    let ?c = "smaller_child lt pos xs"
    have "pos < ?c" "below s ?c" using smaller_child_cases[of lt pos xs] below_child[OF less.prems(2), of ?c] by auto
    moreover from this have "length xs - ?c < length xs - pos" using True by simp
    ultimately show ?thesis
      using less.hyps[of "xs[pos := xs ! ?c]" ?c] hole_down[OF less.prems(1) True] less.prems(3) True
      by (simp add: siftup_loop.simps[of lt pos xs] Let_def)
  next
    case False
    then show ?thesis using less.prems by (simp add: siftup_loop.simps[of lt pos xs])
  qed
qed

lemma siftup_heap:
  assumes "heap_from lt (Suc s) xs" "s < length xs"
  shows "heap_from lt s (siftup lt s xs)"
proof -
  obtain q ys where q: "siftup_loop lt s xs = (q, ys)" by (cases "siftup_loop lt s xs")
  have "heap_hole lt s s xs"
  proof (rule heap_holeI)
    show "\<not> lt (xs ! x) (xs ! parent_pos x)" if "0 < x" "x < length xs" "s \<le> parent_pos x" "parent_pos x \<noteq> s" for x
      using assms(1) that by (simp add: heap_from_def)
    show "\<not> lt (xs ! x) (xs ! parent_pos s)" if "0 < s" "s \<le> parent_pos s" for x
      using that parent_pos_less[of s] by simp
  qed (use assms in simp)
  then have l: "heap_hole lt s q ys" "below s q" "length ys \<le> 2 * q + 1"
    using siftup_loop_heap[OF _ below_refl q] by simp_all
  let ?zs = "ys[q := xs ! s]"
  have "heap_hole lt s q ?zs" using l(1) by (rule heap_hole_update)
  moreover have "\<forall>x. 0 < x \<and> x < length ?zs \<and> parent_pos x = q \<longrightarrow> \<not> lt (?zs ! x) v" for v
    using l(3) by auto
  ultimately have "heap_from lt s (siftdown_loop lt s (?zs ! q) q ?zs)"
    using l(2) by (intro siftdown_loop_heap) simp_all
  then show ?thesis by (simp add: siftup_def q siftdown_def Let_def)
qed

lemma siftup_length [simp]: "s < length xs \<Longrightarrow> length (siftup lt s xs) = length xs"
  using mset_eq_length[OF siftup_mset] by blast

lemma heapify_loop:
  assumes "heap_from lt n xs" "n \<le> length xs"
  shows "heap_from lt 0 (fold (siftup lt) (rev [0..<n]) xs)"
  using assms
proof (induction n arbitrary: xs)
  case (Suc n)
  then show ?case using siftup_heap[of n xs] by simp
qed simp

lemma heapify_heap: "is_heap lt (heapify lt xs)"
proof -
  have "heap_from lt (length xs div 2) xs" by (auto simp: heap_from_def)
  then show ?thesis unfolding heapify_def by (rule heapify_loop) simp
qed

lemma heappush_heap: "is_heap lt xs \<Longrightarrow> is_heap lt (heappush lt x xs)"
proof -
  assume h: "is_heap lt xs"
  let ?xs = "xs @ [x]" and ?n = "length xs"
  have "heap_hole lt 0 ?n ?xs"
  proof (rule heap_holeI)
    fix y assume y: "0 < y" "y < length ?xs" "y \<noteq> ?n"
    then have "y < ?n" "parent_pos y < ?n" using parent_pos_less[OF y(1)] by simp_all
    then show "\<not> lt (?xs ! y) (?xs ! parent_pos y)"
      using h y(1) by (simp add: heap_from_def nth_append)
  next
    fix y assume y: "0 < y" "y < length ?xs" "parent_pos y = ?n"
    then show "\<not> lt (?xs ! y) (?xs ! parent_pos ?n)" using parent_pos_less[OF y(1)] by simp
  qed simp
  moreover have "\<forall>y. 0 < y \<and> y < length ?xs \<and> parent_pos y = ?n \<longrightarrow> \<not> lt (?xs ! y) x" by auto
  ultimately show ?thesis unfolding heappush_def siftdown_def by (intro siftdown_loop_heap) simp_all
qed

lemma heap_root_least: "is_heap lt xs \<Longrightarrow> i < length xs \<Longrightarrow> \<not> lt (xs ! i) (xs ! 0)"
proof (induction i rule: less_induct)
  case (less i)
  show ?case
  proof (cases "i = 0")
    case False
    then have p: "0 < i" "parent_pos i < i" using parent_pos_less[of i] by simp_all
    have "\<not> lt (xs ! parent_pos i) (xs ! 0)" using less p by simp
    moreover have "\<not> lt (xs ! i) (xs ! parent_pos i)" using less.prems p(1) by (simp add: heap_from_def)
    ultimately show ?thesis by (rule not_lt_trans)
  qed (simp add: lt_irrefl)
qed

lemma heappop_heap:
  assumes "is_heap lt xs" "heappop lt xs = Inr (x, ys)"
  shows "is_heap lt ys \<and> x = xs ! 0 \<and> (\<forall>y \<in> set xs. \<not> lt y x)"
proof -
  have ne: "xs \<noteq> []" using assms(2) by (auto simp: heappop_def)
  have x: "x = xs ! 0"
    using assms(2) ne by (cases xs) (auto simp: heappop_def Let_def nth_butlast split: if_splits)
  have "is_heap lt ys"
  proof (cases "butlast xs = []")
    case True
    then show ?thesis using assms(2) ne by (auto simp: heappop_def heap_from_def)
  next
    case False
    let ?r = "(butlast xs)[0 := last xs]"
    have "\<not> lt (?r ! i) (?r ! parent_pos i)" if i: "0 < i" "i < length ?r" "Suc 0 \<le> parent_pos i" for i
    proof -
      have "parent_pos i < length (butlast xs)" using i parent_pos_less[OF i(1)] by simp
      then have "?r ! i = xs ! i" "?r ! parent_pos i = xs ! parent_pos i" using i by (simp_all add: nth_butlast)
      then show ?thesis using assms(1) i by (simp add: heap_from_def)
    qed
    then have "heap_from lt (Suc 0) ?r" by (simp add: heap_from_def)
    then have "is_heap lt (siftup lt 0 ?r)" by (rule siftup_heap) (use False in \<open>simp only: length_list_update length_greater_0_conv not_False_eq_True\<close>)
    then show ?thesis using assms(2) ne False by (auto simp: heappop_def Let_def)
  qed
  moreover have "\<not> lt y x" if "y \<in> set xs" for y
    using that heap_root_least[OF assms(1)] x by (auto simp: in_set_conv_nth)
  ultimately show ?thesis using x by blast
qed

lemma heap_drain_sorted: "is_heap lt xs \<Longrightarrow> sorted_wrt (\<lambda>a b. \<not> lt b a) (heap_drain lt xs)"
proof (induction "length xs" arbitrary: xs rule: less_induct)
  case less
  show ?case
  proof (cases "heappop lt xs")
    case (Inl e)
    then show ?thesis by (simp add: heap_drain.simps[of lt xs])
  next
    case (Inr xr)
    obtain x ys where xr: "xr = (x, ys)" by (cases xr)
    note pop = heappop_heap[OF less.prems Inr[unfolded xr]] heappop_mset[OF Inr[unfolded xr]]
    have l: "length ys < length xs" using arg_cong[OF pop(2), of size] by simp
    have "set (heap_drain lt ys) \<subseteq> set xs"
      using pop(2) heap_drain_mset[of lt ys] by (metis set_mset_mset subsetI insertI2 set_mset_add_mset_insert)
    then have "\<forall>b \<in> set (heap_drain lt ys). \<not> lt b x" using pop(1) by blast
    then show ?thesis using less.hyps[OF l] pop(1) Inr xr by (simp add: heap_drain.simps[of lt xs])
  qed
qed

end

end
