(* ===== verification/Request_Queue.thy ===== *)
theory Request_Queue
  imports Requests Heapq
begin

text \<open>
  The waiting queues of the scheduler: \<open>vllm/v1/core/sched/request_queue.py\<close>. Requests are
  compared by identity when one is removed, so removal goes by \<open>obj_id\<close>, and by
  \<open>Request.__lt__\<close> in the heap of the priority policy. Each class has one definition per
  method; the sum type \<open>request_queue\<close> is an object of either class and the \<open>rq_\<close> operations
  dispatch on it. The choice between the two waiting queues is from \<open>scheduler.py\<close>.
\<close>

section \<open>First come, first served\<close>

datatype scheduling_policy = FCFS | PRIORITY

definition fcfs_add :: "request \<Rightarrow> request list \<Rightarrow> request list" where
  "fcfs_add r q = q @ [r]"

definition fcfs_pop :: "request list \<Rightarrow> (request \<times> request list) result" where
  "fcfs_pop q = (case q of [] \<Rightarrow> Inl IndexError | r # rest \<Rightarrow> Inr (r, rest))"

definition fcfs_peek :: "request list \<Rightarrow> request result" where
  "fcfs_peek q = (case q of [] \<Rightarrow> Inl IndexError | r # rest \<Rightarrow> Inr r)"

definition fcfs_prepend :: "request \<Rightarrow> request list \<Rightarrow> request list" where
  "fcfs_prepend r q = r # q"

text \<open>\<open>extendleft\<close> prepends the items one by one, in the order the other queue iterates.\<close>

definition fcfs_prepend_requests :: "request list \<Rightarrow> request list \<Rightarrow> request list" where
  "fcfs_prepend_requests rs q = fold fcfs_prepend rs q"

fun remove_object :: "request \<Rightarrow> request list \<Rightarrow> request list result" where
  "remove_object r [] = Inl ValueError"
| "remove_object r (x # xs) =
     (if obj_id x = obj_id r then Inr xs else bindE (remove_object r xs) (\<lambda>ys. Inr (x # ys)))"

definition fcfs_remove :: "request \<Rightarrow> request list \<Rightarrow> request list result" where
  "fcfs_remove r q = remove_object r q"

definition fcfs_remove_requests :: "request list \<Rightarrow> request list \<Rightarrow> request list" where
  "fcfs_remove_requests rs q = filter (\<lambda>x. obj_id x \<notin> obj_id ` set rs) q"

section \<open>Priority\<close>

definition pq_add :: "request \<Rightarrow> request list \<Rightarrow> request list" where
  "pq_add r h = heappush request_lt r h"

definition pq_pop :: "request list \<Rightarrow> (request \<times> request list) result" where
  "pq_pop h = (if h = [] then Inl IndexError else heappop request_lt h)"

definition pq_peek :: "request list \<Rightarrow> request result" where
  "pq_peek h = (if h = [] then Inl IndexError else Inr (h ! 0))"

definition pq_prepend :: "request \<Rightarrow> request list \<Rightarrow> request list" where
  "pq_prepend r h = pq_add r h"

definition pq_prepend_requests :: "request list \<Rightarrow> request list \<Rightarrow> request list" where
  "pq_prepend_requests rs h = fold pq_add rs h"

definition pq_remove :: "request \<Rightarrow> request list \<Rightarrow> request list result" where
  "pq_remove r h = bindE (remove_object r h) (\<lambda>h'. Inr (heapify request_lt h'))"

definition pq_remove_requests :: "request list \<Rightarrow> request list \<Rightarrow> request list" where
  "pq_remove_requests rs h = heapify request_lt (filter (\<lambda>x. obj_id x \<notin> obj_id ` set rs) h)"

definition pq_iter :: "request list \<Rightarrow> request list" where
  "pq_iter h = heap_drain request_lt h"

section \<open>Queue objects\<close>

datatype request_queue = FcfsQueue "request list" | PriorityQueue "request list"

fun create_request_queue :: "scheduling_policy \<Rightarrow> request_queue" where
  "create_request_queue PRIORITY = PriorityQueue []"
| "create_request_queue FCFS = FcfsQueue []"

fun rq_add :: "request \<Rightarrow> request_queue \<Rightarrow> request_queue" where
  "rq_add r (FcfsQueue q) = FcfsQueue (fcfs_add r q)"
| "rq_add r (PriorityQueue h) = PriorityQueue (pq_add r h)"

fun rq_pop :: "request_queue \<Rightarrow> (request \<times> request_queue) result" where
  "rq_pop (FcfsQueue q) = bindE (fcfs_pop q) (\<lambda>(r, q'). Inr (r, FcfsQueue q'))"
| "rq_pop (PriorityQueue h) = bindE (pq_pop h) (\<lambda>(r, h'). Inr (r, PriorityQueue h'))"

fun rq_peek :: "request_queue \<Rightarrow> request result" where
  "rq_peek (FcfsQueue q) = fcfs_peek q"
| "rq_peek (PriorityQueue h) = pq_peek h"

fun rq_prepend :: "request \<Rightarrow> request_queue \<Rightarrow> request_queue" where
  "rq_prepend r (FcfsQueue q) = FcfsQueue (fcfs_prepend r q)"
| "rq_prepend r (PriorityQueue h) = PriorityQueue (pq_prepend r h)"

fun rq_iter :: "request_queue \<Rightarrow> request list" where
  "rq_iter (FcfsQueue q) = q"
| "rq_iter (PriorityQueue h) = pq_iter h"

fun rq_prepend_requests :: "request_queue \<Rightarrow> request_queue \<Rightarrow> request_queue" where
  "rq_prepend_requests other (FcfsQueue q) = FcfsQueue (fcfs_prepend_requests (rq_iter other) q)"
| "rq_prepend_requests other (PriorityQueue h) = PriorityQueue (pq_prepend_requests (rq_iter other) h)"

fun rq_remove :: "request \<Rightarrow> request_queue \<Rightarrow> request_queue result" where
  "rq_remove r (FcfsQueue q) = bindE (fcfs_remove r q) (\<lambda>q'. Inr (FcfsQueue q'))"
| "rq_remove r (PriorityQueue h) = bindE (pq_remove r h) (\<lambda>h'. Inr (PriorityQueue h'))"

fun rq_remove_requests :: "request list \<Rightarrow> request_queue \<Rightarrow> request_queue" where
  "rq_remove_requests rs (FcfsQueue q) = FcfsQueue (fcfs_remove_requests rs q)"
| "rq_remove_requests rs (PriorityQueue h) = PriorityQueue (pq_remove_requests rs h)"

fun rq_len :: "request_queue \<Rightarrow> nat" where
  "rq_len (FcfsQueue q) = length q"
| "rq_len (PriorityQueue h) = length h"

definition rq_bool :: "request_queue \<Rightarrow> bool" where
  "rq_bool q \<longleftrightarrow> 0 < rq_len q"

section \<open>The queue the scheduler takes the next request from\<close>

datatype waiting_choice = Waiting | SkippedWaiting

definition select_waiting_queue ::
    "scheduling_policy \<Rightarrow> request_queue \<Rightarrow> request_queue \<Rightarrow> waiting_choice option result" where
  "select_waiting_queue policy waiting skipped =
     (if policy = FCFS
      then Inr (if rq_bool skipped then Some SkippedWaiting else if rq_bool waiting then Some Waiting else None)
      else if rq_bool waiting \<and> rq_bool skipped
      then bindE (rq_peek waiting) (\<lambda>waiting_req. bindE (rq_peek skipped) (\<lambda>skipped_req.
             Inr (Some (if request_lt waiting_req skipped_req then Waiting else SkippedWaiting))))
      else Inr (if rq_bool waiting then Some Waiting else if rq_bool skipped then Some SkippedWaiting else None))"

text \<open>
  A request that cannot run in this step is popped and kept aside; at the end of the step the
  requests kept aside return to the front of the skipped queue.
\<close>

fun move_front :: "('q \<Rightarrow> (request \<times> 'q) result) \<Rightarrow> (request \<Rightarrow> 'q \<Rightarrow> 'q) \<Rightarrow> nat \<Rightarrow> 'q \<Rightarrow> 'q \<Rightarrow> ('q \<times> 'q) result" where
  "move_front pop prepend 0 q aside = Inr (q, aside)"
| "move_front pop prepend (Suc n) q aside =
     bindE (pop q) (\<lambda>(r, q'). move_front pop prepend n q' (prepend r aside))"

definition skip_front :: "nat \<Rightarrow> request_queue \<Rightarrow> request_queue \<Rightarrow> (request_queue \<times> request_queue) result" where
  "skip_front n q aside = move_front rq_pop rq_prepend n q aside"

section \<open>The contract of a request queue\<close>

text \<open>
  What \<open>RequestQueue\<close> promises of the requests it holds, whatever the policy: an invariant of
  the representation, the multiset of requests, and the effect of each method on both.
\<close>

locale queue_contract =
  fixes inv :: "'q \<Rightarrow> bool" and contents :: "'q \<Rightarrow> request multiset"
    and add :: "request \<Rightarrow> 'q \<Rightarrow> 'q" and pop :: "'q \<Rightarrow> (request \<times> 'q) result" and peek :: "'q \<Rightarrow> request result"
    and prepend :: "request \<Rightarrow> 'q \<Rightarrow> 'q" and prepend_list :: "request list \<Rightarrow> 'q \<Rightarrow> 'q"
    and remove :: "request \<Rightarrow> 'q \<Rightarrow> 'q result" and remove_list :: "request list \<Rightarrow> 'q \<Rightarrow> 'q"
  assumes add: "inv q \<Longrightarrow> inv (add r q) \<and> contents (add r q) = add_mset r (contents q)"
    and pop_none: "contents q = {#} \<Longrightarrow> pop q = Inl IndexError \<and> peek q = Inl IndexError"
    and pop_some: "inv q \<Longrightarrow> contents q \<noteq> {#} \<Longrightarrow>
      \<exists>r q'. peek q = Inr r \<and> pop q = Inr (r, q') \<and> inv q' \<and> contents q = add_mset r (contents q')"
    and prepend: "inv q \<Longrightarrow> inv (prepend r q) \<and> contents (prepend r q) = add_mset r (contents q)"
    and prepend_list: "inv q \<Longrightarrow> inv (prepend_list rs q) \<and> contents (prepend_list rs q) = mset rs + contents q"
    and remove_none: "\<forall>x \<in># contents q. obj_id x \<noteq> obj_id r \<Longrightarrow> remove r q = Inl ValueError"
    and remove_some: "inv q \<Longrightarrow> \<exists>x \<in># contents q. obj_id x = obj_id r \<Longrightarrow>
      \<exists>x q'. remove r q = Inr q' \<and> inv q' \<and> obj_id x = obj_id r \<and> contents q = add_mset x (contents q')"
    and remove_list: "inv q \<Longrightarrow> inv (remove_list rs q) \<and>
      contents (remove_list rs q) = filter_mset (\<lambda>x. obj_id x \<notin> obj_id ` set rs) (contents q)"
begin

lemma pop_Inr:
  assumes "inv q" "pop q = Inr (r, q')"
  shows "inv q' \<and> contents q = add_mset r (contents q') \<and> peek q = Inr r"
  using assms pop_none[of q] pop_some[of q] by (cases "contents q = {#}") auto

lemma pop_after_peek: "inv q \<Longrightarrow> peek q = Inr r \<Longrightarrow> \<exists>q'. pop q = Inr (r, q')"
  using pop_none[of q] pop_some[of q] by (cases "contents q = {#}") auto

text \<open>Setting requests aside and putting them back loses none.\<close>

lemma move_front_conserves:
  assumes "inv q" "inv aside" "move_front pop prepend n q aside = Inr (q', aside')"
  shows "inv q' \<and> inv aside' \<and> contents q' + contents aside' = contents q + contents aside"
  using assms
proof (induction n arbitrary: q aside)
  case (Suc n)
  then obtain r p where p: "pop q = Inr (r, p)" "move_front pop prepend n p (prepend r aside) = Inr (q', aside')"
    by (auto elim!: bindE_InrE)
  then show ?case using Suc.IH[OF _ _ p(2)] pop_Inr[OF Suc.prems(1) p(1)] prepend[OF Suc.prems(2), of r] by simp
qed simp

lemma move_front_returns:
  assumes "inv q" "n \<le> size (contents q)"
  shows "\<exists>q' aside'. move_front pop prepend n q aside = Inr (q', aside') \<and> size (contents q') = size (contents q) - n"
  using assms
proof (induction n arbitrary: q aside)
  case (Suc n)
  then have "contents q \<noteq> {#}" by auto
  then obtain r p where p: "pop q = Inr (r, p)" "inv p" "contents q = add_mset r (contents p)"
    using pop_some[OF Suc.prems(1)] by blast
  then show ?case using Suc.IH[OF p(2), of "prepend r aside"] Suc.prems(2) by simp
qed simp

end

lemma remove_object_none: "\<forall>x \<in> set xs. obj_id x \<noteq> obj_id r \<Longrightarrow> remove_object r xs = Inl ValueError"
  by (induction xs) auto

lemma remove_object_some:
  "\<exists>x \<in> set xs. obj_id x = obj_id r \<Longrightarrow>
   \<exists>x ys. remove_object r xs = Inr ys \<and> obj_id x = obj_id r \<and> mset xs = add_mset x (mset ys)"
proof (induction xs)
  case (Cons a xs)
  show ?case
  proof (cases "obj_id a = obj_id r")
    case False
    then obtain x ys where "remove_object r xs = Inr ys" "obj_id x = obj_id r" "mset xs = add_mset x (mset ys)"
      using Cons by auto
    then show ?thesis using False by (intro exI[of _ x] exI[of _ "a # ys"]) simp
  qed auto
qed simp

lemma fcfs_prepend_requests_rev: "fcfs_prepend_requests rs q = rev rs @ q"
  unfolding fcfs_prepend_requests_def by (induction rs arbitrary: q) (simp_all add: fcfs_prepend_def)

interpretation fcfs: queue_contract "\<lambda>q. True" mset fcfs_add fcfs_pop fcfs_peek fcfs_prepend
    fcfs_prepend_requests fcfs_remove fcfs_remove_requests
proof unfold_locales
  fix q :: "request list" assume "mset q \<noteq> {#}"
  then show "\<exists>r q'. fcfs_peek q = Inr r \<and> fcfs_pop q = Inr (r, q') \<and> True \<and> mset q = add_mset r (mset q')"
    by (cases q) (simp_all add: fcfs_peek_def fcfs_pop_def)
next
  fix q :: "request list" and r :: request assume "\<exists>x \<in># mset q. obj_id x = obj_id r"
  then show "\<exists>x q'. fcfs_remove r q = Inr q' \<and> True \<and> obj_id x = obj_id r \<and> mset q = add_mset x (mset q')"
    using remove_object_some[of q r] by (auto simp: fcfs_remove_def)
qed (simp_all add: fcfs_add_def fcfs_pop_def fcfs_peek_def fcfs_prepend_def fcfs_prepend_requests_rev
    fcfs_remove_def fcfs_remove_requests_def remove_object_none)

text \<open>The order of requests is a strict weak order, so the heap operations are correct for it.\<close>

interpretation req: weak_order request_lt
proof
  show "\<not> request_lt a a" for a by (rule request_lt_irrefl)
  show "request_lt a b \<Longrightarrow> \<not> request_lt b a" for a b
    using request_lt_trans[of a b a] request_lt_irrefl by blast
  show "\<not> request_lt b a \<Longrightarrow> \<not> request_lt c b \<Longrightarrow> \<not> request_lt c a" for a b c
    by (auto simp: request_lt_def split: if_splits)
qed

lemma pq_pop_spec:
  assumes "is_heap request_lt h" "h \<noteq> []"
  obtains r h' where "pq_pop h = Inr (r, h')" "pq_peek h = Inr r" "is_heap request_lt h'"
    "mset h = add_mset r (mset h')" "\<forall>x \<in> set h. \<not> request_lt x r"
proof (cases "heappop request_lt h")
  case (Inl e)
  then show ?thesis using assms(2) by (simp add: heappop_Inl_iff)
next
  case (Inr rh)
  obtain r h' where rh: "rh = (r, h')" by (cases rh)
  note pop = Inr[unfolded rh]
  have h: "is_heap request_lt h'" "r = h ! 0" "\<forall>x \<in> set h. \<not> request_lt x r"
    using req.heappop_heap[OF assms(1) pop] by blast+
  have "pq_pop h = Inr (r, h')" "pq_peek h = Inr r" using pop h(2) assms(2) by (simp_all add: pq_pop_def pq_peek_def)
  then show ?thesis by (rule that[OF _ _ h(1) heappop_mset[OF pop] h(3)])
qed

lemma pq_prepend_requests_spec:
  "is_heap request_lt h \<Longrightarrow>
   is_heap request_lt (pq_prepend_requests rs h) \<and> mset (pq_prepend_requests rs h) = mset rs + mset h"
  unfolding pq_prepend_requests_def
  by (induction rs arbitrary: h) (simp_all add: pq_add_def req.heappush_heap)

interpretation pq: queue_contract "is_heap request_lt" mset pq_add pq_pop pq_peek pq_prepend
    pq_prepend_requests pq_remove pq_remove_requests
proof unfold_locales
  fix h assume "is_heap request_lt h" "mset h \<noteq> {#}"
  then have "is_heap request_lt h" "h \<noteq> []" by simp_all
  then obtain r h' where "pq_pop h = Inr (r, h')" "pq_peek h = Inr r" "is_heap request_lt h'"
    "mset h = add_mset r (mset h')" "\<forall>x \<in> set h. \<not> request_lt x r" by (rule pq_pop_spec)
  then show "\<exists>r q'. pq_peek h = Inr r \<and> pq_pop h = Inr (r, q') \<and> is_heap request_lt q' \<and> mset h = add_mset r (mset q')"
    by blast
next
  fix h :: "request list" and r :: request assume "\<exists>x \<in># mset h. obj_id x = obj_id r"
  then obtain x ys where "remove_object r h = Inr ys" "obj_id x = obj_id r" "mset h = add_mset x (mset ys)"
    using remove_object_some[of h r] by auto
  then show "\<exists>x q'. pq_remove r h = Inr q' \<and> is_heap request_lt q' \<and> obj_id x = obj_id r \<and>
      mset h = add_mset x (mset q')"
    by (auto simp: pq_remove_def req.heapify_heap)
qed (simp_all add: pq_add_def pq_pop_def pq_peek_def pq_prepend_def pq_prepend_requests_spec pq_remove_def
    pq_remove_requests_def remove_object_none req.heappush_heap req.heapify_heap)

fun rq_inv :: "request_queue \<Rightarrow> bool" where
  "rq_inv (FcfsQueue q) = True"
| "rq_inv (PriorityQueue h) = is_heap request_lt h"

fun rq_contents :: "request_queue \<Rightarrow> request multiset" where
  "rq_contents (FcfsQueue q) = mset q"
| "rq_contents (PriorityQueue h) = mset h"

definition rq_prepend_list :: "request list \<Rightarrow> request_queue \<Rightarrow> request_queue" where
  "rq_prepend_list rs q = rq_prepend_requests (FcfsQueue rs) q"

lemma rq_prepend_list_simps [simp]:
  "rq_prepend_list rs (FcfsQueue q) = FcfsQueue (fcfs_prepend_requests rs q)"
  "rq_prepend_list rs (PriorityQueue h) = PriorityQueue (pq_prepend_requests rs h)"
  by (simp_all add: rq_prepend_list_def)

interpretation rq: queue_contract rq_inv rq_contents rq_add rq_pop rq_peek rq_prepend rq_prepend_list
    rq_remove rq_remove_requests
proof unfold_locales
  fix q assume q: "rq_inv q" "rq_contents q \<noteq> {#}"
  show "\<exists>r q'. rq_peek q = Inr r \<and> rq_pop q = Inr (r, q') \<and> rq_inv q' \<and> rq_contents q = add_mset r (rq_contents q')"
  proof (cases q)
    case (FcfsQueue xs)
    then show ?thesis using fcfs.pop_some[of xs] q by auto
  next
    case (PriorityQueue h)
    then show ?thesis using pq.pop_some[of h] q by (auto simp del: fcfs.pop_some)
  qed
next
  fix q and r :: request assume q: "rq_inv q" "\<exists>x \<in># rq_contents q. obj_id x = obj_id r"
  show "\<exists>x q'. rq_remove r q = Inr q' \<and> rq_inv q' \<and> obj_id x = obj_id r \<and> rq_contents q = add_mset x (rq_contents q')"
  proof (cases q)
    case (FcfsQueue xs)
    then show ?thesis using fcfs.remove_some[of xs r] q by auto
  next
    case (PriorityQueue h)
    then show ?thesis using pq.remove_some[of h r] q by auto
  qed
next
  fix q and r :: request assume q: "\<forall>x \<in># rq_contents q. obj_id x \<noteq> obj_id r"
  show "rq_remove r q = Inl ValueError"
  proof (cases q)
    case (FcfsQueue xs)
    then show ?thesis using fcfs.remove_none[of xs r] q by simp
  next
    case (PriorityQueue h)
    then show ?thesis using pq.remove_none[of h r] q by simp
  qed
next
  fix q assume q: "rq_contents q = {#}"
  show "rq_pop q = Inl IndexError \<and> rq_peek q = Inl IndexError"
    using q fcfs.pop_none pq.pop_none by (cases q) simp_all
next
  fix q r assume q: "rq_inv q"
  show "rq_inv (rq_add r q) \<and> rq_contents (rq_add r q) = add_mset r (rq_contents q)"
    using q fcfs.add pq.add by (cases q) simp_all
  show "rq_inv (rq_prepend r q) \<and> rq_contents (rq_prepend r q) = add_mset r (rq_contents q)"
    using q fcfs.prepend pq.prepend by (cases q) simp_all
next
  fix q rs assume q: "rq_inv q"
  show "rq_inv (rq_prepend_list rs q) \<and> rq_contents (rq_prepend_list rs q) = mset rs + rq_contents q"
    using q fcfs.prepend_list pq.prepend_list by (cases q) simp_all
  show "rq_inv (rq_remove_requests rs q) \<and> rq_contents (rq_remove_requests rs q) =
      filter_mset (\<lambda>x. obj_id x \<notin> obj_id ` set rs) (rq_contents q)"
    using q fcfs.remove_list pq.remove_list by (cases q) simp_all
qed

lemma rq_iter_mset [simp]: "mset (rq_iter q) = rq_contents q"
  by (cases q) (simp_all add: pq_iter_def heap_drain_mset)

lemma rq_prepend_requests_list: "rq_prepend_requests other q = rq_prepend_list (rq_iter other) q"
  by (cases q) simp_all

lemma rq_len_size: "rq_len q = size (rq_contents q)"
  by (cases q) simp_all

lemma rq_bool_iff: "rq_bool q \<longleftrightarrow> rq_contents q \<noteq> {#}"
  by (simp add: rq_bool_def rq_len_size nonempty_has_size)

lemma rq_peek_minimum:
  assumes "rq_inv (PriorityQueue h)" "rq_peek (PriorityQueue h) = Inr r" "x \<in> set h"
  shows "\<not> request_lt x r"
  using assms req.heap_root_least[of h] by (auto simp: pq_peek_def in_set_conv_nth split: if_splits)

section \<open>Runs of a queue\<close>

inductive queue_run :: "scheduling_policy \<Rightarrow> request_queue \<Rightarrow> bool" for policy where
  run_create: "queue_run policy (create_request_queue policy)"
| run_add: "queue_run policy q \<Longrightarrow> queue_run policy (rq_add r q)"
| run_pop: "queue_run policy q \<Longrightarrow> rq_pop q = Inr (r, q') \<Longrightarrow> queue_run policy q'"
| run_prepend: "queue_run policy q \<Longrightarrow> queue_run policy (rq_prepend r q)"
| run_prepend_requests: "queue_run policy q \<Longrightarrow> queue_run policy (rq_prepend_requests other q)"
| run_remove: "queue_run policy q \<Longrightarrow> rq_remove r q = Inr q' \<Longrightarrow> queue_run policy q'"
| run_remove_requests: "queue_run policy q \<Longrightarrow> queue_run policy (rq_remove_requests rs q)"

fun has_policy :: "scheduling_policy \<Rightarrow> request_queue \<Rightarrow> bool" where
  "has_policy policy (FcfsQueue q) = (policy = FCFS)"
| "has_policy policy (PriorityQueue h) = (policy = PRIORITY)"

lemma rq_remove_inv: "rq_inv q \<Longrightarrow> rq_remove r q = Inr q' \<Longrightarrow> rq_inv q'"
  using rq.remove_some[of q r] rq.remove_none[of q r] by (cases "\<exists>x \<in># rq_contents q. obj_id x = obj_id r") auto

lemma queue_run_inv: "queue_run policy q \<Longrightarrow> rq_inv q \<and> has_policy policy q"
proof (induction rule: queue_run.induct)
  case run_create
  then show ?case by (cases policy) (simp_all add: heap_from_def)
next
  case (run_add q r)
  then show ?case using rq.add[of q r] by (cases q) simp_all
next
  case (run_pop q r q')
  then have "rq_inv q'" using rq.pop_Inr by blast
  moreover have "has_policy policy q'" using run_pop by (cases q) (auto elim!: bindE_InrE)
  ultimately show ?case by simp
next
  case (run_prepend q r)
  then show ?case using rq.prepend[of q r] by (cases q) simp_all
next
  case (run_prepend_requests q other)
  then show ?case using rq.prepend_list[of q "rq_iter other"]
    by (cases q) (simp_all add: rq_prepend_requests_list)
next
  case (run_remove q r q')
  then have "rq_inv q'" using rq_remove_inv by blast
  moreover have "has_policy policy q'" using run_remove by (cases q) (auto elim!: bindE_InrE)
  ultimately show ?case by simp
next
  case (run_remove_requests q rs)
  then show ?case using rq.remove_list[of q rs] by (cases q) simp_all
qed

section \<open>Properties\<close>

text \<open>
  Whatever sequence of its methods runs, a queue stays an object of the class of its policy,
  and a priority queue stays a heap: no request in it is smaller than its parent.
\<close>

lemma queue_well_formed:
  assumes "queue_run policy q"
  shows "has_policy policy q \<and> (\<forall>h. q = PriorityQueue h \<longrightarrow> is_heap request_lt h)"
  using queue_run_inv[OF assms] by auto

definition example_queue :: "scheduling_policy \<Rightarrow> request_queue" where
  "example_queue policy =
     rq_add (example_request ''b'' [1]\<lparr>obj_id := 2, priority := 1\<rparr>)
       (rq_add (example_request ''a'' [1]\<lparr>obj_id := 1, priority := 5\<rparr>) (create_request_queue policy))"

lemma example_queue_run: "queue_run policy (example_queue policy)"
  unfolding example_queue_def by (intro run_add run_create)

lemma queue_well_formed_witness:
  "has_policy PRIORITY (example_queue PRIORITY)"
  using queue_well_formed[OF example_queue_run[of PRIORITY]] by blast

text \<open>
  C25: a priority queue that holds a request pops one that no other request in it precedes in the
  order of priority, arrival time, id, and removes only that one. The request popped is the one
  \<open>peek_request\<close> showed.
\<close>

theorem priority_pop_minimum:
  assumes "queue_run PRIORITY q" "rq_bool q"
  shows "\<exists>r q'. rq_pop q = Inr (r, q') \<and> rq_peek q = Inr r \<and> rq_contents q = add_mset r (rq_contents q') \<and>
    (\<forall>x \<in># rq_contents q. \<not> request_lt x r)"
proof -
  obtain h where h: "q = PriorityQueue h" "rq_inv (PriorityQueue h)"
    using queue_run_inv[OF assms(1)] by (cases q) simp_all
  obtain r q' where r: "rq_peek q = Inr r" "rq_pop q = Inr (r, q')" "rq_contents q = add_mset r (rq_contents q')"
    using rq.pop_some[of q] h assms(2) by (auto simp: rq_bool_iff)
  moreover have "\<forall>x \<in># rq_contents q. \<not> request_lt x r"
    using rq_peek_minimum[OF h(2), of r] r(1) h(1) by simp
  ultimately show ?thesis by blast
qed

theorem priority_pop_minimum_witness:
  "\<exists>r q'. rq_pop (example_queue PRIORITY) = Inr (r, q') \<and>
     (\<forall>x \<in># rq_contents (example_queue PRIORITY). \<not> request_lt x r)"
proof -
  have "rq_bool (example_queue PRIORITY)"
    using rq.add queue_run_inv[OF run_create[of PRIORITY]] by (simp add: example_queue_def rq_bool_iff pq_add_def)
  then show ?thesis using priority_pop_minimum[OF example_queue_run] by blast
qed

text \<open>
  With the priority policy the scheduler takes the next request from the queue whose head no
  waiting and no skipped request precedes; it finds no queue exactly when both are empty, and
  the choice never raises.
\<close>

lemma select_waiting_queue_minimum:
  assumes "queue_run PRIORITY waiting" "queue_run PRIORITY skipped"
  shows "\<exists>choice. select_waiting_queue PRIORITY waiting skipped = Inr choice \<and>
    (choice = None \<longleftrightarrow> rq_contents waiting + rq_contents skipped = {#}) \<and>
    (\<forall>c. choice = Some c \<longrightarrow> (\<exists>r. rq_peek (case c of Waiting \<Rightarrow> waiting | SkippedWaiting \<Rightarrow> skipped) = Inr r \<and>
       (\<forall>x \<in># rq_contents waiting + rq_contents skipped. \<not> request_lt x r)))"
proof -
  obtain w where w: "waiting = PriorityQueue w" "rq_inv (PriorityQueue w)"
    using queue_run_inv[OF assms(1)] by (cases waiting) simp_all
  obtain s where s: "skipped = PriorityQueue s" "rq_inv (PriorityQueue s)"
    using queue_run_inv[OF assms(2)] by (cases skipped) simp_all
  have peek: "\<exists>r. rq_peek (PriorityQueue h) = Inr r" if "h \<noteq> []" for h
    using that by (simp add: pq_peek_def)
  show ?thesis
  proof (cases "w = [] \<or> s = []")
    case True
    then show ?thesis
      using w s peek[of w] peek[of s] rq_peek_minimum[OF w(2)] rq_peek_minimum[OF s(2)]
      by (auto simp: select_waiting_queue_def rq_bool_iff)
  next
    case False
    then obtain a b where a: "rq_peek waiting = Inr a" and b: "rq_peek skipped = Inr b"
      using peek[of w] peek[of s] w(1) s(1) by auto
    have mw: "\<not> request_lt x a" if "x \<in> set w" for x using rq_peek_minimum[OF w(2) _ that] a w(1) by simp
    have ms: "\<not> request_lt x b" if "x \<in> set s" for x using rq_peek_minimum[OF s(2) _ that] b s(1) by simp
    have "\<not> request_lt x a" if "request_lt a b" "x \<in> set s" for x
      using req.lt_le_trans[OF that(1) ms[OF that(2)]] .
    moreover have "\<not> request_lt x b" if "\<not> request_lt a b" "x \<in> set w" for x
      using req.not_lt_trans[OF that(1) mw[OF that(2)]] .
    ultimately show ?thesis
      using False a b mw ms w(1) s(1) by (auto simp: select_waiting_queue_def rq_bool_iff)
  qed
qed

lemma select_waiting_queue_minimum_witness:
  "\<exists>choice. select_waiting_queue PRIORITY (example_queue PRIORITY) (example_queue PRIORITY) = Inr choice \<and>
    (choice = None \<longleftrightarrow> rq_contents (example_queue PRIORITY) + rq_contents (example_queue PRIORITY) = {#})"
  using select_waiting_queue_minimum[OF example_queue_run example_queue_run] by blast

lemma skip_front_fcfs:
  "n \<le> length q \<Longrightarrow>
   skip_front n (FcfsQueue q) (FcfsQueue s) = Inr (FcfsQueue (drop n q), FcfsQueue (rev (take n q) @ s))"
  unfolding skip_front_def
proof (induction n arbitrary: q s)
  case (Suc n)
  then obtain r rest where "q = r # rest" by (cases q) auto
  then show ?case using Suc by (simp add: fcfs_pop_def fcfs_prepend_def)
qed simp

text \<open>
  With the first-come policy, setting the first requests aside during a step and prepending
  them at the end of it restores the queue: the reversal of \<open>prepend_requests\<close> undoes the
  reversal of prepending one by one, so no waiting request overtakes another.
\<close>

lemma fcfs_skip_restores_order:
  assumes "n \<le> length q"
  shows "bindE (skip_front n (FcfsQueue q) (create_request_queue FCFS))
           (\<lambda>(q', aside). Inr (rq_prepend_requests aside q')) = Inr (FcfsQueue q)"
  using skip_front_fcfs[OF assms, of "[]"] by (simp add: fcfs_prepend_requests_rev)

lemma fcfs_skip_restores_order_witness:
  "bindE (skip_front 1 (FcfsQueue [example_request ''a'' [1], example_request ''b'' [2]]) (create_request_queue FCFS))
     (\<lambda>(q', aside). Inr (rq_prepend_requests aside q')) =
   Inr (FcfsQueue [example_request ''a'' [1], example_request ''b'' [2]])"
  using fcfs_skip_restores_order[of 1 "[example_request ''a'' [1], example_request ''b'' [2]]"] by simp

text \<open>
  C26: with either policy, setting requests aside and putting them back in front of any queue of
  the scheduler loses and duplicates none, and never raises while the queue holds enough.
\<close>

theorem skip_conserves_requests:
  assumes "queue_run policy q" "queue_run policy s" "n \<le> rq_len q"
  shows "\<exists>q' aside. skip_front n q (create_request_queue policy) = Inr (q', aside) \<and>
    rq_len aside = n \<and>
    rq_contents q' + rq_contents (rq_prepend_requests aside s) = rq_contents q + rq_contents s"
proof -
  let ?new = "create_request_queue policy"
  have inv: "rq_inv q" "rq_inv s" "rq_inv ?new" using queue_run_inv assms(1,2) run_create by blast+
  have new: "rq_contents ?new = {#}" by (cases policy) simp_all
  obtain q' aside where m: "skip_front n q ?new = Inr (q', aside)"
      "size (rq_contents q') = size (rq_contents q) - n"
    using rq.move_front_returns[OF inv(1), of n ?new] assms(3) by (auto simp: rq_len_size skip_front_def)
  then have c: "rq_contents q' + rq_contents aside = rq_contents q"
    using rq.move_front_conserves[OF inv(1,3)] new by (simp add: skip_front_def)
  have "rq_len aside = n"
    using arg_cong[OF c, of size] m(2) assms(3) by (simp add: rq_len_size)
  moreover have "rq_contents (rq_prepend_requests aside s) = rq_contents aside + rq_contents s"
    using rq.prepend_list[OF inv(2), of "rq_iter aside"] by (simp add: rq_prepend_requests_list)
  ultimately show ?thesis using m(1) c by (simp add: ac_simps)
qed

theorem skip_conserves_requests_witness:
  "\<exists>q' aside. skip_front 1 (example_queue PRIORITY) (create_request_queue PRIORITY) = Inr (q', aside) \<and>
    rq_len aside = 1"
proof -
  have "1 \<le> rq_len (example_queue PRIORITY)" by (simp add: rq_len_size example_queue_def pq_add_def)
  then show ?thesis using skip_conserves_requests[OF example_queue_run example_queue_run] by blast
qed

end
