(* ===== verification/Encoder_Cache.thy ===== *)
theory Encoder_Cache
  imports Requests
begin

text \<open>
  The encoder caches of multimodal requests: \<open>vllm/v1/core/encoder_cache_manager.py\<close>. A Python
  set of request ids is a set, the ordered dictionary of freeable entries an association list
  with the oldest entry first. The eviction loop of \<open>can_allocate\<close> runs down that list and raises
  when it is empty, as \<open>popitem\<close> does.
\<close>

section \<open>The cache of encoder outputs\<close>

record encoder_cache =
  cache_size :: int
  num_free_slots :: int
  num_freeable_slots :: int
  cached_refs :: "(string, string set) dict"
  freeable :: "(string, int) dict"
  freed :: "string list"

definition ecm_init :: "int \<Rightarrow> encoder_cache" where
  "ecm_init n =
     \<lparr>cache_size = n, num_free_slots = n, num_freeable_slots = n, cached_refs = [], freeable = [], freed = []\<rparr>"

definition ecm_reset :: "encoder_cache \<Rightarrow> encoder_cache" where
  "ecm_reset m =
     m\<lparr>cached_refs := [], freeable := [], freed := [], num_free_slots := cache_size m,
       num_freeable_slots := cache_size m\<rparr>"

definition check_and_update_cache :: "request \<Rightarrow> int \<Rightarrow> encoder_cache \<Rightarrow> (bool \<times> encoder_cache) result" where
  "check_and_update_cache r input_id m =
     bindE (py_nth (mm_features r) input_id) (\<lambda>f.
       let h = mm_identifier f in
       case dget (cached_refs m) h of
         None \<Rightarrow> Inr (False, m)
       | Some ids \<Rightarrow>
           bindE (if ids = {}
                  then (case dget (freeable m) h of
                          None \<Rightarrow> Inl KeyError
                        | Some n \<Rightarrow> Inr (m\<lparr>freeable := ddel h (freeable m),
                                            num_freeable_slots := num_freeable_slots m - n\<rparr>))
                  else Inr m) (\<lambda>m'.
           Inr (True, m'\<lparr>cached_refs := dset h (insert (request_id r) ids) (cached_refs m')\<rparr>)))"

fun evict_entries :: "int \<Rightarrow> (string \<times> int) list \<Rightarrow> encoder_cache \<Rightarrow> encoder_cache result" where
  "evict_entries need [] m = (if num_free_slots m < need then Inl KeyError else Inr m)"
| "evict_entries need ((h, n) # rest) m =
     (if num_free_slots m < need
      then (if dget (cached_refs m) h = None then Inl KeyError
            else evict_entries need rest
              (m\<lparr>freeable := rest, cached_refs := ddel h (cached_refs m), freed := freed m @ [h],
                 num_free_slots := num_free_slots m + n\<rparr>))
      else Inr m)"

definition can_allocate :: "request \<Rightarrow> int \<Rightarrow> int \<Rightarrow> int \<Rightarrow> encoder_cache \<Rightarrow> (bool \<times> encoder_cache) result" where
  "can_allocate r input_id compute_budget num_to_schedule m =
     bindE (get_num_encoder_embeds r input_id) (\<lambda>num_embeds.
       if compute_budget < num_embeds then Inr (False, m)
       else let need = num_embeds + num_to_schedule in
         if need \<le> num_free_slots m then Inr (True, m)
         else if num_freeable_slots m < need then Inr (False, m)
         else bindE (evict_entries need (freeable m) m) (\<lambda>m'. Inr (True, m')))"

definition ecm_allocate :: "request \<Rightarrow> int \<Rightarrow> encoder_cache \<Rightarrow> encoder_cache result" where
  "ecm_allocate r input_id m =
     bindE (py_nth (mm_features r) input_id) (\<lambda>f.
       let h = mm_identifier f;
           ids = (case dget (cached_refs m) h of None \<Rightarrow> {} | Some ids \<Rightarrow> ids) in
       bindE (get_num_encoder_embeds r input_id) (\<lambda>n.
       bindE (assertE (n \<le> num_free_slots m)) (\<lambda>_.
       bindE (assertE (n \<le> num_freeable_slots m)) (\<lambda>_.
       Inr (m\<lparr>cached_refs := dset h (insert (request_id r) ids) (cached_refs m),
              num_free_slots := num_free_slots m - n,
              num_freeable_slots := num_freeable_slots m - n\<rparr>)))))"

definition get_cached_input_ids :: "request \<Rightarrow> encoder_cache \<Rightarrow> int list" where
  "get_cached_input_ids r m =
     filter (\<lambda>i. dget (cached_refs m) (mm_identifier (mm_features r ! nat i)) \<noteq> None)
       [0..int (length (mm_features r)) - 1]"

definition free_encoder_input :: "request \<Rightarrow> int \<Rightarrow> encoder_cache \<Rightarrow> encoder_cache result" where
  "free_encoder_input r input_id m =
     bindE (py_nth (mm_features r) input_id) (\<lambda>f.
       let h = mm_identifier f in
       case dget (cached_refs m) h of
         None \<Rightarrow> Inr m
       | Some ids \<Rightarrow>
           if ids = {} then Inr m
           else let ids' = ids - {request_id r}; m' = m\<lparr>cached_refs := dset h ids' (cached_refs m)\<rparr> in
             if ids' = {}
             then bindE (get_num_encoder_embeds r input_id) (\<lambda>n.
                    Inr (m'\<lparr>freeable := dset h n (freeable m'),
                            num_freeable_slots := num_freeable_slots m' + n\<rparr>))
             else Inr m')"

definition ecm_free :: "request \<Rightarrow> encoder_cache \<Rightarrow> encoder_cache result" where
  "ecm_free r m = foldE (free_encoder_input r) (get_cached_input_ids r m) m"

definition get_freed_mm_hashes :: "encoder_cache \<Rightarrow> string list \<times> encoder_cache" where
  "get_freed_mm_hashes m = (freed m, m\<lparr>freed := []\<rparr>)"

section \<open>The budget\<close>

record scheduler_config =
  disable_chunked_mm_input :: bool
  max_num_batched_tokens :: int
  max_num_encoder_input_tokens :: int
  encoder_cache_size :: int

definition compute_mm_encoder_budget :: "scheduler_config \<Rightarrow> (string, int) dict \<Rightarrow> (int \<times> int) result" where
  "compute_mm_encoder_budget cfg max_toks =
     (if max_toks = [] then Inr (0, 0)
      else let biggest = Max (snd ` set max_toks) in
        if disable_chunked_mm_input cfg \<and> max_num_batched_tokens cfg < biggest then Inl ValueError
        else Inr (max (max_num_encoder_input_tokens cfg) biggest, max (encoder_cache_size cfg) biggest))"

section \<open>The manager of encoder-decoder models\<close>

record encdec_cache =
  ed_cache_size :: int
  ed_num_free_slots :: int
  ed_allocated :: "string list"
  ed_to_free :: "string list"

definition ed_init :: "int \<Rightarrow> encdec_cache" where
  "ed_init n = \<lparr>ed_cache_size = n, ed_num_free_slots = n, ed_allocated = [], ed_to_free = []\<rparr>"

definition ed_reset :: "encdec_cache \<Rightarrow> encdec_cache" where
  "ed_reset m = m\<lparr>ed_num_free_slots := ed_cache_size m, ed_allocated := [], ed_to_free := []\<rparr>"

definition ed_can_allocate :: "request \<Rightarrow> int \<Rightarrow> int \<Rightarrow> int \<Rightarrow> encdec_cache \<Rightarrow> bool result" where
  "ed_can_allocate r input_id compute_budget num_to_schedule m =
     bindE (get_num_encoder_embeds r input_id) (\<lambda>n.
       Inr (if compute_budget < n then False else n + num_to_schedule \<le> ed_num_free_slots m))"

definition ed_allocate :: "request \<Rightarrow> int \<Rightarrow> encdec_cache \<Rightarrow> encdec_cache result" where
  "ed_allocate r input_id m =
     bindE (get_num_encoder_embeds r input_id) (\<lambda>n.
     bindE (py_nth (mm_features r) input_id) (\<lambda>f.
       Inr (m\<lparr>ed_num_free_slots := ed_num_free_slots m - n, ed_allocated := ed_allocated m @ [mm_identifier f]\<rparr>)))"

definition ed_free_encoder_input :: "request \<Rightarrow> int \<Rightarrow> encdec_cache \<Rightarrow> encdec_cache result" where
  "ed_free_encoder_input r input_id m =
     bindE (get_num_encoder_embeds r input_id) (\<lambda>n. Inr (m\<lparr>ed_num_free_slots := ed_num_free_slots m + n\<rparr>))"

definition ed_get_cached_input_ids :: "request \<Rightarrow> int list" where
  "ed_get_cached_input_ids r = [0..int (length (mm_features r)) - 1]"

definition ed_free :: "request \<Rightarrow> encdec_cache \<Rightarrow> encdec_cache result" where
  "ed_free r m = foldE (ed_free_encoder_input r) [0..int (length (mm_features r)) - 1] m"

definition ed_get_freed_mm_hashes :: "encdec_cache \<Rightarrow> string list \<times> encdec_cache" where
  "ed_get_freed_mm_hashes m = (ed_to_free m, m\<lparr>ed_to_free := ed_allocated m, ed_allocated := []\<rparr>)"

section \<open>Freeing inputs the decoder has consumed\<close>

text \<open>
  \<open>Scheduler._free_encoder_inputs\<close>, for a model with the encoder cache and for an
  encoder-decoder model, whose manager reports every input as cached.
\<close>

definition free_encoder_inputs :: "request \<Rightarrow> encoder_cache \<Rightarrow> encoder_cache result" where
  "free_encoder_inputs r m =
     foldE (\<lambda>i m. bindE (py_nth (mm_features r) i) (\<lambda>f.
         if offset (mm_position f) + plength (mm_position f) \<le> num_computed_tokens r
         then free_encoder_input r i m else Inr m))
       (get_cached_input_ids r m) m"

definition ed_free_encoder_inputs :: "request \<Rightarrow> encdec_cache \<Rightarrow> encdec_cache result" where
  "ed_free_encoder_inputs r m =
     foldE (\<lambda>i m. bindE (py_nth (mm_features r) i) (\<lambda>f.
         if 0 < num_computed_tokens r then ed_free_encoder_input r i m
         else if offset (mm_position f) + plength (mm_position f) \<le> num_computed_tokens r
         then ed_free_encoder_input r i m else Inr m))
       (ed_get_cached_input_ids r) m"

section \<open>The slot invariant\<close>

definition entry_sum :: "('k \<Rightarrow> 'v \<Rightarrow> int) \<Rightarrow> ('k, 'v) dict \<Rightarrow> int" where
  "entry_sum f d = sum_list (map (\<lambda>(k, v). f k v) d)"

lemma entry_sum_simps [simp]: "entry_sum f [] = 0" "entry_sum f ((k, v) # d) = f k v + entry_sum f d"
  by (simp_all add: entry_sum_def)

lemma entry_sum_dset:
  "dict_ok d \<Longrightarrow> entry_sum f (dset k v d) = entry_sum f d - (case dget d k of None \<Rightarrow> 0 | Some w \<Rightarrow> f k w) + f k v"
proof (induction d)
  case (Cons p d)
  then show ?case by (cases p) auto
qed simp

lemma entry_sum_ddel:
  "dict_ok d \<Longrightarrow> entry_sum f (ddel k d) = entry_sum f d - (case dget d k of None \<Rightarrow> 0 | Some w \<Rightarrow> f k w)"
proof (induction d)
  case (Cons p d)
  show ?case
  proof (cases "fst p = k")
    case True
    then have "ddel k d = d" using Cons.prems by (intro ddel_absent) (auto simp: dget_None_iff)
    then show ?thesis using True by (cases p) simp
  next
    case False
    then show ?thesis using Cons by (cases p) simp
  qed
qed simp

lemma entry_sum_cong: "(\<And>k v. (k, v) \<in> set d \<Longrightarrow> f k v = g k v) \<Longrightarrow> entry_sum f d = entry_sum g d"
  unfolding entry_sum_def by (rule arg_cong[of _ _ sum_list]) (auto intro: map_cong)

lemma entry_sum_nonneg: "(\<And>k v. 0 \<le> f k v) \<Longrightarrow> 0 \<le> entry_sum f d"
  unfolding entry_sum_def by (rule sum_list_nonneg) auto

lemma entry_sum_mono: "(\<And>k v. f k v \<le> g k v) \<Longrightarrow> entry_sum f d \<le> entry_sum g d"
  unfolding entry_sum_def by (rule sum_list_mono) (auto simp: case_prod_beta)

text \<open>
  \<open>sz\<close> gives the number of embeddings of each identifier: items with one identifier have the same
  embeddings. An entry takes its size out of the free slots, and out of the freeable slots only
  while a request refers to it; the freeable entries are the ones no request refers to.
\<close>

abbreviation pinned :: "(string \<Rightarrow> int) \<Rightarrow> string \<Rightarrow> string set \<Rightarrow> int" where
  "pinned sz h ids \<equiv> if ids = {} then 0 else sz h"

definition enc_inv :: "(string \<Rightarrow> int) \<Rightarrow> encoder_cache \<Rightarrow> bool" where
  "enc_inv sz m \<longleftrightarrow>
     dict_ok (cached_refs m) \<and> dict_ok (freeable m) \<and> (\<forall>h. 0 \<le> sz h) \<and> 0 \<le> num_free_slots m \<and>
     (\<forall>h n. dget (freeable m) h = Some n \<longleftrightarrow> dget (cached_refs m) h = Some {} \<and> n = sz h) \<and>
     num_free_slots m = cache_size m - entry_sum (\<lambda>h ids. sz h) (cached_refs m) \<and>
     num_freeable_slots m = cache_size m - entry_sum (pinned sz) (cached_refs m)"

definition sized :: "(string \<Rightarrow> int) \<Rightarrow> request \<Rightarrow> bool" where
  "sized sz r \<longleftrightarrow>
     (\<forall>f \<in> set (mm_features r). get_num_embeds (mm_position f) = Inr (sz (mm_identifier f)))"

definition valid_input :: "request \<Rightarrow> int \<Rightarrow> bool" where
  "valid_input r i \<longleftrightarrow> 0 \<le> i \<and> i < int (length (mm_features r))"

definition input_hash :: "request \<Rightarrow> int \<Rightarrow> string" where
  "input_hash r i = mm_identifier (mm_features r ! nat i)"

lemma input_nth:
  assumes "valid_input r i"
  shows "\<exists>f. py_nth (mm_features r) i = Inr f \<and> mm_identifier f = input_hash r i"
  using assms by (simp add: valid_input_def py_nth_nonneg input_hash_def)

lemma input_embeds:
  assumes "valid_input r i" "sized sz r"
  shows "get_num_encoder_embeds r i = Inr (sz (input_hash r i))"
proof -
  have "mm_features r ! nat i \<in> set (mm_features r)" using assms(1) by (simp add: valid_input_def nat_less_iff)
  then show ?thesis
    using assms by (simp add: valid_input_def get_num_encoder_embeds_def py_nth_nonneg sized_def input_hash_def)
qed

lemma enc_invD:
  assumes "enc_inv sz m"
  shows "dict_ok (cached_refs m)" "dict_ok (freeable m)" "0 \<le> sz h" "0 \<le> num_free_slots m"
    "dget (freeable m) h = Some n \<longleftrightarrow> dget (cached_refs m) h = Some {} \<and> n = sz h"
    "num_free_slots m = cache_size m - entry_sum (\<lambda>h ids. sz h) (cached_refs m)"
    "num_freeable_slots m = cache_size m - entry_sum (pinned sz) (cached_refs m)"
  using assms unfolding enc_inv_def by blast+

lemma enc_inv_slots:
  assumes "enc_inv sz m"
  shows "num_free_slots m \<le> num_freeable_slots m" "num_freeable_slots m \<le> cache_size m"
proof -
  have "entry_sum (pinned sz) (cached_refs m) \<le> entry_sum (\<lambda>h ids. sz h) (cached_refs m)"
    using enc_invD(3)[OF assms] by (intro entry_sum_mono) simp
  then show "num_free_slots m \<le> num_freeable_slots m" using enc_invD(6,7)[OF assms] by simp
  have "0 \<le> entry_sum (pinned sz) (cached_refs m)" using enc_invD(3)[OF assms] by (intro entry_sum_nonneg) simp
  then show "num_freeable_slots m \<le> cache_size m" using enc_invD(7)[OF assms] by simp
qed

lemma ecm_init_inv: "0 \<le> n \<Longrightarrow> (\<And>h. 0 \<le> sz h) \<Longrightarrow> enc_inv sz (ecm_init n)"
  by (simp add: enc_inv_def ecm_init_def)

lemma ecm_reset_inv: "enc_inv sz m \<Longrightarrow> enc_inv sz (ecm_reset m)"
proof -
  assume inv: "enc_inv sz m"
  have "0 \<le> cache_size m" using enc_inv_slots[OF inv] enc_invD(4)[OF inv] by linarith
  then show ?thesis using enc_invD(3)[OF inv] by (simp add: enc_inv_def ecm_reset_def)
qed

text \<open>The one step behind the operations: an entry changes its set of references.\<close>

lemma enc_inv_set_refs:
  assumes inv: "enc_inv sz m" and old: "dget (cached_refs m) h = Some ids"
    and fr: "\<And>k. dget fr k = (if k = h then (if ids' = {} then Some (sz h) else None) else dget (freeable m) k)"
    and ok: "dict_ok fr"
    and slots: "n = num_freeable_slots m + pinned sz h ids - pinned sz h ids'"
  shows "enc_inv sz (m\<lparr>cached_refs := dset h ids' (cached_refs m), freeable := fr, num_freeable_slots := n\<rparr>)"
proof -
  note D = enc_invD[OF inv]
  have free: "dget fr k = Some v \<longleftrightarrow> dget (dset h ids' (cached_refs m)) k = Some {} \<and> v = sz k" for k v
  proof (cases "k = h")
    case False
    then show ?thesis using D(5)[of k v] fr[of k] by simp
  qed (use fr in auto)
  have "num_free_slots m = cache_size m - entry_sum (\<lambda>h ids. sz h) (dset h ids' (cached_refs m))"
    using D(6) old by (simp add: entry_sum_dset[OF D(1)])
  moreover have "n = cache_size m - entry_sum (pinned sz) (dset h ids' (cached_refs m))"
    using D(7) old slots by (simp add: entry_sum_dset[OF D(1)])
  ultimately show ?thesis
    unfolding enc_inv_def using free ok D(3,4) dict_ok_dset[OF D(1)] by simp
qed

lemma enc_inv_same_freeable:
  assumes "enc_inv sz m" "dget (cached_refs m) h = Some ids" "ids \<noteq> {}" "ids' \<noteq> {}"
  shows "enc_inv sz (m\<lparr>cached_refs := dset h ids' (cached_refs m)\<rparr>)"
proof -
  have "dget (freeable m) h = None" using enc_invD(5)[OF assms(1), of h] assms(2,3) by (cases "dget (freeable m) h") auto
  then have "enc_inv sz (m\<lparr>cached_refs := dset h ids' (cached_refs m), freeable := freeable m,
      num_freeable_slots := num_freeable_slots m\<rparr>)"
    using assms enc_invD(2)[OF assms(1)] by (intro enc_inv_set_refs) auto
  then show ?thesis by simp
qed

definition refers :: "string \<Rightarrow> string \<Rightarrow> encoder_cache \<Rightarrow> bool" where
  "refers rid h m \<longleftrightarrow> (\<exists>ids. dget (cached_refs m) h = Some ids \<and> rid \<in> ids)"

section \<open>Lemmas on the operations\<close>

lemma check_and_update_spec:
  assumes inv: "enc_inv sz m" and i: "valid_input r i"
  obtains m' where
    "check_and_update_cache r i m = Inr (dget (cached_refs m) (input_hash r i) \<noteq> None, m')"
    "enc_inv sz m'" "cache_size m' = cache_size m" "num_free_slots m' = num_free_slots m"
    "\<forall>rid h. refers rid h m \<longrightarrow> refers rid h m'"
    "dkeys (cached_refs m') = dkeys (cached_refs m)"
    "dget (cached_refs m) (input_hash r i) \<noteq> None \<longrightarrow> refers (request_id r) (input_hash r i) m'"
    "dget (cached_refs m) (input_hash r i) = None \<longrightarrow> m' = m"
proof -
  let ?h = "input_hash r i"
  obtain f where f: "py_nth (mm_features r) i = Inr f" "mm_identifier f = ?h" using input_nth[OF i] by blast
  show thesis
  proof (cases "dget (cached_refs m) ?h")
    case None
    then show ?thesis using that[of m] f inv by (simp add: check_and_update_cache_def)
  next
    case (Some ids)
    let ?ids = "insert (request_id r) ids"
    have keys: "dkeys (dset ?h ?ids (cached_refs m)) = dkeys (cached_refs m)"
      using Some by (auto simp: update_keys dest: map_of_SomeD intro: rev_image_eqI)
    have kept: "refers rid h m \<longrightarrow> refers rid h (m\<lparr>cached_refs := dset ?h ?ids (cached_refs m), freeable := fr, num_freeable_slots := n\<rparr>)"
      for rid h fr n using Some by (auto simp: refers_def)
    show ?thesis
    proof (cases "ids = {}")
      case True
      then have fr: "dget (freeable m) ?h = Some (sz ?h)" using enc_invD(5)[OF inv] Some by blast
      let ?m = "m\<lparr>cached_refs := dset ?h ?ids (cached_refs m), freeable := ddel ?h (freeable m),
                   num_freeable_slots := num_freeable_slots m - sz ?h\<rparr>"
      have "enc_inv sz ?m"
        by (rule enc_inv_set_refs[OF inv Some]) (use True enc_invD(2)[OF inv] in simp_all)
      moreover have "check_and_update_cache r i m = Inr (True, ?m)"
        using f Some True fr by (simp add: check_and_update_cache_def Let_def)
      ultimately show ?thesis using that[of ?m] Some keys kept by (simp add: refers_def)
    next
      case False
      let ?m = "m\<lparr>cached_refs := dset ?h ?ids (cached_refs m)\<rparr>"
      have "enc_inv sz ?m" by (rule enc_inv_same_freeable[OF inv Some False]) simp
      moreover have "check_and_update_cache r i m = Inr (True, ?m)"
        using f Some False by (simp add: check_and_update_cache_def Let_def)
      moreover have "\<forall>rid h. refers rid h m \<longrightarrow> refers rid h ?m" using Some by (auto simp: refers_def)
      ultimately show ?thesis using that[of ?m] Some keys by (simp add: refers_def)
    qed
  qed
qed

text \<open>Evicting the oldest freeable entry keeps the invariant and the freeable slots.\<close>

lemma evict_one:
  assumes inv: "enc_inv sz m" and fr: "freeable m = (h, n) # rest"
  defines "m' \<equiv> m\<lparr>freeable := rest, cached_refs := ddel h (cached_refs m), freed := freed m @ [h],
                  num_free_slots := num_free_slots m + n\<rparr>"
  shows "enc_inv sz m'" "dget (cached_refs m) h = Some {}" "n = sz h"
proof -
  note D = enc_invD[OF inv]
  have h: "dget (cached_refs m) h = Some {} \<and> n = sz h" using D(5)[of h n] fr by simp
  then show "dget (cached_refs m) h = Some {}" "n = sz h" by simp_all
  have rest: "dget rest k = (if k = h then None else dget (freeable m) k)" for k
    using D(2) fr by (auto simp: dget_None_iff)
  have "dget rest k = Some v \<longleftrightarrow> dget (ddel h (cached_refs m)) k = Some {} \<and> v = sz k" for k v
    using D(5)[of k v] rest[of k] by simp
  moreover have "num_free_slots m + n = cache_size m - entry_sum (\<lambda>h ids. sz h) (ddel h (cached_refs m))"
    using D(6) h by (simp add: entry_sum_ddel[OF D(1)])
  moreover have "num_freeable_slots m = cache_size m - entry_sum (pinned sz) (ddel h (cached_refs m))"
    using D(7) h by (simp add: entry_sum_ddel[OF D(1)])
  moreover have "0 \<le> num_free_slots m + n" using D(4) D(3)[of h] h by simp
  ultimately show "enc_inv sz m'"
    unfolding enc_inv_def m'_def using D(2,3) fr dict_ok_ddel[OF D(1)] by simp
qed

lemma no_freeable_slots:
  assumes inv: "enc_inv sz m" and fr: "freeable m = []"
  shows "num_free_slots m = num_freeable_slots m"
proof -
  note D = enc_invD[OF inv]
  have "ids \<noteq> {}" if "(h, ids) \<in> set (cached_refs m)" for h ids
    using D(5)[of h "sz h"] fr map_of_is_SomeI[OF D(1) that] by auto
  then have "entry_sum (pinned sz) (cached_refs m) = entry_sum (\<lambda>h ids. sz h) (cached_refs m)"
    by (intro entry_sum_cong) auto
  then show ?thesis using D(6,7) by simp
qed

lemma evict_entries_spec:
  assumes "enc_inv sz m" "freeable m = fs" "need \<le> num_freeable_slots m"
  shows "\<exists>k m'. evict_entries need fs m = Inr m' \<and> enc_inv sz m' \<and> need \<le> num_free_slots m' \<and>
    freed m' = freed m @ map fst (take k fs) \<and> freeable m' = drop k fs \<and>
    num_freeable_slots m' = num_freeable_slots m \<and> cache_size m' = cache_size m \<and>
    (\<forall>h. dget (cached_refs m') h = (if h \<in> fst ` set (take k fs) then None else dget (cached_refs m) h))"
  using assms
proof (induction fs arbitrary: m)
  case Nil
  then show ?case using no_freeable_slots[OF Nil.prems(1,2)] by auto
next
  case (Cons p fs)
  obtain h n where p: "p = (h, n)" by (cases p)
  show ?case
  proof (cases "num_free_slots m < need")
    case True
    let ?m = "m\<lparr>freeable := fs, cached_refs := ddel h (cached_refs m), freed := freed m @ [h],
                 num_free_slots := num_free_slots m + n\<rparr>"
    note one = evict_one[OF Cons.prems(1) Cons.prems(2)[unfolded p]]
    from Cons.IH[OF one(1)] Cons.prems(3) obtain k m' where m':
      "evict_entries need fs ?m = Inr m'" "enc_inv sz m'" "need \<le> num_free_slots m'"
      "freed m' = freed m @ [h] @ map fst (take k fs)" "freeable m' = drop k fs"
      "num_freeable_slots m' = num_freeable_slots m" "cache_size m' = cache_size m"
      "\<forall>h'. dget (cached_refs m') h' = (if h' \<in> fst ` set (take k fs) then None else dget (ddel h (cached_refs m)) h')"
      by auto
    have "\<forall>h'. dget (cached_refs m') h' = (if h' \<in> fst ` set (take (Suc k) (p # fs)) then None else dget (cached_refs m) h')"
      using m'(8) p by simp
    moreover have "evict_entries need (p # fs) m = Inr m'" using True one(2) m'(1) p by simp
    ultimately show ?thesis using m'(2-7) p by (intro exI[of _ "Suc k"] exI[of _ m']) simp
  next
    case False
    then show ?thesis using Cons.prems p by (intro exI[of _ 0] exI[of _ m]) simp
  qed
qed

lemma can_allocate_spec:
  assumes inv: "enc_inv sz m" and i: "valid_input r i" and sz: "sized sz r"
  defines "n \<equiv> sz (input_hash r i)"
  obtains k m' where
    "can_allocate r i budget pending m = Inr (n \<le> budget \<and> n + pending \<le> num_freeable_slots m, m')"
    "enc_inv sz m'" "cache_size m' = cache_size m"
    "n \<le> budget \<and> n + pending \<le> num_freeable_slots m \<longrightarrow> n + pending \<le> num_free_slots m'"
    "freed m' = freed m @ map fst (take k (freeable m))"
    "\<forall>h. dget (cached_refs m') h = (if h \<in> fst ` set (take k (freeable m)) then None else dget (cached_refs m) h)"
    "\<forall>rid h. refers rid h m \<longrightarrow> refers rid h m'"
    "num_free_slots m \<le> num_free_slots m'"
proof -
  have e: "get_num_encoder_embeds r i = Inr n" unfolding n_def by (rule input_embeds[OF i sz])
  have le: "num_free_slots m \<le> num_freeable_slots m" by (rule enc_inv_slots[OF inv])
  show thesis
  proof (cases "n \<le> budget \<and> n + pending \<le> num_freeable_slots m \<and> num_free_slots m < n + pending")
    case False
    then have "can_allocate r i budget pending m = Inr (n \<le> budget \<and> n + pending \<le> num_freeable_slots m, m)"
      using e le by (auto simp: can_allocate_def Let_def)
    moreover have "n \<le> budget \<and> n + pending \<le> num_freeable_slots m \<longrightarrow> n + pending \<le> num_free_slots m"
      using False by auto
    ultimately show ?thesis using that[of m 0] inv by simp
  next
    case True
    obtain k m' where m': "evict_entries (n + pending) (freeable m) m = Inr m'" "enc_inv sz m'"
      "n + pending \<le> num_free_slots m'" "freed m' = freed m @ map fst (take k (freeable m))"
      "cache_size m' = cache_size m"
      "\<forall>h. dget (cached_refs m') h = (if h \<in> fst ` set (take k (freeable m)) then None else dget (cached_refs m) h)"
      using evict_entries_spec[OF inv refl, of "n + pending"] True by blast
    have "can_allocate r i budget pending m = Inr (n \<le> budget \<and> n + pending \<le> num_freeable_slots m, m')"
      using e True m'(1) by (simp add: can_allocate_def Let_def not_less)
    moreover have "refers rid h m'" if rf: "refers rid h m" for rid h
    proof -
      obtain ids where ids: "dget (cached_refs m) h = Some ids" "rid \<in> ids" using rf by (auto simp: refers_def)
      have "h \<notin> fst ` set (take k (freeable m))"
      proof
        assume "h \<in> fst ` set (take k (freeable m))"
        then obtain v where "(h, v) \<in> set (freeable m)" by (auto dest: in_set_takeD)
        then have "dget (freeable m) h = Some v" using enc_invD(2)[OF inv] by (simp add: map_of_is_SomeI)
        then show False using enc_invD(5)[OF inv, of h v] ids by auto
      qed
      then show ?thesis using m'(6) ids by (auto simp: refers_def)
    qed
    ultimately show ?thesis using that[of m' k] m' True by simp
  qed
qed

lemma ecm_allocate_spec:
  assumes inv: "enc_inv sz m" and i: "valid_input r i" and sz: "sized sz r"
    and new: "dget (cached_refs m) (input_hash r i) = None" and room: "sz (input_hash r i) \<le> num_free_slots m"
  obtains m' where "ecm_allocate r i m = Inr m'" "enc_inv sz m'" "cache_size m' = cache_size m"
    "num_free_slots m' = num_free_slots m - sz (input_hash r i)"
    "\<forall>h. dget (cached_refs m') h = (if h = input_hash r i then Some {request_id r} else dget (cached_refs m) h)"
proof -
  let ?h = "input_hash r i"
  note D = enc_invD[OF inv]
  obtain f where f: "py_nth (mm_features r) i = Inr f" "mm_identifier f = ?h" using input_nth[OF i] by blast
  have room': "sz ?h \<le> num_freeable_slots m" using room enc_inv_slots(1)[OF inv] by simp
  let ?m = "m\<lparr>cached_refs := dset ?h {request_id r} (cached_refs m), num_free_slots := num_free_slots m - sz ?h,
               num_freeable_slots := num_freeable_slots m - sz ?h\<rparr>"
  have run: "ecm_allocate r i m = Inr ?m"
    using f new room room' input_embeds[OF i sz] by (simp add: ecm_allocate_def Let_def)
  have "dget (freeable m) k = Some v \<longleftrightarrow> dget (dset ?h {request_id r} (cached_refs m)) k = Some {} \<and> v = sz k" for k v
    using D(5)[of k v] new by (cases "k = ?h") auto
  moreover have "num_free_slots m - sz ?h = cache_size m - entry_sum (\<lambda>h ids. sz h) (dset ?h {request_id r} (cached_refs m))"
    using D(6) new by (simp add: entry_sum_dset[OF D(1)])
  moreover have "num_freeable_slots m - sz ?h = cache_size m - entry_sum (pinned sz) (dset ?h {request_id r} (cached_refs m))"
    using D(7) new by (simp add: entry_sum_dset[OF D(1)])
  ultimately have "enc_inv sz ?m"
    unfolding enc_inv_def using D(2,3) room dict_ok_dset[OF D(1)] by simp
  then show thesis using that[of ?m] run by simp
qed

lemma free_encoder_input_spec:
  assumes inv: "enc_inv sz m" and i: "valid_input r i" and sz: "sized sz r"
  obtains m' where "free_encoder_input r i m = Inr m'" "enc_inv sz m'" "cache_size m' = cache_size m"
    "num_free_slots m' = num_free_slots m"
    "\<forall>h. dget (cached_refs m') h =
       (if h = input_hash r i then map_option (\<lambda>ids. ids - {request_id r}) (dget (cached_refs m) h)
        else dget (cached_refs m) h)"
proof -
  let ?h = "input_hash r i"
  obtain f where f: "py_nth (mm_features r) i = Inr f" "mm_identifier f = ?h" using input_nth[OF i] by blast
  have e: "get_num_encoder_embeds r i = Inr (sz ?h)" by (rule input_embeds[OF i sz])
  show thesis
  proof (cases "dget (cached_refs m) ?h = None \<or> dget (cached_refs m) ?h = Some {}")
    case True
    then show ?thesis using that[of m] f inv by (auto simp: free_encoder_input_def)
  next
    case False
    then obtain ids where ids: "dget (cached_refs m) ?h = Some ids" "ids \<noteq> {}" by auto
    let ?ids = "ids - {request_id r}"
    show ?thesis
    proof (cases "?ids = {}")
      case True
      then have single: "ids = {request_id r}" using ids(2) by auto
      let ?m = "m\<lparr>cached_refs := dset ?h {} (cached_refs m), freeable := dset ?h (sz ?h) (freeable m),
                   num_freeable_slots := num_freeable_slots m + sz ?h\<rparr>"
      have "enc_inv sz ?m"
        by (rule enc_inv_set_refs[OF inv ids(1)]) (use ids(2) enc_invD(2)[OF inv] in simp_all)
      moreover have "free_encoder_input r i m = Inr ?m"
        using f ids(1) e by (simp add: free_encoder_input_def Let_def single)
      ultimately show ?thesis using that[of ?m] ids(1) by (simp add: single)
    next
      case False
      let ?m = "m\<lparr>cached_refs := dset ?h ?ids (cached_refs m)\<rparr>"
      have "enc_inv sz ?m" by (rule enc_inv_same_freeable[OF inv ids False])
      moreover have "free_encoder_input r i m = Inr ?m"
        using f ids False by (simp add: free_encoder_input_def Let_def)
      ultimately show ?thesis using that[of ?m] ids False by auto
    qed
  qed
qed

lemma get_cached_input_ids_valid: "i \<in> set (get_cached_input_ids r m) \<Longrightarrow> valid_input r i"
  by (auto simp: get_cached_input_ids_def valid_input_def)

text \<open>Freeing any list of inputs of a request only drops that request from their entries.\<close>

lemma free_inputs_spec:
  assumes "enc_inv sz m" "\<forall>i \<in> set is. valid_input r i" "sized sz r"
  shows "\<exists>m'. foldE (free_encoder_input r) is m = Inr m' \<and> enc_inv sz m' \<and> cache_size m' = cache_size m \<and>
    num_free_slots m' = num_free_slots m \<and>
    (\<forall>h. dget (cached_refs m') h =
       (if h \<in> input_hash r ` set is then map_option (\<lambda>ids. ids - {request_id r}) (dget (cached_refs m) h)
        else dget (cached_refs m) h))"
  using assms(1,2)
proof (induction "is" arbitrary: m)
  case (Cons i "is")
  have "valid_input r i" using Cons.prems by simp
  then obtain m1 where m1: "free_encoder_input r i m = Inr m1" "enc_inv sz m1" "cache_size m1 = cache_size m"
    "num_free_slots m1 = num_free_slots m"
    "\<forall>h. dget (cached_refs m1) h =
       (if h = input_hash r i then map_option (\<lambda>ids. ids - {request_id r}) (dget (cached_refs m) h)
        else dget (cached_refs m) h)"
    by (rule free_encoder_input_spec[OF Cons.prems(1) _ assms(3)])
  from Cons.IH[OF m1(2)] Cons.prems(2) obtain m' where m':
    "foldE (free_encoder_input r) is m1 = Inr m'" "enc_inv sz m'" "cache_size m' = cache_size m1"
    "num_free_slots m' = num_free_slots m1"
    "\<forall>h. dget (cached_refs m') h =
       (if h \<in> input_hash r ` set is then map_option (\<lambda>ids. ids - {request_id r}) (dget (cached_refs m1) h)
        else dget (cached_refs m1) h)" by auto
  have "dget (cached_refs m') h =
       (if h \<in> input_hash r ` set (i # is) then map_option (\<lambda>ids. ids - {request_id r}) (dget (cached_refs m) h)
        else dget (cached_refs m) h)" for h
    using m'(5) m1(5) by (cases "dget (cached_refs m) h") auto
  then show ?case using m1 m' by simp
qed simp

lemma ecm_free_spec:
  assumes "enc_inv sz m" "sized sz r"
  shows "\<exists>m'. ecm_free r m = Inr m' \<and> enc_inv sz m' \<and> cache_size m' = cache_size m \<and>
    num_free_slots m' = num_free_slots m \<and>
    (\<forall>i. valid_input r i \<longrightarrow> \<not> refers (request_id r) (input_hash r i) m') \<and>
    (\<forall>rid h. rid \<noteq> request_id r \<longrightarrow> refers rid h m' = refers rid h m)"
proof -
  let ?is = "get_cached_input_ids r m"
  obtain m' where m': "ecm_free r m = Inr m'" "enc_inv sz m'" "cache_size m' = cache_size m"
    "num_free_slots m' = num_free_slots m"
    "\<forall>h. dget (cached_refs m') h =
       (if h \<in> input_hash r ` set ?is then map_option (\<lambda>ids. ids - {request_id r}) (dget (cached_refs m) h)
        else dget (cached_refs m) h)"
    using free_inputs_spec[OF assms(1), of ?is r] assms(2) get_cached_input_ids_valid[of _ r m]
    by (auto simp: ecm_free_def)
  have "\<not> refers (request_id r) (input_hash r i) m'" if i: "valid_input r i" for i
  proof (cases "i \<in> set ?is")
    case False
    then have "dget (cached_refs m) (input_hash r i) = None"
      using i by (auto simp: get_cached_input_ids_def valid_input_def input_hash_def)
    then show ?thesis using m'(5) by (auto simp: refers_def split: if_splits)
  qed (use m'(5) in \<open>auto simp: refers_def\<close>)
  moreover have "refers rid h m' = refers rid h m" if "rid \<noteq> request_id r" for rid h
    using m'(5) that by (auto simp: refers_def split: if_splits)
  ultimately show ?thesis using m'(1-4) by blast
qed

section \<open>Runs of the encoder cache\<close>

text \<open>
  The operations in any order, with the precondition the code documents for \<open>allocate\<close>: the
  entry is not cached and \<open>can_allocate\<close> left room for it.
\<close>

inductive encoder_run :: "(string \<Rightarrow> int) \<Rightarrow> int \<Rightarrow> encoder_cache \<Rightarrow> bool" for sz cap where
  enc_start: "encoder_run sz cap (ecm_init cap)"
| enc_check: "encoder_run sz cap m \<Longrightarrow> valid_input r i \<Longrightarrow> check_and_update_cache r i m = Inr (b, m') \<Longrightarrow>
    encoder_run sz cap m'"
| enc_can_allocate: "encoder_run sz cap m \<Longrightarrow> valid_input r i \<Longrightarrow> sized sz r \<Longrightarrow>
    can_allocate r i budget pending m = Inr (b, m') \<Longrightarrow> encoder_run sz cap m'"
| enc_allocate: "encoder_run sz cap m \<Longrightarrow> valid_input r i \<Longrightarrow> sized sz r \<Longrightarrow>
    dget (cached_refs m) (input_hash r i) = None \<Longrightarrow> sz (input_hash r i) \<le> num_free_slots m \<Longrightarrow>
    ecm_allocate r i m = Inr m' \<Longrightarrow> encoder_run sz cap m'"
| enc_free_input: "encoder_run sz cap m \<Longrightarrow> valid_input r i \<Longrightarrow> sized sz r \<Longrightarrow>
    free_encoder_input r i m = Inr m' \<Longrightarrow> encoder_run sz cap m'"
| enc_free: "encoder_run sz cap m \<Longrightarrow> sized sz r \<Longrightarrow> ecm_free r m = Inr m' \<Longrightarrow> encoder_run sz cap m'"
| enc_take_freed: "encoder_run sz cap m \<Longrightarrow> encoder_run sz cap (snd (get_freed_mm_hashes m))"
| enc_reset: "encoder_run sz cap m \<Longrightarrow> encoder_run sz cap (ecm_reset m)"

lemma encoder_run_inv:
  assumes "encoder_run sz cap m" "0 \<le> cap" "\<And>h. 0 \<le> sz h"
  shows "enc_inv sz m \<and> cache_size m = cap"
  using assms(1)
proof (induction rule: encoder_run.induct)
  case enc_start
  then show ?case using ecm_init_inv[OF assms(2,3)] by (simp add: ecm_init_def)
next
  case (enc_check m r i b m')
  then obtain u where "check_and_update_cache r i m = Inr (dget (cached_refs m) (input_hash r i) \<noteq> None, u)"
    "enc_inv sz u" "cache_size u = cache_size m" by (metis check_and_update_spec)
  then show ?case using enc_check by simp
next
  case (enc_can_allocate m r i budget pending b m')
  then obtain u b' where "can_allocate r i budget pending m = Inr (b', u)"
    "enc_inv sz u" "cache_size u = cache_size m" by (metis can_allocate_spec)
  then show ?case using enc_can_allocate by simp
next
  case (enc_allocate m r i m')
  then obtain u where "ecm_allocate r i m = Inr u" "enc_inv sz u" "cache_size u = cache_size m"
    by (metis ecm_allocate_spec)
  then show ?case using enc_allocate by simp
next
  case (enc_free_input m r i m')
  then obtain u where "free_encoder_input r i m = Inr u" "enc_inv sz u" "cache_size u = cache_size m"
    by (metis free_encoder_input_spec)
  then show ?case using enc_free_input by simp
next
  case (enc_free m r m')
  then show ?case using ecm_free_spec[of sz m r] by auto
next
  case (enc_take_freed m)
  then show ?case by (simp add: get_freed_mm_hashes_def enc_inv_def)
next
  case (enc_reset m)
  then have "enc_inv sz (ecm_reset m)" using ecm_reset_inv by blast
  then show ?case using enc_reset by (simp add: ecm_reset_def)
qed

lemma entry_sum_keys: "entry_sum (\<lambda>h ids. sz h) d = sum_list (map sz (dkeys d))"
  by (induction d) auto

lemma enc_inv_slots_used:
  "enc_inv sz m \<Longrightarrow> num_free_slots m + sum_list (map sz (dkeys (cached_refs m))) = cache_size m"
  using enc_invD(6)[of sz m] unfolding entry_sum_keys by simp

lemma freeable_iff: "enc_inv sz m \<Longrightarrow> h \<in> set (dkeys (freeable m)) \<longleftrightarrow> dget (cached_refs m) h = Some {}"
  using enc_invD(5)[of sz m h] by (metis dget_None_iff option.exhaust option.simps(3))

section \<open>Properties\<close>


text \<open>A request with two images, for the concrete instances.\<close>

definition image_at :: "string \<Rightarrow> int \<Rightarrow> int \<Rightarrow> mm_feature" where
  "image_at h pos n =
     \<lparr>modality = ''image'', mm_identifier = h, mm_position = \<lparr>offset = pos, plength = n, is_embed = None\<rparr>,
      mm_hash = Some h\<rparr>"

definition image_request :: "string \<Rightarrow> mm_feature list \<Rightarrow> request" where
  "image_request rid fs = (example_request rid (replicate 12 9))\<lparr>mm_features := fs\<rparr>"

lemma image_request_simps [simp]:
  "mm_features (image_request rid fs) = fs" "request_id (image_request rid fs) = rid"
  "num_computed_tokens (image_request rid fs) = 0"
  by (simp_all add: image_request_def example_request_def init_request_def example_message_def)

lemma sized_image_request:
  "sized (\<lambda>h. 4) (image_request rid [image_at a 0 4, image_at b 6 4])"
  by (simp add: sized_def image_at_def get_num_embeds_def embeds_cumsum_def)


text \<open>
  C24: in a reachable state the eviction loop always ends without error. \<open>can_allocate\<close> says yes
  exactly when the item is within the compute budget and, with the items already granted, within
  the freeable slots; it then has made enough slots free, by dropping the oldest unreferenced
  entries and reporting them, and no entry a request refers to is dropped.
\<close>

theorem can_allocate_correct:
  assumes "encoder_run sz cap m" "0 \<le> cap" "\<And>h. 0 \<le> sz h" "valid_input r i" "sized sz r"
  shows "\<exists>k m'. can_allocate r i budget pending m =
      Inr (sz (input_hash r i) \<le> budget \<and> sz (input_hash r i) + pending \<le> num_freeable_slots m, m') \<and>
    (sz (input_hash r i) \<le> budget \<and> sz (input_hash r i) + pending \<le> num_freeable_slots m \<longrightarrow>
       sz (input_hash r i) + pending \<le> num_free_slots m') \<and>
    freed m' = freed m @ map fst (take k (freeable m)) \<and>
    (\<forall>h. dget (cached_refs m') h = (if h \<in> fst ` set (take k (freeable m)) then None else dget (cached_refs m) h)) \<and>
    (\<forall>rid h. refers rid h m \<longrightarrow> refers rid h m')"
proof -
  have inv: "enc_inv sz m" using encoder_run_inv[OF assms(1-3)] by simp
  show ?thesis by (rule can_allocate_spec[OF inv assms(4,5), of budget pending]) blast
qed

lemma example_encoder_run:
  defines "r \<equiv> image_request ''r'' [image_at ''x'' 0 4, image_at ''y'' 6 4]"
  shows "\<exists>m. ecm_allocate r 0 (ecm_init 7) = Inr m \<and> encoder_run (\<lambda>h. 4) 7 m \<and> num_freeable_slots m = 3"
proof -
  have "ecm_allocate r 0 (ecm_init 7) = Inr (ecm_init 7\<lparr>cached_refs := [(''x'', {''r''})], num_free_slots := 3, num_freeable_slots := 3\<rparr>)"
    by (simp add: ecm_allocate_def r_def py_nth_def get_num_encoder_embeds_def image_at_def get_num_embeds_def
        embeds_cumsum_def ecm_init_def)
  moreover from this have "encoder_run (\<lambda>h. 4) 7 (ecm_init 7\<lparr>cached_refs := [(''x'', {''r''})], num_free_slots := 3, num_freeable_slots := 3\<rparr>)"
    by (rule enc_allocate[OF enc_start, rotated 4])
      (simp_all add: r_def valid_input_def sized_image_request ecm_init_def)
  ultimately show ?thesis by simp
qed

theorem can_allocate_correct_witness:
  "\<exists>m m'. encoder_run (\<lambda>h. 4) 7 m \<and>
     can_allocate (image_request ''r'' [image_at ''x'' 0 4, image_at ''y'' 6 4]) 1 10 0 m = Inr (False, m')"
proof -
  let ?r = "image_request ''r'' [image_at ''x'' 0 4, image_at ''y'' 6 4]"
  obtain m where m: "encoder_run (\<lambda>h. 4) 7 m" "num_freeable_slots m = 3" using example_encoder_run by blast
  have "valid_input ?r 1" by (simp add: valid_input_def)
  from can_allocate_correct[OF m(1) _ _ this sized_image_request, of 10 0] m show ?thesis by auto
qed

text \<open>
  C35: for an encoder-decoder model the free slots run away. Its manager reports every input as
  cached, so each step after the first token frees the input again: a request that allocates its
  input once and is scheduled twice more leaves more free slots than the cache has.
\<close>

theorem encdec_free_slots_exceed_cache:
  assumes "mm_features r = [f]" "get_num_embeds (mm_position f) = Inr n" "0 < n" "0 < num_computed_tokens r"
  shows "\<exists>m. bindE (ed_allocate r 0 (ed_init cap)) (\<lambda>m. bindE (ed_free_encoder_inputs r m) (ed_free_encoder_inputs r)) = Inr m \<and>
    ed_num_free_slots m = cap + n \<and> ed_cache_size m < ed_num_free_slots m"
  using assms
  by (simp add: ed_allocate_def ed_free_encoder_inputs_def ed_get_cached_input_ids_def ed_free_encoder_input_def
      get_num_encoder_embeds_def py_nth_def ed_init_def)

theorem encdec_free_slots_exceed_cache_witness:
  "\<exists>m. bindE (ed_allocate ((image_request ''r'' [image_at ''x'' 0 4])\<lparr>num_computed_tokens := 1\<rparr>) 0 (ed_init 8))
     (\<lambda>m. bindE (ed_free_encoder_inputs ((image_request ''r'' [image_at ''x'' 0 4])\<lparr>num_computed_tokens := 1\<rparr>) m)
       (ed_free_encoder_inputs ((image_request ''r'' [image_at ''x'' 0 4])\<lparr>num_computed_tokens := 1\<rparr>))) = Inr m \<and>
     ed_num_free_slots m = 12"
proof -
  have "get_num_embeds (mm_position (image_at ''x'' 0 4)) = Inr 4"
    by (simp add: image_at_def get_num_embeds_def embeds_cumsum_def)
  then show ?thesis
    using encdec_free_slots_exceed_cache[of "(image_request ''r'' [image_at ''x'' 0 4])\<lparr>num_computed_tokens := 1\<rparr>"
        "image_at ''x'' 0 4" 4 8] by auto
qed

end
