(* ===== verification/Encoder_Schedule.thy ===== *)
theory Encoder_Schedule
  imports Encoder_Cache
begin

text \<open>
  Scheduling encoder inputs: \<open>Scheduler._try_schedule_encoder_inputs\<close> with the manager it was built
  with, and the lookups of \<open>GPUModelRunner._gather_mm_embeddings\<close> that rely on it. The sum type
  \<open>encoder_manager\<close> is the object of either class; a model is encoder-decoder exactly when it has
  the encoder-decoder manager. The connector to a remote encoder cache is its answer to
  \<open>has_cache_item\<close>, or \<open>None\<close> when there is none.
\<close>

section \<open>The manager of a model\<close>

datatype encoder_manager = EncCache encoder_cache | EncDec encdec_cache

fun is_encoder_decoder :: "encoder_manager \<Rightarrow> bool" where
  "is_encoder_decoder (EncCache m) = False"
| "is_encoder_decoder (EncDec m) = True"

fun mgr_check :: "request \<Rightarrow> int \<Rightarrow> encoder_manager \<Rightarrow> (bool \<times> encoder_manager) result" where
  "mgr_check r i (EncCache m) = bindE (check_and_update_cache r i m) (\<lambda>(b, m'). Inr (b, EncCache m'))"
| "mgr_check r i (EncDec m) = Inr (False, EncDec m)"

fun mgr_can_allocate :: "request \<Rightarrow> int \<Rightarrow> int \<Rightarrow> int \<Rightarrow> encoder_manager \<Rightarrow> (bool \<times> encoder_manager) result" where
  "mgr_can_allocate r i budget pending (EncCache m) =
     bindE (can_allocate r i budget pending m) (\<lambda>(b, m'). Inr (b, EncCache m'))"
| "mgr_can_allocate r i budget pending (EncDec m) =
     bindE (ed_can_allocate r i budget pending m) (\<lambda>b. Inr (b, EncDec m))"

fun mgr_allocate :: "request \<Rightarrow> int \<Rightarrow> encoder_manager \<Rightarrow> encoder_manager result" where
  "mgr_allocate r i (EncCache m) = bindE (ecm_allocate r i m) (\<lambda>m'. Inr (EncCache m'))"
| "mgr_allocate r i (EncDec m) = bindE (ed_allocate r i m) (\<lambda>m'. Inr (EncDec m'))"

section \<open>Choosing the inputs of a step\<close>

record enc_step =
  enc_inputs :: "int list"
  enc_new_tokens :: int
  enc_budget :: int
  enc_external :: "int list"
  enc_hashes :: "string set"
  enc_embeds :: int
  enc_mgr :: encoder_manager

definition enc_lookup :: "request \<Rightarrow> int \<Rightarrow> string \<Rightarrow> enc_step \<Rightarrow> (bool \<times> enc_step) result" where
  "enc_lookup r i h s =
     (if is_encoder_decoder (enc_mgr s) then Inr (False, s)
      else if h \<in> enc_hashes s then Inr (True, s)
      else bindE (mgr_check r i (enc_mgr s)) (\<lambda>(hit, m). Inr (hit, s\<lparr>enc_mgr := m\<rparr>)))"

definition enc_grant :: "(string \<Rightarrow> bool) option \<Rightarrow> int \<Rightarrow> string \<Rightarrow> int \<Rightarrow> enc_step \<Rightarrow> enc_step" where
  "enc_grant remote i h n s =
     (let s' = s\<lparr>enc_hashes := insert h (enc_hashes s), enc_embeds := enc_embeds s + n\<rparr> in
      if (case remote of None \<Rightarrow> False | Some has_item \<Rightarrow> has_item h)
      then s'\<lparr>enc_external := enc_external s @ [i]\<rparr>
      else s'\<lparr>enc_budget := enc_budget s - n, enc_inputs := enc_inputs s @ [i]\<rparr>)"

text \<open>The body of the loop says whether it goes on (\<open>True\<close>) or breaks; its last part asks for room.\<close>

definition enc_try_allocate :: "(string \<Rightarrow> bool) option \<Rightarrow> request \<Rightarrow> int \<Rightarrow> int \<Rightarrow> int \<Rightarrow> mm_feature \<Rightarrow> int \<Rightarrow>
    enc_step \<Rightarrow> (bool \<times> enc_step) result" where
  "enc_try_allocate remote r num_computed shift_by i f num_embeds s =
     (let pos = mm_position f; start_pos = offset pos; len = plength pos in
      bindE (mgr_can_allocate r i (enc_budget s) (enc_embeds s) (enc_mgr s)) (\<lambda>(ok, m).
        let s = s\<lparr>enc_mgr := m\<rparr> in
        if \<not> ok
        then Inr (False, s\<lparr>enc_new_tokens :=
               (if num_computed + shift_by < start_pos then start_pos - (num_computed + shift_by) else 0)\<rparr>)
        else bindE (get_embeds_indices_in_range pos (max 0 (num_computed - start_pos))
               (min len (num_computed + enc_new_tokens s - start_pos))) (\<lambda>(first, past).
          if past - first = 0 then Inr (True, s)
          else Inr (True, enc_grant remote i (mm_identifier f) num_embeds s))))"

definition enc_body :: "bool \<Rightarrow> (string \<Rightarrow> bool) option \<Rightarrow> request \<Rightarrow> int \<Rightarrow> int \<Rightarrow> int \<times> mm_feature \<Rightarrow> enc_step \<Rightarrow>
    (bool \<times> enc_step) result" where
  "enc_body no_chunking remote r num_computed shift_by item s =
     (let (i, f) = item; pos = mm_position f; start_pos = offset pos; len = plength pos in
      bindE (get_num_embeds pos) (\<lambda>num_embeds.
      if num_computed + enc_new_tokens s + shift_by \<le> start_pos then Inr (False, s)
      else if is_encoder_decoder (enc_mgr s) \<and> 0 < num_computed
      then bindE (assertE (start_pos = 0)) (\<lambda>_. Inr (True, s))
      else if start_pos + len \<le> num_computed then Inr (True, s)
      else bindE (enc_lookup r i (mm_identifier f) s) (\<lambda>(have_it, s).
        if have_it then Inr (True, s)
        else if no_chunking \<and> num_computed < start_pos \<and> num_computed + enc_new_tokens s < start_pos + len
        then Inr (False, s\<lparr>enc_new_tokens := max 0 (start_pos - (num_computed + shift_by))\<rparr>)
        else enc_try_allocate remote r num_computed shift_by i f num_embeds s)))"

fun enc_loop :: "bool \<Rightarrow> (string \<Rightarrow> bool) option \<Rightarrow> request \<Rightarrow> int \<Rightarrow> int \<Rightarrow> (int \<times> mm_feature) list \<Rightarrow> enc_step \<Rightarrow>
    enc_step result" where
  "enc_loop no_chunking remote r num_computed shift_by [] s = Inr s"
| "enc_loop no_chunking remote r num_computed shift_by (item # items) s =
     bindE (enc_body no_chunking remote r num_computed shift_by item s) (\<lambda>(go_on, s).
       if go_on then enc_loop no_chunking remote r num_computed shift_by items s else Inr s)"

definition enumerate_features :: "request \<Rightarrow> (int \<times> mm_feature) list" where
  "enumerate_features r = zip [0..int (length (mm_features r)) - 1] (mm_features r)"

definition try_schedule_encoder_inputs :: "bool \<Rightarrow> (string \<Rightarrow> bool) option \<Rightarrow> request \<Rightarrow> int \<Rightarrow> int \<Rightarrow> int \<Rightarrow> int \<Rightarrow>
    encoder_manager \<Rightarrow> (int list \<times> int \<times> int \<times> int list \<times> encoder_manager) result" where
  "try_schedule_encoder_inputs no_chunking remote r num_computed num_new budget shift_by mgr =
     (if num_new = 0 \<or> \<not> has_encoder_inputs r then Inr ([], num_new, budget, [], mgr)
      else bindE (enc_loop no_chunking remote r num_computed shift_by (enumerate_features r)
             \<lparr>enc_inputs = [], enc_new_tokens = num_new, enc_budget = budget, enc_external = [],
              enc_hashes = {}, enc_embeds = 0, enc_mgr = mgr\<rparr>) (\<lambda>s.
           Inr (enc_inputs s, enc_new_tokens s, enc_budget s, enc_external s, enc_mgr s)))"

text \<open>What \<open>schedule\<close> does with the answer once the request has its blocks.\<close>

definition allocate_encoder_inputs :: "request \<Rightarrow> int list \<Rightarrow> int list \<Rightarrow> encoder_manager \<Rightarrow> encoder_manager result" where
  "allocate_encoder_inputs r inputs external mgr =
     bindE (foldE (mgr_allocate r) inputs mgr) (foldE (mgr_allocate r) external)"

section \<open>What the worker looks up\<close>

fun gather_reads :: "int \<Rightarrow> int \<Rightarrow> mm_feature list \<Rightarrow> string list result" where
  "gather_reads num_computed num_scheduled [] = Inr []"
| "gather_reads num_computed num_scheduled (f # fs) =
     (let pos = mm_position f; start_pos = offset pos; len = plength pos in
      if num_computed + num_scheduled \<le> start_pos then Inr []
      else if start_pos + len \<le> num_computed then gather_reads num_computed num_scheduled fs
      else let start_idx = max (num_computed - start_pos) 0;
               end_idx = min (num_computed - start_pos + num_scheduled) len in
        bindE (assertE (start_idx < end_idx)) (\<lambda>_.
        bindE (get_embeds_indices_in_range pos start_idx end_idx) (\<lambda>(first, past).
          if first = past then gather_reads num_computed num_scheduled fs
          else bindE (gather_reads num_computed num_scheduled fs) (\<lambda>hs. Inr (mm_identifier f # hs)))))"

definition gather_mm_reads :: "request \<Rightarrow> int \<Rightarrow> int \<Rightarrow> int \<Rightarrow> string list result" where
  "gather_mm_reads r num_computed num_scheduled shift_by =
     gather_reads (num_computed + shift_by) num_scheduled (mm_features r)"

section \<open>Embeddings in a range\<close>

definition wf_feature :: "mm_feature \<Rightarrow> bool" where
  "wf_feature f \<longleftrightarrow> 0 < plength (mm_position f) \<and>
     (\<forall>m. is_embed (mm_position f) = Some m \<longrightarrow> int (length m) = plength (mm_position f))"

definition embeds_before :: "placeholder_range \<Rightarrow> int \<Rightarrow> int" where
  "embeds_before pos k =
     (case is_embed pos of None \<Rightarrow> k | Some m \<Rightarrow> int (length (filter id (take (nat k) m))))"

lemma embeds_before_mono: "j \<le> k \<Longrightarrow> embeds_before pos j \<le> embeds_before pos k"
proof (cases "is_embed pos")
  case (Some m)
  assume "j \<le> k"
  then have "take (nat j) m = take (nat j) (take (nat k) m)" by (simp add: min_def nat_mono)
  then have "length (filter id (take (nat j) m)) \<le> length (filter id (take (nat k) m))"
    by (metis append_take_drop_id filter_append le_add1 length_append)
  then show ?thesis using Some by (simp add: embeds_before_def)
qed (simp add: embeds_before_def)

lemma embeds_in_range:
  assumes "wf_feature f" "0 \<le> j" "j < k" "k \<le> plength (mm_position f)"
  shows "get_embeds_indices_in_range (mm_position f) j k =
    Inr (embeds_before (mm_position f) j, embeds_before (mm_position f) k)"
proof (cases "is_embed (mm_position f)")
  case (Some m)
  let ?c = "map (\<lambda>k. int (length (filter id (take (Suc k) m)))) [0..<length m]"
  have len: "int (length m) = plength (mm_position f)" using assms(1) Some by (simp add: wf_feature_def)
  have at: "py_nth ?c (x - 1) = Inr (int (length (filter id (take (nat x) m))))"
    if "0 < x" "x \<le> plength (mm_position f)" for x
  proof -
    have "py_nth ?c (x - 1) = Inr (?c ! nat (x - 1))" using that len by (intro py_nth_nonneg) simp_all
    moreover have "Suc (nat (x - 1)) = nat x" "nat (x - 1) < length m" using that len by auto
    ultimately show ?thesis by simp
  qed
  show ?thesis
    using Some at[of j] at[of k] assms(2-4)
    by (auto simp: get_embeds_indices_in_range_def embeds_cumsum_def embeds_before_def)
qed (simp add: get_embeds_indices_in_range_def embeds_cumsum_def embeds_before_def)

text \<open>Whether the worker looks up a feature when it computes \<open>nn\<close> tokens after \<open>nc\<close>.\<close>

definition worker_reads :: "int \<Rightarrow> int \<Rightarrow> mm_feature \<Rightarrow> bool" where
  "worker_reads nc nn f \<longleftrightarrow>
     (let pos = mm_position f in
      offset pos < nc + nn \<and> nc < offset pos + plength pos \<and>
      embeds_before pos (max (nc - offset pos) 0) \<noteq> embeds_before pos (min (nc - offset pos + nn) (plength pos)))"

lemma gather_reads_spec:
  assumes "\<forall>f \<in> set fs. wf_feature f" "0 < nn"
  shows "\<exists>hs. gather_reads nc nn fs = Inr hs \<and>
    set hs \<subseteq> mm_identifier ` {f \<in> set (takeWhile (\<lambda>f. offset (mm_position f) < nc + nn) fs). worker_reads nc nn f}"
  using assms(1)
proof (induction fs)
  case (Cons f fs)
  let ?pos = "mm_position f"
  let ?s = "max (nc - offset ?pos) 0" and ?e = "min (nc - offset ?pos + nn) (plength ?pos)"
  obtain hs where hs: "gather_reads nc nn fs = Inr hs"
    "set hs \<subseteq> mm_identifier ` {f \<in> set (takeWhile (\<lambda>f. offset (mm_position f) < nc + nn) fs). worker_reads nc nn f}"
    using Cons by auto
  show ?case
  proof (cases "offset ?pos < nc + nn \<and> nc < offset ?pos + plength ?pos")
    case True
    have wf: "wf_feature f" using Cons.prems by simp
    then have "0 < plength ?pos" by (simp add: wf_feature_def)
    then have se: "?s < ?e" using True assms(2) by auto
    then have "get_embeds_indices_in_range ?pos ?s ?e = Inr (embeds_before ?pos ?s, embeds_before ?pos ?e)"
      using embeds_in_range[OF wf, of ?s ?e] by simp
    then show ?thesis
      using True se hs by (cases "worker_reads nc nn f") (auto simp: worker_reads_def Let_def not_le)
  next
    case False
    then show ?thesis using hs by (auto simp: not_less Let_def worker_reads_def)
  qed
qed simp

section \<open>The loop invariant\<close>

abbreviation granted :: "enc_step \<Rightarrow> int list" where
  "granted s \<equiv> enc_inputs s @ enc_external s"

definition step_inv :: "(string \<Rightarrow> int) \<Rightarrow> request \<Rightarrow> encoder_cache \<Rightarrow> enc_step \<Rightarrow> bool" where
  "step_inv sz r m s \<longleftrightarrow>
     enc_mgr s = EncCache m \<and> enc_inv sz m \<and>
     (\<forall>i \<in> set (granted s). valid_input r i \<and> dget (cached_refs m) (input_hash r i) = None) \<and>
     distinct (map (input_hash r) (granted s)) \<and>
     enc_hashes s = input_hash r ` set (granted s) \<and>
     enc_embeds s = sum_list (map (sz \<circ> input_hash r) (granted s)) \<and>
     enc_embeds s \<le> num_free_slots m"

text \<open>An identifier the worker will find: referenced in the cache, or granted in this step.\<close>

definition covered :: "request \<Rightarrow> enc_step \<Rightarrow> string \<Rightarrow> bool" where
  "covered r s h \<longleftrightarrow> h \<in> enc_hashes s \<or> (\<exists>m. enc_mgr s = EncCache m \<and> refers (request_id r) h m)"

lemma step_inv_new_cache:
  assumes "step_inv sz r m s" "enc_inv sz m'" "num_free_slots m \<le> num_free_slots m'"
    "\<forall>h. dget (cached_refs m) h = None \<longrightarrow> dget (cached_refs m') h = None"
  shows "step_inv sz r m' (s\<lparr>enc_mgr := EncCache m'\<rparr>)"
  using assms unfolding step_inv_def by auto

lemma covered_new_cache:
  assumes "enc_mgr s = EncCache m" "\<forall>rid h. refers rid h m \<longrightarrow> refers rid h m'" "covered r s h"
  shows "covered r (s\<lparr>enc_mgr := EncCache m'\<rparr>) h"
  using assms by (auto simp: covered_def)

lemma enc_lookup_spec:
  assumes inv: "step_inv sz r m s" and i: "valid_input r i"
  obtains hit m' where "enc_lookup r i (input_hash r i) s = Inr (hit, s\<lparr>enc_mgr := EncCache m'\<rparr>)"
    "step_inv sz r m' (s\<lparr>enc_mgr := EncCache m'\<rparr>)"
    "\<forall>h. covered r s h \<longrightarrow> covered r (s\<lparr>enc_mgr := EncCache m'\<rparr>) h"
    "hit \<longrightarrow> covered r (s\<lparr>enc_mgr := EncCache m'\<rparr>) (input_hash r i)"
    "\<not> hit \<longrightarrow> input_hash r i \<notin> enc_hashes s \<and> dget (cached_refs m') (input_hash r i) = None"
proof (cases "input_hash r i \<in> enc_hashes s")
  case True
  have mgr: "enc_mgr s = EncCache m" using inv by (simp add: step_inv_def)
  then have eq: "s\<lparr>enc_mgr := EncCache m\<rparr> = s" by simp
  show ?thesis using that[of True m, unfolded eq] True inv mgr by (simp add: enc_lookup_def covered_def)
next
  case False
  have mgr: "enc_mgr s = EncCache m" and e: "enc_inv sz m" using inv by (simp_all add: step_inv_def)
  let ?hit = "dget (cached_refs m) (input_hash r i) \<noteq> None"
  obtain m' where m': "check_and_update_cache r i m = Inr (?hit, m')" "enc_inv sz m'" "cache_size m' = cache_size m"
    "num_free_slots m' = num_free_slots m" "\<forall>rid h. refers rid h m \<longrightarrow> refers rid h m'"
    "dkeys (cached_refs m') = dkeys (cached_refs m)" "?hit \<longrightarrow> refers (request_id r) (input_hash r i) m'"
    "dget (cached_refs m) (input_hash r i) = None \<longrightarrow> m' = m"
    by (rule check_and_update_spec[OF e i])
  have keys: "\<forall>h. dget (cached_refs m) h = None \<longrightarrow> dget (cached_refs m') h = None"
    using m'(6) by (simp only: dget_None_iff) simp
  have "step_inv sz r m' (s\<lparr>enc_mgr := EncCache m'\<rparr>)"
    by (rule step_inv_new_cache[OF inv m'(2) _ keys]) (simp add: m'(4))
  moreover have "\<forall>h. covered r s h \<longrightarrow> covered r (s\<lparr>enc_mgr := EncCache m'\<rparr>) h"
    using covered_new_cache[OF mgr m'(5)] by blast
  moreover have "enc_lookup r i (input_hash r i) s = Inr (?hit, s\<lparr>enc_mgr := EncCache m'\<rparr>)"
    using False mgr m'(1) by (simp add: enc_lookup_def)
  ultimately show ?thesis using that[of ?hit m'] m'(7) False keys by (auto simp: covered_def)
qed

lemma enc_can_allocate_spec:
  assumes inv: "step_inv sz r m s" and i: "valid_input r i" and sz: "sized sz r"
  obtains ok m' where
    "mgr_can_allocate r i (enc_budget s) (enc_embeds s) (enc_mgr s) = Inr (ok, EncCache m')"
    "step_inv sz r m' (s\<lparr>enc_mgr := EncCache m'\<rparr>)"
    "\<forall>h. covered r s h \<longrightarrow> covered r (s\<lparr>enc_mgr := EncCache m'\<rparr>) h"
    "ok \<longrightarrow> sz (input_hash r i) + enc_embeds s \<le> num_free_slots m'"
    "\<forall>h. dget (cached_refs m) h = None \<longrightarrow> dget (cached_refs m') h = None"
proof -
  have mgr: "enc_mgr s = EncCache m" and e: "enc_inv sz m" using inv by (simp_all add: step_inv_def)
  let ?n = "sz (input_hash r i)"
  let ?ok = "?n \<le> enc_budget s \<and> ?n + enc_embeds s \<le> num_freeable_slots m"
  obtain k m' where m': "can_allocate r i (enc_budget s) (enc_embeds s) m = Inr (?ok, m')" "enc_inv sz m'"
    "cache_size m' = cache_size m" "?ok \<longrightarrow> ?n + enc_embeds s \<le> num_free_slots m'"
    "freed m' = freed m @ map fst (take k (freeable m))"
    "\<forall>h. dget (cached_refs m') h = (if h \<in> fst ` set (take k (freeable m)) then None else dget (cached_refs m) h)"
    "\<forall>rid h. refers rid h m \<longrightarrow> refers rid h m'" "num_free_slots m \<le> num_free_slots m'"
    by (rule can_allocate_spec[OF e i sz])
  have keys: "\<forall>h. dget (cached_refs m) h = None \<longrightarrow> dget (cached_refs m') h = None" using m'(6) by simp
  have "step_inv sz r m' (s\<lparr>enc_mgr := EncCache m'\<rparr>)" by (rule step_inv_new_cache[OF inv m'(2,8) keys])
  moreover have "\<forall>h. covered r s h \<longrightarrow> covered r (s\<lparr>enc_mgr := EncCache m'\<rparr>) h"
    using covered_new_cache[OF mgr m'(7)] by blast
  moreover have "mgr_can_allocate r i (enc_budget s) (enc_embeds s) (enc_mgr s) = Inr (?ok, EncCache m')"
    using m'(1) mgr by simp
  ultimately show thesis using that[of ?ok m'] m'(4) keys by blast
qed

lemma enc_grant_spec:
  fixes remote :: "(string \<Rightarrow> bool) option"
  assumes inv: "step_inv sz r m s" and i: "valid_input r i"
    and new: "input_hash r i \<notin> enc_hashes s" "dget (cached_refs m) (input_hash r i) = None"
    and room: "sz (input_hash r i) + enc_embeds s \<le> num_free_slots m"
  defines "s' \<equiv> enc_grant remote i (input_hash r i) (sz (input_hash r i)) s"
  shows "step_inv sz r m s'" "\<forall>h. covered r s h \<longrightarrow> covered r s' h" "covered r s' (input_hash r i)"
    "enc_new_tokens s' = enc_new_tokens s"
proof -
  have g: "mset (granted s') = add_mset i (mset (granted s))"
    by (simp add: s'_def enc_grant_def Let_def)
  then have set: "set (granted s') = insert i (set (granted s))" by (metis set_mset_add_mset_insert set_mset_mset)
  have "mset (map (input_hash r) (granted s')) = add_mset (input_hash r i) (mset (map (input_hash r) (granted s)))"
    using g by (simp only: mset_map) simp
  then have "distinct (map (input_hash r) (granted s'))"
    using inv new(1) by (metis (no_types, lifting) distinct.simps(2) list.set_map mset.simps(2) mset_eq_imp_distinct_iff step_inv_def)
  moreover have "sum_list (map (sz \<circ> input_hash r) (granted s')) = sz (input_hash r i) + sum_list (map (sz \<circ> input_hash r) (granted s))"
    using g by (metis (no_types, lifting) comp_apply image_mset_add_mset mset_map sum_mset.add_mset sum_mset_sum_list)
  moreover have "enc_mgr s' = enc_mgr s" "enc_hashes s' = insert (input_hash r i) (enc_hashes s)"
    "enc_embeds s' = enc_embeds s + sz (input_hash r i)"
    by (simp_all add: s'_def enc_grant_def Let_def)
  ultimately show "step_inv sz r m s'" "\<forall>h. covered r s h \<longrightarrow> covered r s' h" "covered r s' (input_hash r i)"
    using inv i new room unfolding step_inv_def set by (auto simp: covered_def)
  show "enc_new_tokens s' = enc_new_tokens s" by (simp add: s'_def enc_grant_def Let_def)
qed

section \<open>The loop\<close>

lemma step_inv_new_tokens [simp]: "step_inv sz r m (s\<lparr>enc_new_tokens := x\<rparr>) = step_inv sz r m s"
  by (simp add: step_inv_def)

lemma covered_new_tokens [simp]: "covered r (s\<lparr>enc_new_tokens := x\<rparr>) h = covered r s h"
  by (simp add: covered_def)

text \<open>What one turn of the loop guarantees, with no shift: it goes on with as many tokens and the
  worker finds the feature, for any smaller number of tokens, or it breaks and the tokens left do
  not reach the feature.\<close>

definition turn_ok :: "(string \<Rightarrow> int) \<Rightarrow> request \<Rightarrow> int \<Rightarrow> mm_feature \<Rightarrow> enc_step \<Rightarrow> bool \<Rightarrow> encoder_cache \<Rightarrow> enc_step \<Rightarrow> bool" where
  "turn_ok sz r nc f s go_on m' s' \<longleftrightarrow>
     step_inv sz r m' s' \<and> (\<forall>h. covered r s h \<longrightarrow> covered r s' h) \<and> enc_new_tokens s' \<le> enc_new_tokens s \<and>
     (go_on \<longrightarrow> enc_new_tokens s' = enc_new_tokens s \<and>
        (\<forall>nn. 0 < nn \<and> nn \<le> enc_new_tokens s \<and> worker_reads nc nn f \<longrightarrow> covered r s' (mm_identifier f))) \<and>
     (\<not> go_on \<longrightarrow> 0 < enc_new_tokens s' \<longrightarrow> nc + enc_new_tokens s' \<le> offset (mm_position f))"

text \<open>A feature without embeddings in the range of the step has none in a shorter range.\<close>

lemma no_embeds_shorter:
  assumes "wf_feature f" "nn \<le> new" "0 < nn" "worker_reads nc nn f"
  defines "pos \<equiv> mm_position f"
  shows "embeds_before pos (max 0 (nc - offset pos)) \<noteq> embeds_before pos (min (plength pos) (nc + new - offset pos))"
proof -
  let ?j = "max 0 (nc - offset pos)" and ?k = "min (nc - offset pos + nn) (plength pos)"
  have w: "embeds_before pos ?j \<noteq> embeds_before pos ?k" "offset pos < nc + nn" "nc < offset pos + plength pos"
    using assms(4) by (simp_all add: worker_reads_def pos_def Let_def max.commute)
  have "0 < plength pos" using assms(1) by (simp add: wf_feature_def pos_def)
  then have "?j \<le> ?k" using w(2,3) assms(3) by auto
  then have "embeds_before pos ?j < embeds_before pos ?k" using embeds_before_mono[of ?j ?k pos] w(1) by simp
  also have "\<dots> \<le> embeds_before pos (min (plength pos) (nc + new - offset pos))"
    using assms(2) by (intro embeds_before_mono) auto
  finally show ?thesis by simp
qed

lemma enc_turn_allocate:
  assumes inv: "step_inv sz r m s" and i: "valid_input r i" and f: "mm_features r ! nat i = f"
    and sz: "sized sz r" and wf: "wf_feature f" and new: "0 < enc_new_tokens s"
    and reach: "offset (mm_position f) < nc + enc_new_tokens s" "nc < offset (mm_position f) + plength (mm_position f)"
    and miss: "mm_identifier f \<notin> enc_hashes s" "dget (cached_refs m) (mm_identifier f) = None"
  shows "\<exists>go_on m' s'. enc_try_allocate remote r nc 0 i f (sz (mm_identifier f)) s = Inr (go_on, s') \<and>
    turn_ok sz r nc f s go_on m' s'"
proof -
  let ?pos = "mm_position f" and ?h = "mm_identifier f"
  have h: "input_hash r i = ?h" using f by (simp add: input_hash_def)
  obtain ok m1 where c: "mgr_can_allocate r i (enc_budget s) (enc_embeds s) (enc_mgr s) = Inr (ok, EncCache m1)"
    "step_inv sz r m1 (s\<lparr>enc_mgr := EncCache m1\<rparr>)"
    "\<forall>h. covered r s h \<longrightarrow> covered r (s\<lparr>enc_mgr := EncCache m1\<rparr>) h"
    "ok \<longrightarrow> sz ?h + enc_embeds s \<le> num_free_slots m1"
    "\<forall>h. dget (cached_refs m) h = None \<longrightarrow> dget (cached_refs m1) h = None"
    by (rule enc_can_allocate_spec[OF inv i sz, unfolded h])
  let ?s1 = "s\<lparr>enc_mgr := EncCache m1\<rparr>"
  let ?j = "max 0 (nc - offset ?pos)" and ?k = "min (plength ?pos) (nc + enc_new_tokens s - offset ?pos)"
  have "0 < plength ?pos" using wf by (simp add: wf_feature_def)
  then have "?j < ?k" using reach new by auto
  then have e: "get_embeds_indices_in_range ?pos ?j ?k = Inr (embeds_before ?pos ?j, embeds_before ?pos ?k)"
    by (intro embeds_in_range[OF wf]) simp_all
  consider "\<not> ok" | "ok" "embeds_before ?pos ?k = embeds_before ?pos ?j"
    | "ok" "embeds_before ?pos ?k \<noteq> embeds_before ?pos ?j" by blast
  then show ?thesis
  proof cases
    case 1
    then show ?thesis
      using c reach new by (intro exI[of _ False] exI[of _ m1]) (simp add: turn_ok_def enc_try_allocate_def Let_def)
  next
    case 2
    have "\<not> worker_reads nc nn f" if "0 < nn" "nn \<le> enc_new_tokens s" for nn
      using no_embeds_shorter[OF wf that(2,1), of nc] 2(2) by auto
    then show ?thesis
      using c 2 e by (intro exI[of _ True] exI[of _ m1] exI[of _ ?s1]) (auto simp: turn_ok_def enc_try_allocate_def Let_def)
  next
    case 3
    let ?s2 = "enc_grant remote i ?h (sz ?h) ?s1"
    have g: "step_inv sz r m1 ?s2" "\<forall>h. covered r ?s1 h \<longrightarrow> covered r ?s2 h" "covered r ?s2 ?h"
      "enc_new_tokens ?s2 = enc_new_tokens ?s1"
      using enc_grant_spec[OF c(2) i, unfolded h, of remote] miss c(4,5) 3(1) by simp_all
    then show ?thesis
      using c 3 e by (intro exI[of _ True] exI[of _ m1] exI[of _ ?s2]) (auto simp: turn_ok_def enc_try_allocate_def Let_def)
  qed
qed

lemma enc_body_spec:
  assumes inv: "step_inv sz r m s" and i: "valid_input r i" and f: "mm_features r ! nat i = f"
    and sz: "sized sz r" and wf: "wf_feature f" and new: "0 < enc_new_tokens s"
  shows "\<exists>go_on m' s'. enc_body no_chunking remote r nc 0 (i, f) s = Inr (go_on, s') \<and> turn_ok sz r nc f s go_on m' s'"
proof -
  let ?pos = "mm_position f" and ?h = "mm_identifier f"
  have h: "input_hash r i = ?h" using f by (simp add: input_hash_def)
  have "f \<in> set (mm_features r)" using i f by (auto simp: valid_input_def nat_less_iff)
  then have n: "get_num_embeds ?pos = Inr (sz ?h)" using sz by (simp add: sized_def)
  have mgr: "enc_mgr s = EncCache m" using inv by (simp add: step_inv_def)
  show ?thesis
  proof (cases "nc + enc_new_tokens s \<le> offset ?pos \<or> offset ?pos + plength ?pos \<le> nc")
    case True
    then show ?thesis
      using inv mgr n by (intro exI[of _ "\<not> nc + enc_new_tokens s \<le> offset ?pos"] exI[of _ m] exI[of _ s])
        (auto simp: enc_body_def Let_def worker_reads_def turn_ok_def)
  next
    case False
    then have reach: "offset ?pos < nc + enc_new_tokens s" "nc < offset ?pos + plength ?pos" by simp_all
    obtain hit m1 where l: "enc_lookup r i ?h s = Inr (hit, s\<lparr>enc_mgr := EncCache m1\<rparr>)"
      "step_inv sz r m1 (s\<lparr>enc_mgr := EncCache m1\<rparr>)"
      "\<forall>h. covered r s h \<longrightarrow> covered r (s\<lparr>enc_mgr := EncCache m1\<rparr>) h"
      "hit \<longrightarrow> covered r (s\<lparr>enc_mgr := EncCache m1\<rparr>) ?h"
      "\<not> hit \<longrightarrow> ?h \<notin> enc_hashes s \<and> dget (cached_refs m1) ?h = None"
      by (rule enc_lookup_spec[OF inv i, unfolded h])
    let ?s1 = "s\<lparr>enc_mgr := EncCache m1\<rparr>"
    consider "hit" | "\<not> hit" "no_chunking \<and> nc < offset ?pos \<and> nc + enc_new_tokens s < offset ?pos + plength ?pos"
      | "\<not> hit" "\<not> (no_chunking \<and> nc < offset ?pos \<and> nc + enc_new_tokens s < offset ?pos + plength ?pos)" by blast
    then show ?thesis
    proof cases
      case 1
      then show ?thesis
        using l n mgr False by (intro exI[of _ True] exI[of _ m1] exI[of _ ?s1])
          (simp add: enc_body_def Let_def turn_ok_def)
    next
      case 2
      then show ?thesis
        using l n mgr False reach by (intro exI[of _ False] exI[of _ m1]) (simp add: enc_body_def Let_def turn_ok_def)
    next
      case 3
      from enc_turn_allocate[OF l(2) i f sz wf _ _ reach(2), of remote] new reach l(5) 3(1)
      obtain go_on m' s' where t: "enc_try_allocate remote r nc 0 i f (sz ?h) ?s1 = Inr (go_on, s')"
        "turn_ok sz r nc f ?s1 go_on m' s'" by auto
      have "enc_body no_chunking remote r nc 0 (i, f) s = Inr (go_on, s')"
        using l(1) n mgr False 3 t(1) by (auto simp: enc_body_def Let_def)
      moreover have "turn_ok sz r nc f s go_on m' s'" using t(2) l(3) by (simp add: turn_ok_def)
      ultimately show ?thesis by blast
    qed
  qed
qed

lemma enc_loop_spec:
  assumes "\<forall>(i, f) \<in> set items. valid_input r i \<and> mm_features r ! nat i = f \<and> wf_feature f" "sized sz r"
    "step_inv sz r m s" "0 < enc_new_tokens s"
  shows "\<exists>m' s'. enc_loop no_chunking remote r nc 0 items s = Inr s' \<and> step_inv sz r m' s' \<and>
    (\<forall>h. covered r s h \<longrightarrow> covered r s' h) \<and> enc_new_tokens s' \<le> enc_new_tokens s \<and>
    (0 < enc_new_tokens s' \<longrightarrow>
       (\<forall>f \<in> set (takeWhile (\<lambda>f. offset (mm_position f) < nc + enc_new_tokens s') (map snd items)).
          worker_reads nc (enc_new_tokens s') f \<longrightarrow> covered r s' (mm_identifier f)))"
  using assms(1,3,4)
proof (induction items arbitrary: m s)
  case (Cons item items)
  obtain i f where item: "item = (i, f)" by (cases item)
  have if': "valid_input r i" "mm_features r ! nat i = f" "wf_feature f" using Cons.prems(1) item by auto
  obtain go_on m1 s1 where b: "enc_body no_chunking remote r nc 0 (i, f) s = Inr (go_on, s1)" "turn_ok sz r nc f s go_on m1 s1"
    using enc_body_spec[OF Cons.prems(2) if'(1,2) assms(2) if'(3) Cons.prems(3)] by blast
  show ?case
  proof (cases go_on)
    case False
    then show ?thesis
      using b item by (intro exI[of _ m1] exI[of _ s1]) (auto simp: turn_ok_def)
  next
    case True
    then have t: "step_inv sz r m1 s1" "\<forall>h. covered r s h \<longrightarrow> covered r s1 h" "enc_new_tokens s1 = enc_new_tokens s"
      "\<forall>nn. 0 < nn \<and> nn \<le> enc_new_tokens s \<and> worker_reads nc nn f \<longrightarrow> covered r s1 (mm_identifier f)"
      using b(2) by (auto simp: turn_ok_def)
    have "\<exists>m' s'. enc_loop no_chunking remote r nc 0 items s1 = Inr s' \<and> step_inv sz r m' s' \<and>
      (\<forall>h. covered r s1 h \<longrightarrow> covered r s' h) \<and> enc_new_tokens s' \<le> enc_new_tokens s1 \<and>
      (0 < enc_new_tokens s' \<longrightarrow>
         (\<forall>f \<in> set (takeWhile (\<lambda>f. offset (mm_position f) < nc + enc_new_tokens s') (map snd items)).
            worker_reads nc (enc_new_tokens s') f \<longrightarrow> covered r s' (mm_identifier f)))"
      using Cons.prems t(3) by (intro Cons.IH[OF _ t(1)]) simp_all
    then obtain m' s' where l: "enc_loop no_chunking remote r nc 0 items s1 = Inr s'" "step_inv sz r m' s'"
      "\<forall>h. covered r s1 h \<longrightarrow> covered r s' h" "enc_new_tokens s' \<le> enc_new_tokens s"
      "0 < enc_new_tokens s' \<longrightarrow>
         (\<forall>f \<in> set (takeWhile (\<lambda>f. offset (mm_position f) < nc + enc_new_tokens s') (map snd items)).
            worker_reads nc (enc_new_tokens s') f \<longrightarrow> covered r s' (mm_identifier f))"
      using t(3) by auto
    have "enc_loop no_chunking remote r nc 0 (item # items) s = Inr s'" using b(1) True l(1) item by simp
    moreover have "worker_reads nc (enc_new_tokens s') f \<Longrightarrow> 0 < enc_new_tokens s' \<Longrightarrow> covered r s' (mm_identifier f)"
      using t(4) l(3,4) by blast
    ultimately show ?thesis using l t(2) item by (intro exI[of _ m'] exI[of _ s']) auto
  qed
qed auto

lemma mgr_allocate_all:
  assumes "enc_inv sz m" "sized sz r" "\<forall>i \<in> set is. valid_input r i \<and> dget (cached_refs m) (input_hash r i) = None"
    "distinct (map (input_hash r) is)" "sum_list (map (sz \<circ> input_hash r) is) \<le> num_free_slots m"
  shows "\<exists>m'. foldE (mgr_allocate r) is (EncCache m) = Inr (EncCache m') \<and> enc_inv sz m' \<and>
    (\<forall>rid h. refers rid h m \<longrightarrow> refers rid h m') \<and> (\<forall>i \<in> set is. refers (request_id r) (input_hash r i) m')"
  using assms(1,3-5)
proof (induction "is" arbitrary: m)
  case (Cons i "is")
  have nonneg: "0 \<le> sum_list (map (sz \<circ> input_hash r) is)"
    using enc_invD(3)[OF Cons.prems(1)] by (intro sum_list_nonneg) auto
  have i: "valid_input r i" "dget (cached_refs m) (input_hash r i) = None" using Cons.prems(2) by simp_all
  have room: "sz (input_hash r i) \<le> num_free_slots m" using Cons.prems(4) nonneg by (simp add: comp_def)
  obtain m1 where m1: "ecm_allocate r i m = Inr m1" "enc_inv sz m1" "cache_size m1 = cache_size m"
    "num_free_slots m1 = num_free_slots m - sz (input_hash r i)"
    "\<forall>h. dget (cached_refs m1) h = (if h = input_hash r i then Some {request_id r} else dget (cached_refs m) h)"
    by (rule ecm_allocate_spec[OF Cons.prems(1) i(1) assms(2) i(2) room])
  have "input_hash r j \<noteq> input_hash r i" if "j \<in> set is" for j
    using Cons.prems(3) imageI[OF that, of "input_hash r"] by auto
  then have "\<forall>j \<in> set is. valid_input r j \<and> dget (cached_refs m1) (input_hash r j) = None"
    using Cons.prems(2) m1(5) by simp
  from Cons.IH[OF m1(2) this] Cons.prems(3,4) m1(4) obtain m' where m':
    "foldE (mgr_allocate r) is (EncCache m1) = Inr (EncCache m')" "enc_inv sz m'"
    "\<forall>rid h. refers rid h m1 \<longrightarrow> refers rid h m'" "\<forall>i \<in> set is. refers (request_id r) (input_hash r i) m'" by auto
  have "refers rid h m \<longrightarrow> refers rid h m1" for rid h using m1(5) i(2) by (auto simp: refers_def)
  moreover have "refers (request_id r) (input_hash r i) m1" using m1(5) by (simp add: refers_def)
  ultimately show ?case using m1(1) m' by auto
qed simp

lemma enumerate_features_ok:
  assumes "\<forall>f \<in> set (mm_features r). wf_feature f"
  shows "\<forall>(i, f) \<in> set (enumerate_features r). valid_input r i \<and> mm_features r ! nat i = f \<and> wf_feature f"
    "map snd (enumerate_features r) = mm_features r"
proof -
  have len: "length [0..int (length (mm_features r)) - 1] = length (mm_features r)" by simp
  show "map snd (enumerate_features r) = mm_features r" unfolding enumerate_features_def using len by (rule map_snd_zip)
  show "\<forall>(i, f) \<in> set (enumerate_features r). valid_input r i \<and> mm_features r ! nat i = f \<and> wf_feature f"
    using assms by (auto simp: enumerate_features_def set_zip valid_input_def)
qed

section \<open>Properties\<close>

text \<open>
  C22: what the scheduler promises the worker about multimodal inputs. Without speculative shift,
  choosing the encoder inputs of a request never fails and never asks for more tokens; when some
  tokens are left to compute, allocating the chosen inputs meets no failing assertion, and every
  encoder output the worker then looks up for those tokens is in the cache and held by the request.
\<close>

theorem encoder_inputs_reach_worker:
  assumes "encoder_run sz cap m" "0 \<le> cap" "\<And>h. 0 \<le> sz h" "sized sz r" "\<forall>f \<in> set (mm_features r). wf_feature f"
    "0 < num_new"
  shows "\<exists>inputs nn budget' external m'.
    try_schedule_encoder_inputs no_chunking remote r nc num_new budget 0 (EncCache m) =
      Inr (inputs, nn, budget', external, EncCache m') \<and> nn \<le> num_new \<and>
    (0 < nn \<longrightarrow> (\<exists>m'' reads. allocate_encoder_inputs r inputs external (EncCache m') = Inr (EncCache m'') \<and>
       gather_mm_reads r nc nn 0 = Inr reads \<and> (\<forall>h \<in> set reads. refers (request_id r) h m'')))"
proof (cases "has_encoder_inputs r")
  case False
  then have "mm_features r = []" by (simp add: has_encoder_inputs_def num_encoder_inputs_def)
  then show ?thesis using False
    by (simp add: try_schedule_encoder_inputs_def allocate_encoder_inputs_def gather_mm_reads_def)
next
  case True
  have inv: "enc_inv sz m" using encoder_run_inv[OF assms(1-3)] by simp
  let ?s = "\<lparr>enc_inputs = [], enc_new_tokens = num_new, enc_budget = budget, enc_external = [],
              enc_hashes = {}, enc_embeds = 0, enc_mgr = EncCache m\<rparr>"
  have "step_inv sz r m ?s" using inv enc_invD(4)[OF inv] by (simp add: step_inv_def)
  from enc_loop_spec[OF enumerate_features_ok(1)[OF assms(5)] assms(4) this, of no_chunking remote nc] assms(6)
    enumerate_features_ok(2)[OF assms(5)]
  obtain m' s where l: "enc_loop no_chunking remote r nc 0 (enumerate_features r) ?s = Inr s" "step_inv sz r m' s"
    "enc_new_tokens s \<le> num_new"
    "0 < enc_new_tokens s \<longrightarrow>
       (\<forall>f \<in> set (takeWhile (\<lambda>f. offset (mm_position f) < nc + enc_new_tokens s) (mm_features r)).
          worker_reads nc (enc_new_tokens s) f \<longrightarrow> covered r s (mm_identifier f))" by auto
  have mgr: "enc_mgr s = EncCache m'" using l(2) by (simp add: step_inv_def)
  have tr: "try_schedule_encoder_inputs no_chunking remote r nc num_new budget 0 (EncCache m) =
      Inr (enc_inputs s, enc_new_tokens s, enc_budget s, enc_external s, EncCache m')"
    using True assms(6) l(1) mgr by (simp add: try_schedule_encoder_inputs_def)
  obtain m'' where a: "foldE (mgr_allocate r) (granted s) (EncCache m') = Inr (EncCache m'')"
    "\<forall>rid h. refers rid h m' \<longrightarrow> refers rid h m''" "\<forall>i \<in> set (granted s). refers (request_id r) (input_hash r i) m''"
    using mgr_allocate_all[of sz m' r "granted s"] l(2) assms(4) unfolding step_inv_def by metis
  have cov: "refers (request_id r) h m''" if "covered r s h" for h
    using that a(2,3) l(2) mgr by (auto simp: covered_def step_inv_def)
  have "\<exists>reads. gather_mm_reads r nc (enc_new_tokens s) 0 = Inr reads \<and> (\<forall>h \<in> set reads. refers (request_id r) h m'')"
    if pos: "0 < enc_new_tokens s"
  proof -
    let ?F = "{f \<in> set (takeWhile (\<lambda>f. offset (mm_position f) < nc + enc_new_tokens s) (mm_features r)).
      worker_reads nc (enc_new_tokens s) f}"
    obtain hs where hs: "gather_reads nc (enc_new_tokens s) (mm_features r) = Inr hs" "set hs \<subseteq> mm_identifier ` ?F"
      using gather_reads_spec[OF assms(5) pos, of nc] by blast
    have "refers (request_id r) (mm_identifier f) m''" if "f \<in> ?F" for f using that l(4) pos cov by simp
    then show ?thesis using hs by (auto simp: gather_mm_reads_def)
  qed
  moreover have "allocate_encoder_inputs r (enc_inputs s) (enc_external s) (EncCache m') = Inr (EncCache m'')"
    using a(1) by (simp add: allocate_encoder_inputs_def foldE_append)
  ultimately show ?thesis using tr l(3) by blast
qed

theorem encoder_inputs_reach_worker_witness:
  "\<exists>inputs nn budget' external m'.
    try_schedule_encoder_inputs False None (image_request ''r'' [image_at ''x'' 0 4, image_at ''y'' 6 4]) 0 8 10 0
      (EncCache (ecm_init 20)) = Inr (inputs, nn, budget', external, EncCache m') \<and> nn \<le> 8"
proof -
  have "\<forall>f \<in> set (mm_features (image_request ''r'' [image_at ''x'' 0 4, image_at ''y'' 6 4])). wf_feature f"
    by (simp add: wf_feature_def image_at_def)
  from encoder_inputs_reach_worker[OF enc_start _ _ sized_image_request this, of 20 8 False None 0 10]
  show ?thesis by auto
qed

text \<open>
  C34: with the shift of one that speculative decoding uses, the promise fails at a chunk boundary.
  When the tokens of a step end right before an image, the image is in reach of the shifted range
  but has no embeddings in the unshifted one, so it is skipped even though the budget and the cache
  have room; the drafter of the worker looks it up all the same.
\<close>

theorem shifted_lookup_misses_cache:
  assumes "0 < num_new" "0 \<le> nc" "0 < n" "n \<le> budget" "n \<le> cap"
  shows "try_schedule_encoder_inputs False None (image_request rid [image_at h (nc + num_new) n]) nc num_new budget 1
      (EncCache (ecm_init cap)) = Inr ([], num_new, budget, [], EncCache (ecm_init cap)) \<and>
    gather_mm_reads (image_request rid [image_at h (nc + num_new) n]) nc num_new 1 = Inr [h] \<and>
    dget (cached_refs (ecm_init cap)) h = None"
  using assms
  by (simp add: try_schedule_encoder_inputs_def has_encoder_inputs_def num_encoder_inputs_def enumerate_features_def
      enc_body_def enc_lookup_def enc_try_allocate_def image_at_def get_num_embeds_def embeds_cumsum_def Let_def
      check_and_update_cache_def can_allocate_def get_num_encoder_embeds_def py_nth_def ecm_init_def
      get_embeds_indices_in_range_def gather_mm_reads_def)

theorem shifted_lookup_misses_cache_witness:
  "gather_mm_reads (image_request ''r'' [image_at ''x'' 8 4]) 0 8 1 = Inr [''x''] \<and>
   try_schedule_encoder_inputs False None (image_request ''r'' [image_at ''x'' 8 4]) 0 8 100 1 (EncCache (ecm_init 100)) =
     Inr ([], 8, 100, [], EncCache (ecm_init 100))"
  using shifted_lookup_misses_cache[of 8 0 4 100 100 "''r''" "''x''"] by simp

end
