(* ===== verification/KV_Spec.thy ===== *)
theory KV_Spec
  imports Prelude
begin

text \<open>
  The KV cache formats of the layers of a model: \<open>vllm/v1/kv_cache_interface.py\<close>. One constructor
  per class; the fields of \<open>AttentionSpec\<close>, which the merge functions compare field by field, are a
  record. The size in bytes of a torch type is the argument \<open>dsz\<close>.
\<close>

section \<open>Specifications\<close>

record attn_spec =
  attn_block_size :: int
  num_kv_heads :: int
  head_size :: int
  attn_dtype :: string
  attn_page_size_padded :: "int option"

record full_fields =
  head_size_v :: int
  full_sliding_window :: "int option"
  full_attention_chunk_size :: "int option"

record mamba_fields =
  mamba_block_size :: int
  mamba_shapes :: "int list list"
  mamba_dtypes :: "string list"
  mamba_page_size_padded :: "int option"
  mamba_type :: string
  mamba_cache_mode :: string
  num_speculative_blocks :: int

datatype kv_cache_spec =
    FullAttentionSpec attn_spec full_fields
  | MLAAttentionSpec attn_spec full_fields "string option"
  | ChunkedLocalAttentionSpec attn_spec int
  | SlidingWindowSpec attn_spec int
  | MambaSpec mamba_fields
  | EncoderOnlyAttentionSpec attn_spec
  | CrossAttentionSpec attn_spec
  | SinkFullAttentionSpec attn_spec full_fields "int option"
  | UniformTypeKVCacheSpecs int "(string \<times> kv_cache_spec) list"

text \<open>\<open>__post_init__\<close>: the value heads have the size of the key heads unless it is given.\<close>

definition full_fields_init :: "attn_spec \<Rightarrow> int option \<Rightarrow> int option \<Rightarrow> int option \<Rightarrow> full_fields" where
  "full_fields_init a hv window chunk =
     \<lparr>head_size_v = (case hv of None \<Rightarrow> head_size a | Some v \<Rightarrow> v),
      full_sliding_window = window, full_attention_chunk_size = chunk\<rparr>"

fun spec_block_size :: "kv_cache_spec \<Rightarrow> int" where
  "spec_block_size (FullAttentionSpec a f) = attn_block_size a"
| "spec_block_size (MLAAttentionSpec a f c) = attn_block_size a"
| "spec_block_size (ChunkedLocalAttentionSpec a n) = attn_block_size a"
| "spec_block_size (SlidingWindowSpec a w) = attn_block_size a"
| "spec_block_size (MambaSpec m) = mamba_block_size m"
| "spec_block_size (EncoderOnlyAttentionSpec a) = attn_block_size a"
| "spec_block_size (CrossAttentionSpec a) = attn_block_size a"
| "spec_block_size (SinkFullAttentionSpec a f s) = attn_block_size a"
| "spec_block_size (UniformTypeKVCacheSpecs b specs) = b"

text \<open>\<open>isinstance(spec, FullAttentionSpec)\<close> and the fields of the instances.\<close>

fun full_attention_fields :: "kv_cache_spec \<Rightarrow> (attn_spec \<times> full_fields) option" where
  "full_attention_fields (FullAttentionSpec a f) = Some (a, f)"
| "full_attention_fields (MLAAttentionSpec a f c) = Some (a, f)"
| "full_attention_fields (SinkFullAttentionSpec a f s) = Some (a, f)"
| "full_attention_fields _ = None"

abbreviation is_full_attention :: "kv_cache_spec \<Rightarrow> bool" where
  "is_full_attention s \<equiv> full_attention_fields s \<noteq> None"

fun copy_with_new_block_size :: "int \<Rightarrow> kv_cache_spec \<Rightarrow> kv_cache_spec" where
  "copy_with_new_block_size b (FullAttentionSpec a f) = FullAttentionSpec (a\<lparr>attn_block_size := b\<rparr>) f"
| "copy_with_new_block_size b (MLAAttentionSpec a f c) = MLAAttentionSpec (a\<lparr>attn_block_size := b\<rparr>) f c"
| "copy_with_new_block_size b (ChunkedLocalAttentionSpec a n) = ChunkedLocalAttentionSpec (a\<lparr>attn_block_size := b\<rparr>) n"
| "copy_with_new_block_size b (SlidingWindowSpec a w) = SlidingWindowSpec (a\<lparr>attn_block_size := b\<rparr>) w"
| "copy_with_new_block_size b (MambaSpec m) = MambaSpec (m\<lparr>mamba_block_size := b\<rparr>)"
| "copy_with_new_block_size b (EncoderOnlyAttentionSpec a) = EncoderOnlyAttentionSpec (a\<lparr>attn_block_size := b\<rparr>)"
| "copy_with_new_block_size b (CrossAttentionSpec a) = CrossAttentionSpec (a\<lparr>attn_block_size := b\<rparr>)"
| "copy_with_new_block_size b (SinkFullAttentionSpec a f s) = SinkFullAttentionSpec (a\<lparr>attn_block_size := b\<rparr>) f s"
| "copy_with_new_block_size b (UniformTypeKVCacheSpecs c specs) = UniformTypeKVCacheSpecs b specs"

section \<open>Page sizes\<close>

definition attn_real_page_size :: "(string \<Rightarrow> int) \<Rightarrow> attn_spec \<Rightarrow> int" where
  "attn_real_page_size dsz a = 2 * attn_block_size a * num_kv_heads a * head_size a * dsz (attn_dtype a)"

definition full_real_page_size :: "(string \<Rightarrow> int) \<Rightarrow> attn_spec \<Rightarrow> full_fields \<Rightarrow> int" where
  "full_real_page_size dsz a f =
     attn_block_size a * num_kv_heads a * (head_size a + head_size_v f) * dsz (attn_dtype a)"

definition mla_real_page_size :: "(string \<Rightarrow> int) \<Rightarrow> attn_spec \<Rightarrow> string option \<Rightarrow> int" where
  "mla_real_page_size dsz a c =
     (if c = Some ''fp8_ds_mla'' then attn_block_size a * 656
      else attn_block_size a * num_kv_heads a * head_size a * dsz (attn_dtype a))"

definition padded_page_size :: "int option \<Rightarrow> int \<Rightarrow> int result" where
  "padded_page_size padded real =
     (case padded of None \<Rightarrow> Inr real | Some n \<Rightarrow> bindE (assertE (real \<le> n)) (\<lambda>_. Inr n))"

definition mamba_real_page_size :: "(string \<Rightarrow> int) \<Rightarrow> mamba_fields \<Rightarrow> int" where
  "mamba_real_page_size dsz m =
     sum_list (map (\<lambda>(shape, dt). prod_list shape * dsz dt) (zip (mamba_shapes m) (mamba_dtypes m)))"

fun page_size_bytes :: "(string \<Rightarrow> int) \<Rightarrow> kv_cache_spec \<Rightarrow> int result" where
  "page_size_bytes dsz (FullAttentionSpec a f) =
     padded_page_size (attn_page_size_padded a) (full_real_page_size dsz a f)"
| "page_size_bytes dsz (MLAAttentionSpec a f c) =
     padded_page_size (attn_page_size_padded a) (mla_real_page_size dsz a c)"
| "page_size_bytes dsz (ChunkedLocalAttentionSpec a n) =
     padded_page_size (attn_page_size_padded a) (attn_real_page_size dsz a)"
| "page_size_bytes dsz (SlidingWindowSpec a w) =
     padded_page_size (attn_page_size_padded a) (attn_real_page_size dsz a)"
| "page_size_bytes dsz (MambaSpec m) =
     padded_page_size (mamba_page_size_padded m) (mamba_real_page_size dsz m)"
| "page_size_bytes dsz (EncoderOnlyAttentionSpec a) =
     padded_page_size (attn_page_size_padded a) (attn_real_page_size dsz a)"
| "page_size_bytes dsz (CrossAttentionSpec a) =
     padded_page_size (attn_page_size_padded a) (attn_real_page_size dsz a)"
| "page_size_bytes dsz (SinkFullAttentionSpec a f s) =
     padded_page_size (attn_page_size_padded a) (full_real_page_size dsz a f)"
| "page_size_bytes dsz (UniformTypeKVCacheSpecs b specs) =
     foldE (\<lambda>ns total. bindE (page_size_bytes dsz (snd ns)) (\<lambda>n. Inr (total + n))) specs 0"

section \<open>Memory usage\<close>

text \<open>The configuration values the sizes depend on.\<close>

record vllm_config =
  max_model_len :: int
  dcp_size :: int
  pcp_size :: int
  cfg_max_num_batched_tokens :: int
  cfg_max_num_encoder_input_tokens :: int
  cfg_mamba_cache_mode :: string
  num_gpu_blocks_override :: "int option"
  disable_hybrid_kv_cache_manager :: bool
  original_max_model_len :: int

definition full_max_memory :: "vllm_config \<Rightarrow> int \<Rightarrow> int \<Rightarrow> int" where
  "full_max_memory cfg bs page =
     (let len = (if 1 < dcp_size cfg * pcp_size cfg then cdiv (max_model_len cfg) (dcp_size cfg * pcp_size cfg)
                 else max_model_len cfg)
      in cdiv len bs * page)"

definition chunked_max_memory :: "vllm_config \<Rightarrow> attn_spec \<Rightarrow> int \<Rightarrow> int \<Rightarrow> int" where
  "chunked_max_memory cfg a chunk page =
     cdiv (min (chunk + cfg_max_num_batched_tokens cfg) (max_model_len cfg)) (attn_block_size a) * page"

definition sliding_max_memory :: "vllm_config \<Rightarrow> attn_spec \<Rightarrow> int \<Rightarrow> int \<Rightarrow> int" where
  "sliding_max_memory cfg a window page =
     (cdiv (min (window - 1 + cfg_max_num_batched_tokens cfg) (max_model_len cfg)) (attn_block_size a) + 1) * page"

definition mamba_max_memory :: "vllm_config \<Rightarrow> mamba_fields \<Rightarrow> int \<Rightarrow> int" where
  "mamba_max_memory cfg m page =
     (if cfg_mamba_cache_mode cfg = ''all'' then cdiv (max_model_len cfg) (mamba_block_size m) * page
      else if cfg_mamba_cache_mode cfg = ''align'' then page * (2 + num_speculative_blocks m)
      else page * (1 + num_speculative_blocks m))"

definition cross_max_memory :: "vllm_config \<Rightarrow> attn_spec \<Rightarrow> int \<Rightarrow> int" where
  "cross_max_memory cfg a page = cdiv (cfg_max_num_encoder_input_tokens cfg) (attn_block_size a) * page"

lemmas max_memory_defs = chunked_max_memory_def sliding_max_memory_def mamba_max_memory_def cross_max_memory_def

fun max_memory_usage_bytes :: "(string \<Rightarrow> int) \<Rightarrow> vllm_config \<Rightarrow> kv_cache_spec \<Rightarrow> int result" where
  "max_memory_usage_bytes dsz cfg (FullAttentionSpec a f) =
     bindE (page_size_bytes dsz (FullAttentionSpec a f)) (\<lambda>page.
       Inr (full_max_memory cfg (attn_block_size a) page))"
| "max_memory_usage_bytes dsz cfg (MLAAttentionSpec a f c) =
     bindE (page_size_bytes dsz (MLAAttentionSpec a f c)) (\<lambda>page.
       Inr (full_max_memory cfg (attn_block_size a) page))"
| "max_memory_usage_bytes dsz cfg (SinkFullAttentionSpec a f s) =
     bindE (page_size_bytes dsz (SinkFullAttentionSpec a f s)) (\<lambda>page.
       Inr (full_max_memory cfg (attn_block_size a) page))"
| "max_memory_usage_bytes dsz cfg (ChunkedLocalAttentionSpec a n) =
     bindE (page_size_bytes dsz (ChunkedLocalAttentionSpec a n)) (\<lambda>page.
       Inr (chunked_max_memory cfg a n page))"
| "max_memory_usage_bytes dsz cfg (SlidingWindowSpec a w) =
     bindE (assertE (dcp_size cfg = 1)) (\<lambda>_.
     bindE (page_size_bytes dsz (SlidingWindowSpec a w)) (\<lambda>page.
       Inr (sliding_max_memory cfg a w page)))"
| "max_memory_usage_bytes dsz cfg (MambaSpec m) =
     bindE (page_size_bytes dsz (MambaSpec m)) (\<lambda>page.
       Inr (mamba_max_memory cfg m page))"
| "max_memory_usage_bytes dsz cfg (EncoderOnlyAttentionSpec a) = Inr 0"
| "max_memory_usage_bytes dsz cfg (CrossAttentionSpec a) =
     bindE (page_size_bytes dsz (CrossAttentionSpec a)) (\<lambda>page.
       Inr (cross_max_memory cfg a page))"
| "max_memory_usage_bytes dsz cfg (UniformTypeKVCacheSpecs b specs) =
     bindE (foldE (\<lambda>ns acc.
         bindE (max_memory_usage_bytes dsz cfg (snd ns)) (\<lambda>usage.
         bindE (page_size_bytes dsz (snd ns)) (\<lambda>page.
           if page = 0 then Inl ZeroDivisionError else Inr (acc @ [cdiv usage page])))) specs []) (\<lambda>pages.
     if pages = [] then Inl ValueError
     else bindE (page_size_bytes dsz (UniformTypeKVCacheSpecs b specs)) (\<lambda>page. Inr (Max (set pages) * page)))"

section \<open>Merging the specifications of a group\<close>

definition merge_equal :: "kv_cache_spec list \<Rightarrow> kv_cache_spec result" where
  "merge_equal specs =
     (case specs of [] \<Rightarrow> Inl IndexError
      | s # rest \<Rightarrow> bindE (assertE (\<forall>t \<in> set rest. t = s)) (\<lambda>_. Inr s))"

fun merge_window_sizes :: "int list \<Rightarrow> int option result" where
  "merge_window_sizes [] = Inr None"
| "merge_window_sizes [w] = Inr (Some w)"
| "merge_window_sizes _ = Inl ValueError"

definition distinct_some :: "'a option list \<Rightarrow> 'a list" where
  "distinct_some xs = remdups (map the (filter (\<lambda>x. x \<noteq> None) xs))"

fun is_mla :: "kv_cache_spec \<Rightarrow> bool" where
  "is_mla (MLAAttentionSpec a f c) = True"
| "is_mla _ = False"

text \<open>\<open>cls\<close> is the class the merge is called on, \<open>FullAttentionSpec\<close> or its subclass with a sink.\<close>

definition merge_full :: "(attn_spec \<Rightarrow> full_fields \<Rightarrow> kv_cache_spec) \<Rightarrow> kv_cache_spec list \<Rightarrow> kv_cache_spec result" where
  "merge_full cls specs =
     bindE (assertE (\<forall>s \<in> set specs. is_full_attention s)) (\<lambda>_.
     (let fs = map (the \<circ> full_attention_fields) specs in
      bindE (assertE (\<not> (\<exists>s \<in> set specs. is_mla s))) (\<lambda>_.
      case fs of
        [] \<Rightarrow> Inl IndexError
      | (a, f) # _ \<Rightarrow>
          bindE (merge_window_sizes (distinct_some (map (full_sliding_window \<circ> snd) fs))) (\<lambda>w.
          bindE (merge_window_sizes (distinct_some (map (full_attention_chunk_size \<circ> snd) fs))) (\<lambda>c.
          bindE (assertE (\<forall>(b, g) \<in> set fs. b = a)) (\<lambda>_.
          bindE (assertE (w = None \<or> c = None)) (\<lambda>_.
          Inr (cls a (f\<lparr>full_sliding_window := w, full_attention_chunk_size := c\<rparr>)))))))))"

definition merge_mla :: "kv_cache_spec list \<Rightarrow> kv_cache_spec result" where
  "merge_mla specs =
     bindE (assertE (\<forall>s \<in> set specs. is_mla s)) (\<lambda>_.
     (case remdups (map (\<lambda>s. case s of MLAAttentionSpec a f c \<Rightarrow> c | _ \<Rightarrow> None) specs) of
        [c] \<Rightarrow> (case full_attention_fields (hd specs) of
                  None \<Rightarrow> Inl AttributeError
                | Some (a, f) \<Rightarrow> Inr (MLAAttentionSpec a (full_fields_init a None None None) c))
      | _ \<Rightarrow> Inl AssertionError))"

text \<open>\<open>specs[0].merge(specs)\<close> runs the merge of the class of the first specification.\<close>

definition merge_specs :: "kv_cache_spec list \<Rightarrow> kv_cache_spec result" where
  "merge_specs specs =
     (case specs of
        [] \<Rightarrow> Inl IndexError
      | FullAttentionSpec a f # _ \<Rightarrow> merge_full FullAttentionSpec specs
      | SinkFullAttentionSpec a f s # _ \<Rightarrow> merge_full (\<lambda>a f. SinkFullAttentionSpec a f s) specs
      | MLAAttentionSpec a f c # _ \<Rightarrow> merge_mla specs
      | _ \<Rightarrow> merge_equal specs)"

section \<open>Uniform groups\<close>

fun same_type :: "kv_cache_spec \<Rightarrow> kv_cache_spec \<Rightarrow> bool" where
  "same_type (CrossAttentionSpec a) (CrossAttentionSpec b) = True"
| "same_type (SlidingWindowSpec a w) (SlidingWindowSpec b v) = (v = w)"
| "same_type (ChunkedLocalAttentionSpec a n) (ChunkedLocalAttentionSpec b k) = (k = n)"
| "same_type (MambaSpec m) (MambaSpec k) = (num_speculative_blocks k = num_speculative_blocks m)"
| "same_type s t = (is_full_attention s \<and> is_full_attention t)"

definition is_uniform_type :: "(string, kv_cache_spec) dict \<Rightarrow> bool result" where
  "is_uniform_type specs =
     (if 1 < card (spec_block_size ` snd ` set specs) then Inr False
      else (case specs of
              [] \<Rightarrow> Inl StopIteration
            | (_, one) # _ \<Rightarrow>
                (case one of
                   EncoderOnlyAttentionSpec a \<Rightarrow> Inl NotImplementedError
                 | UniformTypeKVCacheSpecs b ss \<Rightarrow> Inl NotImplementedError
                 | _ \<Rightarrow> Inr (\<forall>ns \<in> set specs. same_type one (snd ns)))))"

definition uniform_from_specs :: "(string, kv_cache_spec) dict \<Rightarrow> kv_cache_spec option result" where
  "uniform_from_specs specs =
     bindE (is_uniform_type specs) (\<lambda>u.
       Inr (if u then Some (UniformTypeKVCacheSpecs (spec_block_size (snd (hd specs))) specs) else None))"

section \<open>Groups and configuration\<close>

record kv_cache_tensor =
  tensor_size :: int
  shared_by :: "string list"

record kv_cache_group_spec =
  layer_names :: "string list"
  group_spec :: kv_cache_spec

record kv_cache_config =
  num_blocks :: int
  kv_cache_tensors :: "kv_cache_tensor list"
  kv_cache_groups :: "kv_cache_group_spec list"

fun is_mamba :: "kv_cache_spec \<Rightarrow> bool" where
  "is_mamba (MambaSpec m) = True"
| "is_mamba _ = False"

definition has_mamba_layers :: "kv_cache_config \<Rightarrow> bool" where
  "has_mamba_layers c \<longleftrightarrow> (\<exists>g \<in> set (kv_cache_groups c). is_mamba (group_spec g))"

definition needs_kv_cache_zeroing :: "kv_cache_config \<Rightarrow> bool" where
  "needs_kv_cache_zeroing c = has_mamba_layers c"

section \<open>Lemmas\<close>

lemma padded_page_size_le: "padded_page_size padded real = Inr n \<Longrightarrow> real \<le> n"
  by (auto simp: padded_page_size_def elim!: bindE_InrE split: option.splits)

lemma merge_window_sizes_Inr:
  "merge_window_sizes (distinct_some xs) = Inr w \<Longrightarrow> x \<in> set xs \<Longrightarrow> x = None \<or> x = w"
proof -
  assume w: "merge_window_sizes (distinct_some xs) = Inr w" and x: "x \<in> set xs"
  have mem: "y \<in> set (distinct_some xs)" if "x = Some y" for y
    using that x by (force simp: distinct_some_def)
  from w show ?thesis
  proof (cases "distinct_some xs" rule: merge_window_sizes.cases)
    case 1
    then show ?thesis using mem by (cases x) auto
  next
    case (2 v)
    then show ?thesis using w mem by (cases x) auto
  qed auto
qed

lemma merge_full_fields:
  assumes "merge_full cls specs = Inr m" "s \<in> set specs"
  shows "\<exists>a f g. full_attention_fields s = Some (a, f) \<and> m = cls a g \<and>
    (full_sliding_window f = None \<or> full_sliding_window f = full_sliding_window g) \<and>
    (full_attention_chunk_size f = None \<or> full_attention_chunk_size f = full_attention_chunk_size g)"
proof -
  let ?fs = "map (the \<circ> full_attention_fields) specs"
  obtain a f0 w c rest where m: "\<forall>s \<in> set specs. is_full_attention s" "?fs = (a, f0) # rest"
    "merge_window_sizes (distinct_some (map (full_sliding_window \<circ> snd) ?fs)) = Inr w"
    "merge_window_sizes (distinct_some (map (full_attention_chunk_size \<circ> snd) ?fs)) = Inr c"
    "\<forall>(b, g) \<in> set ?fs. b = a" "m = cls a (f0\<lparr>full_sliding_window := w, full_attention_chunk_size := c\<rparr>)"
    using assms(1) unfolding merge_full_def Let_def
    by (auto elim!: bindE_InrE split: list.splits prod.splits)
  obtain b f where bf: "full_attention_fields s = Some (b, f)" using m(1) assms(2) by fastforce
  then have mem: "(b, f) \<in> set ?fs" using assms(2) by force
  have "full_sliding_window f \<in> set (map (full_sliding_window \<circ> snd) ?fs)"
    using rev_image_eqI[OF mem, of "full_sliding_window f" "full_sliding_window \<circ> snd"] by (simp only: set_map) simp
  then have w: "full_sliding_window f = None \<or> full_sliding_window f = w" by (rule merge_window_sizes_Inr[OF m(3)])
  have "full_attention_chunk_size f \<in> set (map (full_attention_chunk_size \<circ> snd) ?fs)"
    using rev_image_eqI[OF mem, of "full_attention_chunk_size f" "full_attention_chunk_size \<circ> snd"]
    by (simp only: set_map) simp
  then have c: "full_attention_chunk_size f = None \<or> full_attention_chunk_size f = c"
    by (rule merge_window_sizes_Inr[OF m(4)])
  have "b = a" using m(5) mem by blast
  then show ?thesis
    using w c m(6) bf
    by (intro exI[of _ a] exI[of _ f] exI[of _ "f0\<lparr>full_sliding_window := w, full_attention_chunk_size := c\<rparr>"]) simp
qed

lemma merge_equal_all: "merge_equal specs = Inr m \<Longrightarrow> s \<in> set specs \<Longrightarrow> s = m"
  by (auto simp: merge_equal_def elim!: bindE_InrE split: list.splits)

section \<open>Properties\<close>

text \<open>
  C36: two full attention layers that differ only in the size of their value heads are merged
  without error, since the comparison of the fields of the base class leaves that size out; the
  pages of the group then have the size of the first layer's pages, not of the second's.
\<close>

theorem merge_ignores_value_head_size:
  assumes "attn_page_size_padded a = None" "0 < attn_block_size a" "0 < num_kv_heads a" "0 < dsz (attn_dtype a)" "v < w"
  shows "\<exists>m n k. merge_specs [FullAttentionSpec a (full_fields_init a (Some v) None None),
        FullAttentionSpec a (full_fields_init a (Some w) None None)] = Inr m \<and>
    page_size_bytes dsz m = Inr n \<and>
    page_size_bytes dsz (FullAttentionSpec a (full_fields_init a (Some w) None None)) = Inr k \<and> n < k"
proof -
  have "0 < attn_block_size a * num_kv_heads a * dsz (attn_dtype a)" using assms by simp
  then have "attn_block_size a * num_kv_heads a * dsz (attn_dtype a) * (head_size a + v) <
      attn_block_size a * num_kv_heads a * dsz (attn_dtype a) * (head_size a + w)"
    using assms(5) by (intro mult_strict_left_mono) simp_all
  then show ?thesis
    using assms(1) by (simp add: merge_specs_def merge_full_def Let_def distinct_some_def full_fields_init_def
        padded_page_size_def full_real_page_size_def mult.assoc mult.commute mult.left_commute)
qed

theorem merge_ignores_value_head_size_witness:
  "\<exists>m. merge_specs [FullAttentionSpec \<lparr>attn_block_size = 16, num_kv_heads = 8, head_size = 128, attn_dtype = ''bf16'',
        attn_page_size_padded = None\<rparr> \<lparr>head_size_v = 64, full_sliding_window = None, full_attention_chunk_size = None\<rparr>,
      FullAttentionSpec \<lparr>attn_block_size = 16, num_kv_heads = 8, head_size = 128, attn_dtype = ''bf16'',
        attn_page_size_padded = None\<rparr> \<lparr>head_size_v = 128, full_sliding_window = None, full_attention_chunk_size = None\<rparr>] = Inr m"
  using merge_ignores_value_head_size[of "\<lparr>attn_block_size = 16, num_kv_heads = 8, head_size = 128,
      attn_dtype = ''bf16'', attn_page_size_padded = None\<rparr>" "\<lambda>d. 2" 64 128]
  by (auto simp: full_fields_init_def)

end
