(* ===== verification/KV_Config.thy ===== *)
theory KV_Config
  imports KV_Spec Block_Hash
begin

text \<open>
  From the cache formats of the layers to the configuration of every worker: the functions of
  \<open>vllm/v1/core/kv_cache_utils.py\<close> that group the layers, choose the number of blocks and lay out
  the tensors, with the memory checks and the search for the longest model length. The global
  configuration is a value that the functions return when they change it. Floor divisions raise
  when the divisor is zero; log messages are left out.
\<close>

definition py_div :: "int \<Rightarrow> int \<Rightarrow> int result" where
  "py_div a b = (if b = 0 then Inl ZeroDivisionError else Inr (a div b))"

definition py_cdiv :: "int \<Rightarrow> int \<Rightarrow> int result" where
  "py_cdiv a b = (if b = 0 then Inl ZeroDivisionError else Inr (cdiv a b))"

definition sumE :: "('a \<Rightarrow> int result) \<Rightarrow> 'a list \<Rightarrow> int result" where
  "sumE f xs = foldE (\<lambda>x total. bindE (f x) (\<lambda>n. Inr (total + n))) xs 0"

section \<open>Groups of layers\<close>

definition spec_of_layer :: "(string, kv_cache_spec) dict \<Rightarrow> string \<Rightarrow> kv_cache_spec result" where
  "spec_of_layer specs n = (case dget specs n of None \<Rightarrow> Inl KeyError | Some s \<Rightarrow> Inr s)"

definition create_kv_cache_group_specs ::
    "(string, kv_cache_spec) dict \<Rightarrow> string list list \<Rightarrow> kv_cache_group_spec list result" where
  "create_kv_cache_group_specs specs grouped =
     mapE (\<lambda>names. bindE (mapE (spec_of_layer specs) names) (\<lambda>layer_specs.
       bindE (merge_specs layer_specs) (\<lambda>merged. Inr \<lparr>layer_names = names, group_spec = merged\<rparr>))) grouped"

definition is_kv_cache_spec_uniform :: "(string, kv_cache_spec) dict \<Rightarrow> bool result" where
  "is_kv_cache_spec_uniform specs =
     (if specs = [] then Inr True
      else (case merge_specs (map snd specs) of
              Inr _ \<Rightarrow> Inr True
            | Inl e \<Rightarrow> if e = AssertionError then Inr False else Inl e))"

definition may_override_num_blocks :: "vllm_config \<Rightarrow> int \<Rightarrow> int" where
  "may_override_num_blocks cfg n = (case num_gpu_blocks_override cfg of None \<Rightarrow> n | Some k \<Rightarrow> k)"

definition get_num_blocks :: "vllm_config \<Rightarrow> int \<Rightarrow> int \<Rightarrow> int \<Rightarrow> int result" where
  "get_num_blocks cfg num_layers available page =
     bindE (py_div available page) (\<lambda>n. bindE (py_div n num_layers) (\<lambda>k.
       Inr (may_override_num_blocks cfg (max k 0))))"

definition get_uniform_page_size :: "(string \<Rightarrow> int) \<Rightarrow> kv_cache_spec list \<Rightarrow> int result" where
  "get_uniform_page_size dsz specs =
     bindE (mapE (page_size_bytes dsz) specs) (\<lambda>sizes.
       case remdups sizes of [n] \<Rightarrow> Inr n | _ \<Rightarrow> Inl AssertionError)"

definition groups_uniform_spec :: "(string, kv_cache_spec) dict \<Rightarrow> kv_cache_group_spec list result" where
  "groups_uniform_spec specs = create_kv_cache_group_specs specs [dkeys specs]"

definition groups_uniform_type :: "(string, kv_cache_spec) dict \<Rightarrow> kv_cache_spec \<Rightarrow> kv_cache_group_spec list" where
  "groups_uniform_type specs uniform = [\<lparr>layer_names = dkeys specs, group_spec = uniform\<rparr>]"

definition unify_kv_cache_spec_page_size ::
    "(string \<Rightarrow> int) \<Rightarrow> (string, kv_cache_spec) dict \<Rightarrow> (string, kv_cache_spec) dict result" where
  "unify_kv_cache_spec_page_size dsz specs =
     bindE (mapE (page_size_bytes dsz \<circ> snd) specs) (\<lambda>sizes.
     if card (set sizes) \<le> 1 then Inr specs
     else let biggest = Max (set sizes) in
       mapE (\<lambda>(name, spec). bindE (page_size_bytes dsz spec) (\<lambda>n.
           if n = biggest then Inr (name, spec)
           else if n = 0 then Inl ZeroDivisionError
           else if biggest mod n \<noteq> 0 then Inl NotImplementedError
           else let spec' = copy_with_new_block_size (spec_block_size spec * (biggest div n)) spec in
             bindE (page_size_bytes dsz spec') (\<lambda>n'.
             bindE (assertE (n' = biggest)) (\<lambda>_. Inr (name, spec'))))) specs)"

fun add_layer :: "string \<times> kv_cache_spec \<Rightarrow> (kv_cache_spec, string list) dict \<Rightarrow> (kv_cache_spec, string list) dict" where
  "add_layer (name, spec) types =
     dset spec ((case dget types spec of None \<Rightarrow> [] | Some ns \<Rightarrow> ns) @ [name]) types"

text \<open>\<open>layers[i::n]\<close> for \<open>i < n\<close>: the items at the positions that leave \<open>i\<close> modulo \<open>n\<close>.\<close>

definition every_nth :: "nat \<Rightarrow> nat \<Rightarrow> 'a list \<Rightarrow> 'a list" where
  "every_nth i n xs = map snd (filter (\<lambda>(k, x). k mod n = i) (enumerate 0 xs))"

definition layer_group_size :: "nat list \<Rightarrow> nat" where
  "layer_group_size sizes =
     (let least = Min (set sizes); most = Max (set sizes) in if 2 * most < 3 * least then most else least)"

definition split_layers :: "nat \<Rightarrow> 'a list \<Rightarrow> 'a list list" where
  "split_layers gs layers =
     (let n = nat (cdiv (int (length layers)) (int gs)) in map (\<lambda>i. every_nth i n layers) [0..<n])"

definition groups_uniform_page_size :: "(string, kv_cache_spec) dict \<Rightarrow> kv_cache_group_spec list result" where
  "groups_uniform_page_size specs =
     (let types = fold add_layer specs [] in
      if types = [] then Inl ValueError
      else let gs = layer_group_size (map (length \<circ> snd) types) in
        create_kv_cache_group_specs specs (concat (map (split_layers gs \<circ> snd) types)))"

fun to_full_attention :: "kv_cache_spec \<Rightarrow> kv_cache_spec" where
  "to_full_attention (SlidingWindowSpec a w) = FullAttentionSpec a (full_fields_init a None (Some w) None)"
| "to_full_attention (ChunkedLocalAttentionSpec a n) = FullAttentionSpec a (full_fields_init a None None (Some n))"
| "to_full_attention s = s"

fun is_windowed :: "kv_cache_spec \<Rightarrow> bool" where
  "is_windowed (SlidingWindowSpec a w) = True"
| "is_windowed (ChunkedLocalAttentionSpec a n) = True"
| "is_windowed s = False"

definition is_uniform :: "(string, kv_cache_spec) dict \<Rightarrow> bool result" where
  "is_uniform specs = bindE (is_kv_cache_spec_uniform specs) (\<lambda>b. if b then Inr True else is_uniform_type specs)"

definition unify_hybrid_kv_cache_specs :: "(string, kv_cache_spec) dict \<Rightarrow> (string, kv_cache_spec) dict result" where
  "unify_hybrid_kv_cache_specs specs =
     bindE (is_uniform specs) (\<lambda>u. if u then Inr specs
     else let specs' = (if (\<exists>ns \<in> set specs. is_full_attention (snd ns)) \<and> (\<exists>ns \<in> set specs. is_windowed (snd ns))
                        then map (\<lambda>(n, s). (n, to_full_attention s)) specs else specs) in
       bindE (is_uniform specs') (\<lambda>u'. if u' then Inr specs' else Inl ValueError))"

definition groups_of_specs :: "(string \<Rightarrow> int) \<Rightarrow> (string, kv_cache_spec) dict \<Rightarrow> kv_cache_group_spec list result" where
  "groups_of_specs dsz specs =
     (if specs = [] then Inr []
      else bindE (is_kv_cache_spec_uniform specs) (\<lambda>u.
        if u then groups_uniform_spec specs
        else bindE (uniform_from_specs specs) (\<lambda>uniform.
          case uniform of
            Some s \<Rightarrow> Inr (groups_uniform_type specs s)
          | None \<Rightarrow> bindE (unify_kv_cache_spec_page_size dsz specs) groups_uniform_page_size)))"

definition get_kv_cache_groups :: "(string \<Rightarrow> int) \<Rightarrow> vllm_config \<Rightarrow> (string, kv_cache_spec) dict \<Rightarrow>
    kv_cache_group_spec list result" where
  "get_kv_cache_groups dsz cfg specs =
     bindE (if disable_hybrid_kv_cache_manager cfg then unify_hybrid_kv_cache_specs specs else Inr specs)
       (groups_of_specs dsz)"

section \<open>Tensors\<close>

fun is_uniform_group :: "kv_cache_group_spec list \<Rightarrow> (string, kv_cache_spec) dict option" where
  "is_uniform_group [g] = (case group_spec g of UniformTypeKVCacheSpecs b specs \<Rightarrow> Some specs | _ \<Rightarrow> None)"
| "is_uniform_group _ = None"

definition uniform_tensors :: "(string \<Rightarrow> int) \<Rightarrow> (string, kv_cache_spec) dict \<Rightarrow> string list \<Rightarrow> int \<Rightarrow> kv_cache_tensor list result" where
  "uniform_tensors dsz specs names n =
     mapE (\<lambda>name. bindE (spec_of_layer specs name) (\<lambda>s. bindE (page_size_bytes dsz s) (\<lambda>page.
       Inr \<lparr>tensor_size = page * n, shared_by = [name]\<rparr>))) names"

definition shared_tensors :: "kv_cache_group_spec list \<Rightarrow> nat \<Rightarrow> int \<Rightarrow> kv_cache_tensor list" where
  "shared_tensors groups gs bytes =
     map (\<lambda>i. \<lparr>tensor_size = bytes,
               shared_by = map (\<lambda>g. layer_names g ! i) (filter (\<lambda>g. i < length (layer_names g)) groups)\<rparr>) [0..<gs]"

definition get_kv_cache_config_from_groups ::
    "(string \<Rightarrow> int) \<Rightarrow> vllm_config \<Rightarrow> kv_cache_group_spec list \<Rightarrow> int \<Rightarrow> kv_cache_config result" where
  "get_kv_cache_config_from_groups dsz cfg groups available =
     (if groups = [] then Inr \<lparr>num_blocks = 1, kv_cache_tensors = [], kv_cache_groups = []\<rparr>
      else case is_uniform_group groups of
        Some specs \<Rightarrow>
          bindE (page_size_bytes dsz (group_spec (hd groups))) (\<lambda>page.
          bindE (py_div available page) (\<lambda>k.
            let n = may_override_num_blocks cfg k in
            bindE (uniform_tensors dsz specs (layer_names (hd groups)) n) (\<lambda>ts.
            Inr \<lparr>num_blocks = n, kv_cache_tensors = ts, kv_cache_groups = groups\<rparr>)))
      | None \<Rightarrow>
          let gs = Max (set (map (length \<circ> layer_names) groups)) in
          bindE (get_uniform_page_size dsz (map group_spec groups)) (\<lambda>page.
          bindE (assertE (0 < gs)) (\<lambda>_.
          bindE (get_num_blocks cfg (int gs) available page) (\<lambda>n.
          Inr \<lparr>num_blocks = n, kv_cache_tensors = shared_tensors groups gs (page * n), kv_cache_groups = groups\<rparr>))))"

section \<open>Memory checks and the longest model length\<close>

definition max_memory_usage_bytes_from_groups ::
    "(string \<Rightarrow> int) \<Rightarrow> vllm_config \<Rightarrow> kv_cache_group_spec list \<Rightarrow> int result" where
  "max_memory_usage_bytes_from_groups dsz cfg groups =
     (if groups = [] then Inr 0
      else case is_uniform_group groups of
        Some specs \<Rightarrow> sumE (max_memory_usage_bytes dsz cfg \<circ> snd) specs
      | None \<Rightarrow>
          let gs = Max (set (map (length \<circ> layer_names) groups)) in
          bindE (get_uniform_page_size dsz (map group_spec groups)) (\<lambda>page.
          bindE (sumE (\<lambda>g. bindE (max_memory_usage_bytes dsz cfg (group_spec g)) (\<lambda>m. py_cdiv m page)) groups) (\<lambda>n.
          Inr (int gs * page * n))))"

definition max_memory_usage_of_specs :: "(string \<Rightarrow> int) \<Rightarrow> vllm_config \<Rightarrow> (string, kv_cache_spec) dict \<Rightarrow> int result" where
  "max_memory_usage_of_specs dsz cfg specs = sumE (max_memory_usage_bytes dsz cfg \<circ> snd) specs"

text \<open>
  The binary search both estimates use: \<open>fits\<close> asks whether a model length fits the memory.
\<close>

function search_loop :: "(int \<Rightarrow> bool result) \<Rightarrow> int \<Rightarrow> int \<Rightarrow> int \<Rightarrow> int result" where
  "search_loop fits left right res =
     (if left \<le> right
      then bindE (fits ((left + right) div 2)) (\<lambda>ok.
             if ok then search_loop fits ((left + right) div 2 + 1) right ((left + right) div 2)
             else search_loop fits left ((left + right) div 2 - 1) res)
      else Inr res)"
  by pat_completeness auto
termination by (relation "measure (\<lambda>(_, left, right, _). nat (right - left + 1))") auto

declare search_loop.simps [simp del]

definition search_max_len :: "(int \<Rightarrow> bool result) \<Rightarrow> int \<Rightarrow> int result" where
  "search_max_len fits n =
     bindE (fits 1) (\<lambda>ok. if \<not> ok then Inr 0 else search_loop fits 1 n 1)"

definition groups_fit :: "(string \<Rightarrow> int) \<Rightarrow> vllm_config \<Rightarrow> kv_cache_group_spec list \<Rightarrow> int \<Rightarrow> int \<Rightarrow> bool result" where
  "groups_fit dsz cfg groups available len =
     bindE (max_memory_usage_bytes_from_groups dsz (cfg\<lparr>max_model_len := len\<rparr>) groups) (\<lambda>m. Inr (m \<le> available))"

definition specs_fit :: "(string \<Rightarrow> int) \<Rightarrow> vllm_config \<Rightarrow> (string, kv_cache_spec) dict \<Rightarrow> int \<Rightarrow> int \<Rightarrow> bool result" where
  "specs_fit dsz cfg specs available len =
     bindE (max_memory_usage_of_specs dsz (cfg\<lparr>max_model_len := len\<rparr>) specs) (\<lambda>m. Inr (m \<le> available))"

definition estimate_max_model_len_from_groups ::
    "(string \<Rightarrow> int) \<Rightarrow> vllm_config \<Rightarrow> kv_cache_group_spec list \<Rightarrow> int \<Rightarrow> int result" where
  "estimate_max_model_len_from_groups dsz cfg groups available =
     search_max_len (groups_fit dsz cfg groups available) (max_model_len cfg)"

definition estimate_max_model_len ::
    "(string \<Rightarrow> int) \<Rightarrow> vllm_config \<Rightarrow> (string, kv_cache_spec) dict \<Rightarrow> int \<Rightarrow> int result" where
  "estimate_max_model_len dsz cfg specs available =
     search_max_len (specs_fit dsz cfg specs available) (max_model_len cfg)"

definition check_enough_memory :: "int \<Rightarrow> int result \<Rightarrow> (int \<Rightarrow> int result) \<Rightarrow> unit result" where
  "check_enough_memory available needed estimate =
     (if available \<le> 0 then Inl ValueError
      else bindE needed (\<lambda>m.
        if available < m then bindE (estimate available) (\<lambda>_. Inl ValueError) else Inr ()))"

definition check_enough_kv_cache_memory ::
    "(string \<Rightarrow> int) \<Rightarrow> vllm_config \<Rightarrow> (string, kv_cache_spec) dict \<Rightarrow> int \<Rightarrow> unit result" where
  "check_enough_kv_cache_memory dsz cfg specs available =
     (if specs = [] then Inr ()
      else check_enough_memory available (max_memory_usage_of_specs dsz cfg specs)
             (estimate_max_model_len dsz cfg specs))"

definition auto_fit_max_model_len ::
    "(string \<Rightarrow> int) \<Rightarrow> vllm_config \<Rightarrow> kv_cache_group_spec list list \<Rightarrow> int list \<Rightarrow> vllm_config result" where
  "auto_fit_max_model_len dsz cfg groups_per_worker available =
     (if \<forall>gs \<in> set groups_per_worker. gs = [] then Inr cfg
      else if available = [] then Inl IndexError
      else bindE (foldE (\<lambda>(gs, mem) best.
               if gs = [] then Inr best
               else bindE (estimate_max_model_len_from_groups dsz cfg gs mem) (\<lambda>n. Inr (if n < best then n else best)))
             (zip groups_per_worker available) (max_model_len cfg)) (\<lambda>best.
           if best \<le> 0 then Inl ValueError
           else if max_model_len cfg \<le> best then Inr cfg
           else Inr (cfg\<lparr>max_model_len := best\<rparr>)))"

section \<open>The configuration of every worker\<close>

definition project_group :: "(string, kv_cache_spec) dict \<Rightarrow> kv_cache_group_spec \<Rightarrow> kv_cache_group_spec result" where
  "project_group worker_specs g =
     (let names = filter (\<lambda>n. dget worker_specs n \<noteq> None) (layer_names g) in
      case group_spec g of
        UniformTypeKVCacheSpecs b specs \<Rightarrow>
          if names = [] then Inr \<lparr>layer_names = names, group_spec = group_spec g\<rparr>
          else bindE (mapE (\<lambda>n. bindE (spec_of_layer specs n) (\<lambda>s. Inr (n, s))) names) (\<lambda>ss.
                 Inr \<lparr>layer_names = names, group_spec = UniformTypeKVCacheSpecs b ss\<rparr>)
      | s \<Rightarrow> Inr \<lparr>layer_names = names, group_spec = s\<rparr>)"

definition project_kv_cache_groups_to_worker ::
    "kv_cache_group_spec list \<Rightarrow> (string, kv_cache_spec) dict \<Rightarrow> kv_cache_group_spec list result" where
  "project_kv_cache_groups_to_worker groups worker_specs = mapE (project_group worker_specs) groups"

fun merge_worker_layer :: "string \<times> kv_cache_spec \<Rightarrow> (string, kv_cache_spec) dict \<Rightarrow> (string, kv_cache_spec) dict result" where
  "merge_worker_layer (n, s) merged =
     (case dget merged n of
        None \<Rightarrow> Inr (dset n s merged)
      | Some t \<Rightarrow> bindE (assertE (t = s)) (\<lambda>_. Inr merged))"

definition shrink_config :: "int \<Rightarrow> kv_cache_config \<Rightarrow> kv_cache_config result" where
  "shrink_config least c =
     bindE (mapE (\<lambda>t. if num_blocks c = 0 then Inl ZeroDivisionError
                      else bindE (assertE (tensor_size t mod num_blocks c = 0)) (\<lambda>_.
                        Inr (t\<lparr>tensor_size := tensor_size t div num_blocks c * least\<rparr>))) (kv_cache_tensors c)) (\<lambda>ts.
       Inr (c\<lparr>num_blocks := least, kv_cache_tensors := ts\<rparr>))"

definition worker_config :: "(string \<Rightarrow> int) \<Rightarrow> vllm_config \<Rightarrow> kv_cache_group_spec list \<times> (string, kv_cache_spec) dict \<times> int \<Rightarrow>
    kv_cache_config result" where
  "worker_config dsz cfg w =
     (let (groups, specs, available) = w in
      bindE (assertE (sum_list (map (length \<circ> layer_names) groups) = length specs)) (\<lambda>_.
        get_kv_cache_config_from_groups dsz cfg groups available))"

definition get_kv_cache_configs :: "(string \<Rightarrow> int) \<Rightarrow> vllm_config \<Rightarrow> (string, kv_cache_spec) dict list \<Rightarrow> int list \<Rightarrow>
    (kv_cache_config list \<times> vllm_config) result" where
  "get_kv_cache_configs dsz cfg specs available =
     bindE (foldE merge_worker_layer (concat specs) []) (\<lambda>merged.
     bindE (get_kv_cache_groups dsz cfg merged) (\<lambda>groups.
     bindE (mapE (project_kv_cache_groups_to_worker groups) specs) (\<lambda>projected.
     bindE (if original_max_model_len cfg = - 1 then auto_fit_max_model_len dsz cfg projected available else Inr cfg) (\<lambda>cfg.
     bindE (mapE (\<lambda>(gs, mem). if gs = [] then Inr ()
              else check_enough_memory mem (max_memory_usage_bytes_from_groups dsz cfg gs)
                     (estimate_max_model_len_from_groups dsz cfg gs)) (zip projected available)) (\<lambda>_.
     bindE (mapE (worker_config dsz cfg) (zip projected (zip specs available))) (\<lambda>configs.
     if configs = [] then Inl ValueError
     else let least = Min (num_blocks ` set configs) in
       bindE (mapE (shrink_config least) configs) (\<lambda>configs. Inr (configs, cfg))))))))"

fun scheduler_group :: "kv_cache_group_spec \<Rightarrow> kv_cache_group_spec result" where
  "scheduler_group g =
     (case group_spec g of
        UniformTypeKVCacheSpecs b specs \<Rightarrow>
          (case specs of [] \<Rightarrow> Inl StopIteration | (_, s) # _ \<Rightarrow> Inr (g\<lparr>group_spec := s\<rparr>))
      | _ \<Rightarrow> Inr g)"

definition generate_scheduler_kv_cache_config :: "kv_cache_config list \<Rightarrow> kv_cache_config result" where
  "generate_scheduler_kv_cache_config configs =
     (case configs of
        [] \<Rightarrow> Inl IndexError
      | c # _ \<Rightarrow>
          bindE (assertE (\<forall>d \<in> set configs. num_blocks d = num_blocks c)) (\<lambda>_.
          bindE (mapE scheduler_group (kv_cache_groups c)) (\<lambda>gs. Inr (c\<lparr>kv_cache_groups := gs\<rparr>))))"

definition get_max_concurrency :: "(string \<Rightarrow> int) \<Rightarrow> vllm_config \<Rightarrow> kv_cache_config \<Rightarrow> rat result" where
  "get_max_concurrency dsz cfg c =
     (if kv_cache_groups c = [] then Inl ValueError
      else let layers = int (Max (set (map (length \<circ> layer_names) (kv_cache_groups c)))) in
        bindE (sumE (max_memory_usage_bytes dsz cfg \<circ> group_spec) (kv_cache_groups c)) (\<lambda>total.
        bindE (page_size_bytes dsz (group_spec (hd (kv_cache_groups c)))) (\<lambda>page.
        bindE (py_cdiv (layers * total) (page * layers)) (\<lambda>per_request.
          if per_request = 0 then Inl ZeroDivisionError
          else Inr (of_int (num_blocks c) / of_int per_request)))))"

section \<open>Lemmas on the loops\<close>

lemma mapE_Inr_iff: "mapE f xs = Inr ys \<longleftrightarrow> list_all2 (\<lambda>x y. f x = Inr y) xs ys"
proof (induction xs arbitrary: ys)
  case (Cons x xs)
  then show ?case by (cases ys) (auto simp: bindE_Inr_iff)
qed auto

lemma mapE_map_eq: "mapE f xs = Inr ys \<Longrightarrow> (\<And>x y. x \<in> set xs \<Longrightarrow> f x = Inr y \<Longrightarrow> g y = h x) \<Longrightarrow> map g ys = map h xs"
proof (induction xs arbitrary: ys)
  case (Cons x xs)
  then show ?case by (fastforce simp: bindE_Inr_iff)
qed simp

lemma mapE_nth: "mapE f xs = Inr ys \<Longrightarrow> length ys = length xs \<and> (\<forall>i < length xs. f (xs ! i) = Inr (ys ! i))"
  by (simp add: mapE_Inr_iff list_all2_conv_all_nth)

lemma sumE_Inr_iff_aux:
  "foldE (\<lambda>x total. bindE (f x) (\<lambda>n. Inr (total + n))) xs a = Inr t \<longleftrightarrow>
   (\<exists>ns. mapE f xs = Inr ns \<and> t = a + sum_list ns)"
proof (induction xs arbitrary: a)
  case (Cons x xs)
  then show ?case by (cases "f x") (auto simp: bindE_Inr_iff add.assoc)
qed auto

lemma sumE_Inr_iff: "sumE f xs = Inr t \<longleftrightarrow> (\<exists>ns. mapE f xs = Inr ns \<and> t = sum_list ns)"
  by (simp add: sumE_def sumE_Inr_iff_aux)

lemma py_div_Inr [simp]: "py_div a b = Inr c \<longleftrightarrow> b \<noteq> 0 \<and> c = a div b"
  and py_cdiv_Inr [simp]: "py_cdiv a b = Inr c \<longleftrightarrow> b \<noteq> 0 \<and> c = cdiv a b"
  by (auto simp: py_div_def py_cdiv_def)

lemma get_uniform_page_size_Inr:
  "get_uniform_page_size dsz specs = Inr n \<Longrightarrow> (\<forall>s \<in> set specs. page_size_bytes dsz s = Inr n) \<and> specs \<noteq> []"
proof -
  assume "get_uniform_page_size dsz specs = Inr n"
  then obtain sizes where m: "mapE (page_size_bytes dsz) specs = Inr sizes"
    and "(case remdups sizes of [n] \<Rightarrow> Inr n | _ \<Rightarrow> Inl AssertionError) = Inr n"
    unfolding get_uniform_page_size_def by (elim bindE_InrE)
  then have sizes: "mapE (page_size_bytes dsz) specs = Inr sizes" "remdups sizes = [n]"
    by (auto split: list.splits)
  then have "set sizes = {n}" by (metis list.set(1) list.simps(15) set_remdups)
  then show ?thesis using mapE_nth[OF sizes(1)]
    by (auto simp: in_set_conv_nth) (metis nth_mem singletonD)
qed

section \<open>Every layer in one group\<close>

lemma enumerate_filter_sum:
  "(\<Sum>i<n. mset (map snd (filter (\<lambda>(k, x). k mod n = i) kxs))) = mset (map snd kxs)" if "0 < n" for n :: nat
proof (induction kxs)
  case (Cons kx kxs)
  obtain k x where kx: "kx = (k, x)" by force
  have "(\<Sum>i<n. mset (map snd (filter (\<lambda>(k, x). k mod n = i) (kx # kxs)))) =
        (\<Sum>i<n. (if i = k mod n then {#x#} else {#}) + mset (map snd (filter (\<lambda>(k, x). k mod n = i) kxs)))"
    by (rule sum.cong) (auto simp: kx)
  also have "\<dots> = {#x#} + mset (map snd kxs)"
    using that by (simp only: sum.distrib Cons.IH sum.delta finite_lessThan lessThan_iff mod_less_divisor if_True)
  finally show ?case by (simp add: kx)
qed simp

lemma mset_concat_upt: "mset (concat (map f [0..<n])) = (\<Sum>i<n. mset (f i))"
  by (induction n) (simp_all add: add.commute)

lemma split_layers_mset: "mset (concat (split_layers gs xs)) = mset xs" if "0 < gs"
proof -
  let ?n = "nat (cdiv (int (length xs)) (int gs))"
  have n: "0 < ?n" if "xs \<noteq> []" using that \<open>0 < gs\<close> cdiv_ge_iff[of "int gs" 1 "int (length xs)"] by simp
  have "mset (concat (map (\<lambda>i. every_nth i ?n xs) [0..<?n])) = mset xs" if "xs \<noteq> []"
    unfolding mset_concat_upt every_nth_def
    using enumerate_filter_sum[OF n[OF that], of "enumerate 0 xs"] by (simp only: map_snd_enumerate)
  then show ?thesis by (cases "xs = []") (simp_all add: split_layers_def Let_def cdiv_def)
qed

lemma create_groups_names: "create_kv_cache_group_specs specs grouped = Inr gs \<Longrightarrow> map layer_names gs = grouped"
  unfolding create_kv_cache_group_specs_def
  using mapE_map_eq[where h = "\<lambda>x. x" and g = layer_names] by (fastforce simp: bindE_Inr_iff)

lemma dset_values_mset:
  "dict_ok d \<Longrightarrow> mset (concat (map snd (dset k (v @ [x]) d))) = add_mset x (mset (concat (map snd d)))"
  if "dget d k = Some v \<or> dget d k = None \<and> v = []" for d :: "('k, 'a list) dict"
  using that
proof (induction d)
  case (Cons e d)
  then show ?case by (cases e) (auto split: if_splits)
qed auto

lemma dset_values: "(\<forall>e \<in> set d. P (snd e)) \<Longrightarrow> P v \<Longrightarrow> \<forall>e \<in> set (dset k v d). P (snd e)"
  by (induction d) auto

lemma add_layer_fold:
  "dict_ok types \<Longrightarrow> (\<forall>e \<in> set types. snd e \<noteq> []) \<Longrightarrow>
   (let types' = fold add_layer specs types in
    dict_ok types' \<and> (\<forall>e \<in> set types'. snd e \<noteq> []) \<and>
    mset (concat (map snd types')) = mset (concat (map snd types)) + mset (dkeys specs))"
  unfolding Let_def
proof (induction specs arbitrary: types)
  case (Cons ns specs)
  obtain n s where ns: "ns = (n, s)" by force
  let ?v = "case dget types s of None \<Rightarrow> [] | Some v \<Rightarrow> v"
  have ok: "dict_ok (add_layer ns types)" using Cons.prems(1) by (simp add: ns)
  have full: "\<forall>e \<in> set (add_layer ns types). snd e \<noteq> []"
    unfolding ns add_layer.simps by (rule dset_values) (use Cons.prems(2) in simp_all)
  have "mset (concat (map snd (add_layer ns types))) = add_mset n (mset (concat (map snd types)))"
    unfolding ns add_layer.simps by (rule dset_values_mset[OF _ Cons.prems(1)]) (simp split: option.split)
  then show ?case using Cons.IH[OF ok full] by (simp add: ns del: add_layer.simps)
qed simp

lemma layer_group_size_in: "sizes \<noteq> [] \<Longrightarrow> layer_group_size sizes \<in> set sizes"
  using Min_in[of "set sizes"] Max_in[of "set sizes"] by (simp add: layer_group_size_def Let_def)

lemma groups_uniform_page_size_layers:
  assumes "groups_uniform_page_size specs = Inr gs"
  shows "mset (concat (map layer_names gs)) = mset (dkeys specs)"
proof -
  let ?types = "fold add_layer specs []"
  let ?gs = "layer_group_size (map (length \<circ> snd) ?types)"
  have types: "\<forall>e \<in> set ?types. snd e \<noteq> []" "mset (concat (map snd ?types)) = mset (dkeys specs)"
    using add_layer_fold[of "[]" specs] by (simp_all add: Let_def)
  have ne: "?types \<noteq> []" and c: "create_kv_cache_group_specs specs (concat (map (split_layers ?gs \<circ> snd) ?types)) = Inr gs"
    using assms unfolding groups_uniform_page_size_def Let_def by (simp_all only: split: if_split_asm) simp_all
  have names: "map layer_names gs = concat (map (split_layers ?gs \<circ> snd) ?types)"
    by (rule create_groups_names[OF c])
  have "?gs \<in> set (map (length \<circ> snd) ?types)" 
    by (rule layer_group_size_in) (use ne in \<open>simp only: map_is_Nil_conv not_False_eq_True\<close>)
  then obtain e where "e \<in> set ?types" "?gs = length (snd e)" by (simp only: set_map image_iff o_apply) blast
  then have "0 < ?gs" using types(1) by (simp only: length_greater_0_conv not_False_eq_True)
  then have "mset (concat (concat (map (split_layers ?gs \<circ> snd) ts))) = mset (concat (map snd ts))" for ts :: "(kv_cache_spec, string list) dict"
    by (induction ts) (simp_all add: split_layers_mset)
  then show ?thesis by (simp only: names types(2))
qed

lemma unify_page_size_keys: "unify_kv_cache_spec_page_size dsz specs = Inr specs' \<Longrightarrow> dkeys specs' = dkeys specs"
proof -
  assume u: "unify_kv_cache_spec_page_size dsz specs = Inr specs'"
  show ?thesis
  proof (cases "specs' = specs")
    case False
    with u obtain sizes where
      "mapE (\<lambda>(name, spec). bindE (page_size_bytes dsz spec) (\<lambda>n.
           if n = Max (set sizes) then Inr (name, spec)
           else if n = 0 then Inl ZeroDivisionError
           else if Max (set sizes) mod n \<noteq> 0 then Inl NotImplementedError
           else let spec' = copy_with_new_block_size (spec_block_size spec * (Max (set sizes) div n)) spec in
             bindE (page_size_bytes dsz spec') (\<lambda>n'.
             bindE (assertE (n' = Max (set sizes))) (\<lambda>_. Inr (name, spec'))))) specs = Inr specs'"
      unfolding unify_kv_cache_spec_page_size_def Let_def by (elim bindE_InrE) (auto split: if_splits)
    then show ?thesis
      by (rule mapE_map_eq) (auto simp: Let_def elim!: bindE_InrE split: if_splits)
  qed simp
qed

lemma unify_hybrid_values:
  "unify_hybrid_kv_cache_specs specs = Inr specs' \<Longrightarrow>
   specs' = specs \<or> specs' = map (\<lambda>(n, s). (n, to_full_attention s)) specs"
  unfolding unify_hybrid_kv_cache_specs_def Let_def
  by (simp only: bindE_Inr_iff split: if_split_asm) (auto simp: bindE_Inr_iff split: if_split_asm)

lemma unify_hybrid_keys: "unify_hybrid_kv_cache_specs specs = Inr specs' \<Longrightarrow> dkeys specs' = dkeys specs"
  by (drule unify_hybrid_values) (elim disjE; simp add: case_prod_beta)

lemma groups_of_specs_cases:
  assumes "groups_of_specs dsz specs = Inr gs"
  obtains (empty) "gs = []" "specs = []"
    | (same) "groups_uniform_spec specs = Inr gs"
    | (type) s where "gs = groups_uniform_type specs s" "uniform_from_specs specs = Inr (Some s)"
    | (hybrid) specs' where "unify_kv_cache_spec_page_size dsz specs = Inr specs'" "groups_uniform_page_size specs' = Inr gs"
proof (cases "specs = []")
  case True
  then show thesis using assms empty by (simp add: groups_of_specs_def)
next
  case False
  then obtain u where u: "(if u then groups_uniform_spec specs
        else bindE (uniform_from_specs specs) (\<lambda>uniform.
          case uniform of
            Some s \<Rightarrow> Inr (groups_uniform_type specs s)
          | None \<Rightarrow> bindE (unify_kv_cache_spec_page_size dsz specs) groups_uniform_page_size)) = Inr gs"
    using assms unfolding groups_of_specs_def by (simp only: if_False) (elim bindE_InrE)
  show thesis
  proof (cases u)
    case True
    then show thesis using u same by simp
  next
    case False
    then obtain uniform where "uniform_from_specs specs = Inr uniform"
      "(case uniform of
            Some s \<Rightarrow> Inr (groups_uniform_type specs s)
          | None \<Rightarrow> bindE (unify_kv_cache_spec_page_size dsz specs) groups_uniform_page_size) = Inr gs"
      using u by (simp only: if_False) (elim bindE_InrE)
    then show thesis using type hybrid by (cases uniform) (auto elim: bindE_InrE)
  qed
qed

lemma groups_of_specs_partition:
  assumes "groups_of_specs dsz specs = Inr gs"
  shows "mset (concat (map layer_names gs)) = mset (dkeys specs)"
  using assms
proof (cases rule: groups_of_specs_cases)
  case same
  then have "map layer_names gs = [dkeys specs]" by (simp only: groups_uniform_spec_def create_groups_names)
  then show ?thesis by simp
next
  case (hybrid specs')
  then show ?thesis by (simp only: groups_uniform_page_size_layers[OF hybrid(2)] unify_page_size_keys[OF hybrid(1)])
qed (simp_all add: groups_uniform_type_def)

lemma get_kv_cache_groups_partition:
  assumes "get_kv_cache_groups dsz cfg specs = Inr gs"
  shows "mset (concat (map layer_names gs)) = mset (dkeys specs)"
proof -
  from assms obtain specs' where u: "(if disable_hybrid_kv_cache_manager cfg then unify_hybrid_kv_cache_specs specs else Inr specs) = Inr specs'"
    and gs: "groups_of_specs dsz specs' = Inr gs"
    unfolding get_kv_cache_groups_def by (elim bindE_InrE)
  have "dkeys specs' = dkeys specs"
  proof (cases "disable_hybrid_kv_cache_manager cfg")
    case True
    then show ?thesis using u unify_hybrid_keys[of specs specs'] by simp
  qed (use u in simp)
  then show ?thesis by (simp only: groups_of_specs_partition[OF gs])
qed

section \<open>Page sizes of the groups\<close>

lemma merge_full_page:
  assumes "merge_full cls (s # ss) = Inr m" "full_attention_fields s = Some (a, f)"
  shows "\<exists>w c. m = cls a (f\<lparr>full_sliding_window := w, full_attention_chunk_size := c\<rparr>)"
proof -
  have "(the \<circ> full_attention_fields) s = (a, f)" using assms(2) by simp
  with assms(1) show ?thesis unfolding merge_full_def Let_def
    by (auto simp: bindE_Inr_iff split: if_split_asm)
qed

lemma merge_specs_page: "merge_specs (s # ss) = Inr m \<Longrightarrow> page_size_bytes dsz m = page_size_bytes dsz s"
proof (cases s)
  case (FullAttentionSpec a f)
  moreover assume "merge_specs (s # ss) = Inr m"
  ultimately show ?thesis using merge_full_page[of FullAttentionSpec s ss m a f]
    by (auto simp: merge_specs_def full_real_page_size_def)
next
  case (SinkFullAttentionSpec a f k)
  moreover assume "merge_specs (s # ss) = Inr m"
  ultimately show ?thesis using merge_full_page[of "\<lambda>a f. SinkFullAttentionSpec a f k" s ss m a f]
    by (auto simp: merge_specs_def full_real_page_size_def)
next
  case (MLAAttentionSpec a f c)
  assume m: "merge_specs (s # ss) = Inr m"
  let ?cs = "map (\<lambda>s. case s of MLAAttentionSpec a f c \<Rightarrow> c | _ \<Rightarrow> None) (s # ss)"
  from m obtain d where d: "remdups ?cs = [d]" and m': "m = MLAAttentionSpec a (full_fields_init a None None None) d"
    unfolding merge_specs_def merge_mla_def MLAAttentionSpec
    by (auto simp: bindE_Inr_iff simp del: remdups.simps split: list.splits)
  have "c \<in> set ?cs" by (simp add: MLAAttentionSpec)
  then have "c = d" using d by (metis list.set(1) list.simps(15) set_remdups singletonD)
  then show ?thesis by (simp add: m' MLAAttentionSpec mla_real_page_size_def)
qed (auto simp: merge_specs_def merge_equal_def bindE_Inr_iff)

lemma to_full_attention_page: "page_size_bytes dsz (to_full_attention s) = page_size_bytes dsz s"
  by (cases s) (simp_all add: full_real_page_size_def attn_real_page_size_def full_fields_init_def algebra_simps)

text \<open>
  What a model gives for a layer: a specification of its own, not one that bundles several layers,
  with a page size that is not negative. The groups keep this, or are the one bundle of all layers.
\<close>

fun is_bundle :: "kv_cache_spec \<Rightarrow> bool" where
  "is_bundle (UniformTypeKVCacheSpecs b specs) = True"
| "is_bundle _ = False"

definition page_nonneg :: "(string \<Rightarrow> int) \<Rightarrow> kv_cache_spec \<Rightarrow> bool" where
  "page_nonneg dsz s \<longleftrightarrow> (case page_size_bytes dsz s of Inr n \<Rightarrow> 0 \<le> n | Inl e \<Rightarrow> True)"

definition layer_spec_ok :: "(string \<Rightarrow> int) \<Rightarrow> kv_cache_spec \<Rightarrow> bool" where
  "layer_spec_ok dsz s \<longleftrightarrow> \<not> is_bundle s \<and> page_nonneg dsz s"

definition specs_ok :: "(string \<Rightarrow> int) \<Rightarrow> (string, kv_cache_spec) dict \<Rightarrow> bool" where
  "specs_ok dsz specs \<longleftrightarrow> dict_ok specs \<and> (\<forall>ns \<in> set specs. layer_spec_ok dsz (snd ns))"

definition groups_ok :: "(string \<Rightarrow> int) \<Rightarrow> kv_cache_group_spec list \<Rightarrow> bool" where
  "groups_ok dsz gs \<longleftrightarrow>
     (\<forall>g \<in> set gs. layer_spec_ok dsz (group_spec g)) \<or>
     (\<exists>names b specs. gs = [\<lparr>layer_names = names, group_spec = UniformTypeKVCacheSpecs b specs\<rparr>] \<and>
        (names = [] \<or> names = dkeys specs) \<and> specs_ok dsz specs)"

lemma page_nonnegD: "page_nonneg dsz s \<Longrightarrow> page_size_bytes dsz s = Inr n \<Longrightarrow> 0 \<le> n"
  by (simp add: page_nonneg_def)

lemma is_bundle_copy [simp]: "is_bundle (copy_with_new_block_size b s) = is_bundle s"
  by (cases s) simp_all

lemma layer_spec_ok_full [simp]: "layer_spec_ok dsz (to_full_attention s) = layer_spec_ok dsz s"
  by (simp only: layer_spec_ok_def page_nonneg_def to_full_attention_page) (cases s; simp)

lemma merge_specs_bundle: "merge_specs (s # ss) = Inr m \<Longrightarrow> is_bundle m = is_bundle s"
proof (cases s)
  case (FullAttentionSpec a f)
  moreover assume "merge_specs (s # ss) = Inr m"
  ultimately show ?thesis using merge_full_page[of FullAttentionSpec s ss m a f]
    by (auto simp: merge_specs_def)
next
  case (SinkFullAttentionSpec a f k)
  moreover assume "merge_specs (s # ss) = Inr m"
  ultimately show ?thesis using merge_full_page[of "\<lambda>a f. SinkFullAttentionSpec a f k" s ss m a f]
    by (auto simp: merge_specs_def)
qed (auto simp: merge_specs_def merge_equal_def merge_mla_def bindE_Inr_iff simp del: remdups.simps split: list.splits)

lemma create_groups_sized:
  assumes "create_kv_cache_group_specs specs grouped = Inr gs" "\<forall>ns \<in> set specs. layer_spec_ok dsz (snd ns)" "g \<in> set gs"
  shows "layer_spec_ok dsz (group_spec g)"
proof -
  from assms(1,3) obtain names where c: "bindE (mapE (spec_of_layer specs) names) (\<lambda>layer_specs.
       bindE (merge_specs layer_specs) (\<lambda>merged. Inr \<lparr>layer_names = names, group_spec = merged\<rparr>)) = Inr g"
    unfolding create_kv_cache_group_specs_def mapE_Inr_iff by (auto simp: list_all2_conv_all_nth in_set_conv_nth)
  then obtain ss where ss: "mapE (spec_of_layer specs) names = Inr ss" "merge_specs ss = Inr (group_spec g)"
    by (auto simp: bindE_Inr_iff)
  then obtain s ss' where s: "ss = s # ss'" by (cases ss) (auto simp: merge_specs_def)
  then obtain name names' where "spec_of_layer specs name = Inr s"
    using ss(1) by (cases names) (auto simp: bindE_Inr_iff)
  then have "(name, s) \<in> set specs" by (auto simp: spec_of_layer_def dest: map_of_SomeD split: option.splits)
  then have "layer_spec_ok dsz s" using assms(2) by force
  then show ?thesis using ss(2) unfolding s layer_spec_ok_def page_nonneg_def
    by (simp add: merge_specs_page[of s ss' "group_spec g"] merge_specs_bundle[of s ss' "group_spec g"])
qed

lemma unify_page_size_sized:
  assumes "unify_kv_cache_spec_page_size dsz specs = Inr specs'" "\<forall>ns \<in> set specs. layer_spec_ok dsz (snd ns)"
  shows "\<forall>ns \<in> set specs'. layer_spec_ok dsz (snd ns)"
proof (cases "specs' = specs")
  case False
  define fit where "fit sizes = (\<lambda>(name, spec). bindE (page_size_bytes dsz spec) (\<lambda>n.
           if n = Max (set sizes) then Inr (name, spec)
           else if n = 0 then Inl ZeroDivisionError
           else if Max (set sizes) mod n \<noteq> 0 then Inl NotImplementedError
           else let spec' = copy_with_new_block_size (spec_block_size spec * (Max (set sizes) div n)) spec in
             bindE (page_size_bytes dsz spec') (\<lambda>n'.
             bindE (assertE (n' = Max (set sizes))) (\<lambda>_. Inr (name :: string, spec')))))" for sizes
  obtain sizes where sizes: "mapE (page_size_bytes dsz \<circ> snd) specs = Inr sizes"
    and m: "mapE (fit sizes) specs = Inr specs'"
    using assms(1) False unfolding unify_kv_cache_spec_page_size_def Let_def fit_def
    by (elim bindE_InrE) (auto split: if_split_asm)
  have page: "page_size_bytes dsz (snd t) = Inr (Max (set sizes)) \<and> is_bundle (snd t) = is_bundle (snd ns)"
    if "fit sizes ns = Inr t" for ns t
    using that unfolding fit_def Let_def by (cases ns) (auto simp: bindE_Inr_iff split: if_split_asm)
  have pos: "0 \<le> Max (set sizes)" if "specs \<noteq> []"
  proof -
    have "Max (set sizes) \<in> set sizes" using that mapE_nth[OF sizes] by (intro Max_in) auto
    then obtain i where i: "i < length specs" "page_size_bytes dsz (snd (specs ! i)) = Inr (Max (set sizes))"
      using mapE_nth[OF sizes] by (auto simp: in_set_conv_nth)
    then show ?thesis using assms(2) nth_mem[OF i(1)] page_nonnegD unfolding layer_spec_ok_def by blast
  qed
  show ?thesis
  proof
    fix t assume "t \<in> set specs'"
    then obtain i where i: "i < length specs" "t = specs' ! i" using mapE_nth[OF m] by (auto simp: in_set_conv_nth)
    then have "fit sizes (specs ! i) = Inr t" using mapE_nth[OF m] by simp
    then have "page_size_bytes dsz (snd t) = Inr (Max (set sizes))" "is_bundle (snd t) = is_bundle (snd (specs ! i))"
      using page by blast+
    moreover have "0 \<le> Max (set sizes)" using pos i(1) by fastforce
    ultimately show "layer_spec_ok dsz (snd t)" using assms(2) nth_mem[OF i(1)]
      by (auto simp: page_nonneg_def layer_spec_ok_def)
  qed
qed (use assms in simp)

lemma groups_of_specs_ok:
  assumes "groups_of_specs dsz specs = Inr gs" "specs_ok dsz specs"
  shows "groups_ok dsz gs"
  using assms(1)
proof (cases rule: groups_of_specs_cases)
  case same
  then show ?thesis using create_groups_sized assms(2)
    unfolding groups_uniform_spec_def groups_ok_def specs_ok_def by blast
next
  case (type s)
  then have "is_bundle s" "s = UniformTypeKVCacheSpecs (spec_block_size (snd (hd specs))) specs"
    by (auto simp: uniform_from_specs_def bindE_Inr_iff split: if_split_asm)
  then show ?thesis using type assms(2) by (auto simp: groups_ok_def groups_uniform_type_def)
next
  case (hybrid specs')
  then have "\<forall>ns \<in> set specs'. layer_spec_ok dsz (snd ns)"
    using unify_page_size_sized assms(2) unfolding specs_ok_def by blast
  then show ?thesis using hybrid(2) create_groups_sized
    by (auto simp: groups_uniform_page_size_def groups_ok_def Let_def split: if_split_asm)
qed (simp add: groups_ok_def)

lemma get_kv_cache_groups_ok:
  assumes "get_kv_cache_groups dsz cfg specs = Inr gs" "specs_ok dsz specs"
  shows "groups_ok dsz gs"
proof -
  from assms(1) obtain specs' where u: "(if disable_hybrid_kv_cache_manager cfg then unify_hybrid_kv_cache_specs specs else Inr specs) = Inr specs'"
    and gs: "groups_of_specs dsz specs' = Inr gs"
    unfolding get_kv_cache_groups_def by (elim bindE_InrE)
  have "specs' = specs \<or> specs' = map (\<lambda>(n, s). (n, to_full_attention s)) specs"
  proof (cases "disable_hybrid_kv_cache_manager cfg")
    case True
    then show ?thesis using u unify_hybrid_values[of specs specs'] by simp
  qed (use u in simp)
  then have "specs_ok dsz specs'" using assms(2)
    by (elim disjE) (auto simp: specs_ok_def case_prod_beta comp_def)
  then show ?thesis by (rule groups_of_specs_ok[OF gs])
qed

section \<open>Tensors of a worker\<close>

lemma mset_upt_nth: "(\<Sum>i<n. if i < length xs then {#xs ! i#} else {#}) = mset xs" if "length xs \<le> n"
proof -
  have "(\<Sum>i<n. if i < length xs then {#xs ! i#} else {#}) = (\<Sum>i<length xs. {#xs ! i#})"
    using that by (intro sum.mono_neutral_cong_right) auto
  also have "\<dots> = mset (concat (map (\<lambda>i. [xs ! i]) [0..<length xs]))" by (simp only: mset_concat_upt mset_single_iff_right) simp
  also have "concat (map (\<lambda>i. [xs ! i]) [0..<length xs]) = map ((!) xs) [0..<length xs]" by simp
  finally show ?thesis by (simp only: map_nth)
qed

lemma shared_tensors_layers:
  assumes "\<forall>g \<in> set groups. length (layer_names g) \<le> gs"
  shows "mset (concat (map shared_by (shared_tensors groups gs bytes))) = mset (concat (map layer_names groups))"
proof -
  have "mset (concat (map shared_by (shared_tensors groups gs bytes))) =
      (\<Sum>i<gs. mset (map (\<lambda>g. layer_names g ! i) (filter (\<lambda>g. i < length (layer_names g)) groups)))"
    by (simp only: shared_tensors_def map_map o_def kv_cache_tensor.select_convs mset_concat_upt)
  also have "\<dots> = mset (concat (map layer_names groups))"
    using assms
  proof (induction groups)
    case (Cons g groups)
    have "(\<Sum>i<gs. mset (map (\<lambda>g. layer_names g ! i) (filter (\<lambda>g. i < length (layer_names g)) (g # groups)))) =
      (\<Sum>i<gs. (if i < length (layer_names g) then {#layer_names g ! i#} else {#}) +
         mset (map (\<lambda>g. layer_names g ! i) (filter (\<lambda>g. i < length (layer_names g)) groups)))"
      by (rule sum.cong) auto
    also have "\<dots> = mset (layer_names g) + mset (concat (map layer_names groups))"
      using Cons by (simp only: sum.distrib mset_upt_nth list.set_intros) simp
    finally show ?case by simp
  qed simp
  finally show ?thesis .
qed

lemma uniform_tensors_Inr:
  assumes "uniform_tensors dsz specs names n = Inr ts" "\<forall>ns \<in> set specs. layer_spec_ok dsz (snd ns)"
  shows "concat (map shared_by ts) = names \<and> (\<forall>t \<in> set ts. \<exists>p \<ge> 0. tensor_size t = p * n) \<and>
    (names = dkeys specs \<longrightarrow> dict_ok specs \<longrightarrow> (\<exists>ps. mapE (page_size_bytes dsz \<circ> snd) specs = Inr ps \<and> sum_list (map tensor_size ts) = sum_list ps * n))"
proof (intro conjI impI)
  note u = assms(1)[unfolded uniform_tensors_def]
  have "map shared_by ts = map (\<lambda>x. [x]) names"
    by (rule mapE_map_eq[OF u]) (auto simp: bindE_Inr_iff)
  then show "concat (map shared_by ts) = names" by simp
  show "\<forall>t \<in> set ts. \<exists>p \<ge> 0. tensor_size t = p * n"
  proof
    fix t assume "t \<in> set ts"
    then obtain name s p where s: "spec_of_layer specs name = Inr s" "page_size_bytes dsz s = Inr p" "tensor_size t = p * n"
      using mapE_nth[OF u] by (auto simp: in_set_conv_nth bindE_Inr_iff) (metis kv_cache_tensor.select_convs(1))
    then have "(name, s) \<in> set specs" by (auto simp: spec_of_layer_def dest: map_of_SomeD split: option.splits)
    then have "0 \<le> p" using assms(2) s(2) page_nonnegD unfolding layer_spec_ok_def by fastforce
    with s(3) show "\<exists>p \<ge> 0. tensor_size t = p * n" by blast
  qed
  assume names: "names = dkeys specs" and ok: "dict_ok specs"
  have one: "\<exists>p. page_size_bytes dsz (snd (specs ! i)) = Inr p \<and> tensor_size (ts ! i) = p * n" if "i < length specs" for i
  proof -
    have "dget specs (names ! i) = Some (snd (specs ! i))" using ok that by (simp add: names)
    moreover have "bindE (spec_of_layer specs (names ! i)) (\<lambda>s. bindE (page_size_bytes dsz s) (\<lambda>page.
       Inr \<lparr>tensor_size = page * n, shared_by = [names ! i]\<rparr>)) = Inr (ts ! i)"
      using mapE_nth[OF u] that by (simp add: names)
    ultimately show ?thesis by (auto simp: bindE_Inr_iff spec_of_layer_def) (metis kv_cache_tensor.select_convs(1))
  qed
  then obtain q where q: "\<forall>i < length specs. page_size_bytes dsz (snd (specs ! i)) = Inr (q i) \<and> tensor_size (ts ! i) = q i * n"
    by metis
  have len: "length ts = length specs" using mapE_nth[OF u] by (simp add: names)
  have "mapE (page_size_bytes dsz \<circ> snd) specs = Inr (map q [0..<length specs])"
    using q by (simp add: mapE_Inr_iff list_all2_conv_all_nth)
  moreover have "map tensor_size ts = map (\<lambda>i. q i * n) [0..<length specs]"
    using q len by (intro nth_equalityI) auto
  ultimately show "\<exists>ps. mapE (page_size_bytes dsz \<circ> snd) specs = Inr ps \<and> sum_list (map tensor_size ts) = sum_list ps * n"
    by (auto simp: sum_list_mult_const comp_def)
qed

lemma Max_length_le: "g \<in> set groups \<Longrightarrow> length (layer_names g) \<le> Max (set (map (length \<circ> layer_names) groups))"
  by (rule Max_ge) auto

lemma sum_list_const_map: "sum_list (map (\<lambda>_. c) xs) = int (length xs) * c" for c :: int
  by (induction xs) (simp_all add: algebra_simps)

lemma shared_tensors_size: "sum_list (map tensor_size (shared_tensors groups gs bytes)) = int gs * bytes"
  by (simp add: shared_tensors_def comp_def sum_list_const_map del: sum_list_triv)

lemma page_of_bundle:
  "page_size_bytes dsz (UniformTypeKVCacheSpecs b specs) = Inr page \<longleftrightarrow>
   (\<exists>ps. mapE (page_size_bytes dsz \<circ> snd) specs = Inr ps \<and> page = sum_list ps)"
  using sumE_Inr_iff_aux[of "page_size_bytes dsz \<circ> snd" specs 0 page] by (simp add: comp_def)

lemma div_mult_le: "0 \<le> (p::int) \<Longrightarrow> p \<noteq> 0 \<Longrightarrow> p * (a div p) \<le> a"
  using zdiv_ge_iff[of p "a div p" a] by (simp add: mult.commute)

text \<open>
  The tensors of a worker hold each of its layers once, are multiples of the number of blocks, and
  take no more than the memory that is available.
\<close>

definition config_fits :: "kv_cache_group_spec list \<Rightarrow> int \<Rightarrow> kv_cache_config \<Rightarrow> bool" where
  "config_fits groups available c \<longleftrightarrow>
     kv_cache_groups c = groups \<and>
     mset (concat (map shared_by (kv_cache_tensors c))) = mset (concat (map layer_names groups)) \<and>
     0 \<le> num_blocks c \<and>
     (\<forall>t \<in> set (kv_cache_tensors c). \<exists>p \<ge> 0. tensor_size t = p * num_blocks c) \<and>
     sum_list (map tensor_size (kv_cache_tensors c)) \<le> available"

lemma bundled_config_fits:
  assumes page: "page_size_bytes dsz (UniformTypeKVCacheSpecs b specs) = Inr page" "page \<noteq> 0"
    and ts: "uniform_tensors dsz specs names (available div page) = Inr ts"
    and names: "names = [] \<or> names = dkeys specs" and ok: "specs_ok dsz specs" and mem: "0 \<le> available"
  shows "config_fits [\<lparr>layer_names = names, group_spec = UniformTypeKVCacheSpecs b specs\<rparr>] available
    \<lparr>num_blocks = available div page, kv_cache_tensors = ts,
     kv_cache_groups = [\<lparr>layer_names = names, group_spec = UniformTypeKVCacheSpecs b specs\<rparr>]\<rparr>"
proof -
  have layers: "\<forall>ns \<in> set specs. layer_spec_ok dsz (snd ns)" "dict_ok specs"
    using ok unfolding specs_ok_def by blast+
  obtain ps where ps: "mapE (page_size_bytes dsz \<circ> snd) specs = Inr ps" "page = sum_list ps"
    using page(1) unfolding page_of_bundle by blast
  have "0 \<le> p" if "p \<in> set ps" for p
    using that mapE_nth[OF ps(1)] layers(1) page_nonnegD unfolding layer_spec_ok_def
    by (auto simp: in_set_conv_nth) (metis nth_mem)
  then have page0: "0 < page" using page(2) ps(2) sum_list_nonneg[of ps] by fastforce
  then have k: "0 \<le> available div page" using mem by (simp add: pos_imp_zdiv_nonneg_iff)
  note t = uniform_tensors_Inr[OF ts layers(1)]
  have "sum_list (map tensor_size ts) \<le> available"
  proof (cases "names = []")
    case True
    then have "ts = []" using ts by (simp add: uniform_tensors_def)
    then show ?thesis using mem by simp
  next
    case False
    then have "sum_list (map tensor_size ts) = page * (available div page)" using t names layers(2) ps by auto
    then show ?thesis using page0 div_mult_le[of page available] by simp
  qed
  then show ?thesis using t k by (simp add: config_fits_def)
qed

lemma shared_config_fits:
  assumes page: "0 < page" and gs: "0 < gs" "\<forall>g \<in> set groups. length (layer_names g) \<le> gs" and mem: "0 \<le> available"
    and n: "n = max (available div page div int gs) 0"
  shows "config_fits groups available
    \<lparr>num_blocks = n, kv_cache_tensors = shared_tensors groups gs (page * n), kv_cache_groups = groups\<rparr>"
proof -
  have "0 \<le> available div page div int gs" using page mem gs by (simp add: pos_imp_zdiv_nonneg_iff)
  then have n': "n = available div (page * int gs)" "0 \<le> n" unfolding n by (simp_all add: zdiv_zmult2_eq)
  have "(page * int gs) * n \<le> available" unfolding n'(1) using page gs by (intro div_mult_le) auto
  moreover have "\<exists>p \<ge> 0. tensor_size t = p * n" if "t \<in> set (shared_tensors groups gs (page * n))" for t
    using that page by (intro exI[of _ page]) (auto simp: shared_tensors_def)
  ultimately show ?thesis using shared_tensors_layers[OF gs(2)] n'(2)
    unfolding config_fits_def by (simp add: shared_tensors_size ac_simps)
qed

lemma config_from_groups_fits:
  assumes c: "get_kv_cache_config_from_groups dsz cfg groups available = Inr c"
    and ok: "groups_ok dsz groups" and mem: "0 \<le> available" and no: "num_gpu_blocks_override cfg = None"
  shows "config_fits groups available c"
proof -
  consider (none) "groups = []"
    | (bundled) names b specs where "groups = [\<lparr>layer_names = names, group_spec = UniformTypeKVCacheSpecs b specs\<rparr>]"
        "names = [] \<or> names = dkeys specs" "specs_ok dsz specs"
    | (shared) "groups \<noteq> []" "\<forall>g \<in> set groups. layer_spec_ok dsz (group_spec g)"
    using ok unfolding groups_ok_def by blast
  then show ?thesis
  proof cases
    case none
    then show ?thesis using c mem by (auto simp: get_kv_cache_config_from_groups_def config_fits_def)
  next
    case bundled
    from c obtain page ts where page: "page_size_bytes dsz (UniformTypeKVCacheSpecs b specs) = Inr page" "page \<noteq> 0"
      and ts: "uniform_tensors dsz specs names (available div page) = Inr ts"
      and c': "c = \<lparr>num_blocks = available div page, kv_cache_tensors = ts, kv_cache_groups = groups\<rparr>"
      unfolding get_kv_cache_config_from_groups_def bundled(1) Let_def
      by (auto simp: bindE_Inr_iff may_override_num_blocks_def no simp del: page_size_bytes.simps)
    show ?thesis unfolding c' bundled(1) by (rule bundled_config_fits[OF page ts bundled(2,3) mem])
  next
    case shared
    let ?gs = "Max (set (map (length \<circ> layer_names) groups))"
    have "is_uniform_group groups = None"
      using shared(2) by (cases groups rule: is_uniform_group.cases) (auto simp: layer_spec_ok_def split: kv_cache_spec.split)
    with c shared(1) obtain page n where page: "get_uniform_page_size dsz (map group_spec groups) = Inr page" and gs: "0 < ?gs"
      and p0: "page \<noteq> 0" and n: "n = max (available div page div int ?gs) 0"
      and c': "c = \<lparr>num_blocks = n, kv_cache_tensors = shared_tensors groups ?gs (page * n), kv_cache_groups = groups\<rparr>"
      unfolding get_kv_cache_config_from_groups_def Let_def
      by (auto simp: bindE_Inr_iff may_override_num_blocks_def no get_num_blocks_def)
    have "page_size_bytes dsz (group_spec (hd groups)) = Inr page"
      using get_uniform_page_size_Inr[OF page] shared(1) by simp
    then have "0 < page" using p0 shared page_nonnegD[of dsz "group_spec (hd groups)" page] unfolding layer_spec_ok_def by force
    then show ?thesis unfolding c' using gs mem n Max_length_le by (intro shared_config_fits) auto
  qed
qed

section \<open>All workers\<close>

lemma project_group_names:
  "project_group w g = Inr h \<Longrightarrow> layer_names h = filter (\<lambda>n. dget w n \<noteq> None) (layer_names g)"
  by (auto simp: project_group_def Let_def bindE_Inr_iff split: kv_cache_spec.splits if_split_asm)

lemma project_layers:
  assumes "project_kv_cache_groups_to_worker groups w = Inr gs"
  shows "mset (concat (map layer_names gs)) = filter_mset (\<lambda>n. dget w n \<noteq> None) (mset (concat (map layer_names groups)))"
proof -
  have "map layer_names gs = map (filter (\<lambda>n. dget w n \<noteq> None) \<circ> layer_names) groups"
    by (rule mapE_map_eq[OF assms[unfolded project_kv_cache_groups_to_worker_def]]) (simp add: project_group_names)
  then have "concat (map layer_names gs) = filter (\<lambda>n. dget w n \<noteq> None) (concat (map layer_names groups))"
    by (simp add: filter_concat)
  then show ?thesis by simp
qed

lemma project_group_plain: "\<not> is_bundle (group_spec g) \<Longrightarrow> project_group w g = Inr h \<Longrightarrow> group_spec h = group_spec g"
  by (auto simp: project_group_def Let_def split: kv_cache_spec.splits)

lemma select_specs_ok:
  assumes m: "mapE (\<lambda>n. bindE (spec_of_layer specs n) (\<lambda>s. Inr (n, s))) names = Inr ss"
    and ok: "specs_ok dsz specs" and names: "distinct names"
  shows "dkeys ss = names \<and> specs_ok dsz ss"
proof -
  have keys: "dkeys ss = names"
    using mapE_map_eq[OF m, where g = fst and h = "\<lambda>x. x"] by (auto simp: bindE_Inr_iff)
  have "ns \<in> set specs" if "ns \<in> set ss" for ns
  proof -
    from that obtain n where "bindE (spec_of_layer specs n) (\<lambda>s. Inr (n, s)) = Inr ns"
      using mapE_nth[OF m] unfolding in_set_conv_nth by metis
    then show ?thesis by (auto simp: bindE_Inr_iff spec_of_layer_def dest: map_of_SomeD split: option.splits)
  qed
  then show ?thesis using keys ok names unfolding specs_ok_def by blast
qed

lemma project_ok:
  assumes p: "project_kv_cache_groups_to_worker groups w = Inr gs" and ok: "groups_ok dsz groups"
  shows "groups_ok dsz gs"
proof -
  consider "\<forall>g \<in> set groups. layer_spec_ok dsz (group_spec g)"
    | names b specs where "groups = [\<lparr>layer_names = names, group_spec = UniformTypeKVCacheSpecs b specs\<rparr>]"
        "names = [] \<or> names = dkeys specs" "specs_ok dsz specs"
    using ok unfolding groups_ok_def by blast
  then show ?thesis
  proof cases
    case 1
    have "layer_spec_ok dsz (group_spec h)" if "h \<in> set gs" for h
    proof -
      from that obtain g where g: "g \<in> set groups" "project_group w g = Inr h"
        using mapE_nth[OF p[unfolded project_kv_cache_groups_to_worker_def]] unfolding in_set_conv_nth by metis
      then have "group_spec h = group_spec g" using 1 project_group_plain unfolding layer_spec_ok_def by blast
      then show ?thesis using 1 g(1) by simp
    qed
    then show ?thesis by (simp add: groups_ok_def)
  next
    case 2
    let ?names = "filter (\<lambda>n. dget w n \<noteq> None) names"
    show ?thesis
    proof (cases "?names = []")
      case True
      then have gs: "gs = [\<lparr>layer_names = [], group_spec = UniformTypeKVCacheSpecs b specs\<rparr>]" using p
        unfolding 2(1) project_kv_cache_groups_to_worker_def by (simp add: project_group_def Let_def)
      show ?thesis unfolding gs groups_ok_def using 2(3) by blast
    next
      case False
      then have names: "distinct ?names" using 2(2,3) by (auto simp: specs_ok_def)
      from False p obtain ss where ss: "mapE (\<lambda>n. bindE (spec_of_layer specs n) (\<lambda>s. Inr (n, s))) ?names = Inr ss"
        and gs: "gs = [\<lparr>layer_names = ?names, group_spec = UniformTypeKVCacheSpecs b ss\<rparr>]"
        unfolding project_kv_cache_groups_to_worker_def 2(1)
        by (simp add: bindE_Inr_iff project_group_def Let_def) blast
      have "?names = dkeys ss" "specs_ok dsz ss" using select_specs_ok[OF ss 2(3) names] by simp_all
      then show ?thesis unfolding gs groups_ok_def by blast
    qed
  qed
qed

lemma merge_workers_aux:
  "foldE merge_worker_layer ls merged = Inr merged' \<Longrightarrow> dict_ok merged \<Longrightarrow>
   dict_ok merged' \<and> set (dkeys merged') = set (dkeys merged) \<union> fst ` set ls \<and> set merged' \<subseteq> set merged \<union> set ls"
proof (induction ls arbitrary: merged)
  case (Cons ns ls)
  obtain n s where ns: "ns = (n, s)" by force
  from Cons.prems(1) obtain m where m: "merge_worker_layer ns merged = Inr m" and rest: "foldE merge_worker_layer ls m = Inr merged'"
    by (auto elim: bindE_InrE)
  have "dict_ok m \<and> set (dkeys m) = insert n (set (dkeys merged)) \<and> set m \<subseteq> insert ns (set merged)"
  proof (cases "dget merged n")
    case None
    then have "dset n s merged = merged @ [(n, s)]" by (induction merged) (auto split: if_split_asm)
    then have "m = merged @ [(n, s)]" using m None by (simp add: ns)
    then show ?thesis using Cons.prems(2) None by (simp add: ns dget_None_iff subset_insertI)
  next
    case (Some t)
    then have "n \<in> set (dkeys merged)" using dget_None_iff[of merged n] by auto
    then show ?thesis using m Some Cons.prems(2) by (auto simp: ns bindE_Inr_iff)
  qed
  then show ?case using Cons.IH[OF rest] by (auto simp: ns)
qed auto

lemma merge_workers:
  assumes m: "foldE merge_worker_layer (concat specs) [] = Inr merged" and ok: "\<forall>w \<in> set specs. specs_ok dsz w"
  shows "specs_ok dsz merged \<and> (\<forall>w \<in> set specs. set (dkeys w) \<subseteq> set (dkeys merged))"
proof -
  have "dict_ok merged" and keys: "set (dkeys merged) = fst ` set (concat specs)" and sub: "set merged \<subseteq> set (concat specs)"
    using merge_workers_aux[OF m] by simp_all
  moreover have "layer_spec_ok dsz (snd ns)" if "ns \<in> set merged" for ns
  proof -
    from that sub obtain w where "w \<in> set specs" "ns \<in> set w" by (auto simp only: set_concat)
    then show ?thesis using ok unfolding specs_ok_def by blast
  qed
  moreover have "set (dkeys w) \<subseteq> set (dkeys merged)" if "w \<in> set specs" for w
    using that unfolding keys by auto
  ultimately show ?thesis unfolding specs_ok_def by blast
qed

lemma worker_layers:
  assumes "dict_ok merged" "dict_ok w" "set (dkeys w) \<subseteq> set (dkeys merged)"
  shows "filter_mset (\<lambda>n. dget w n \<noteq> None) (mset (dkeys merged)) = mset (dkeys w)"
proof -
  have "mset (filter (\<lambda>n. dget w n \<noteq> None) (dkeys merged)) = mset (dkeys w)"
    using assms by (intro iffD1[OF set_eq_iff_mset_eq_distinct]) (auto simp: dget_None_iff)
  then show ?thesis by simp
qed

lemma shrink_tensors:
  assumes "mapE (\<lambda>t. if n = 0 then Inl ZeroDivisionError
                      else bindE (assertE (tensor_size t mod n = 0)) (\<lambda>_.
                        Inr (t\<lparr>tensor_size := tensor_size t div n * least\<rparr>))) ts = Inr ts'"
    and "\<forall>t \<in> set ts. \<exists>p \<ge> 0. tensor_size t = p * n" "least \<le> n"
  shows "map shared_by ts' = map shared_by ts \<and> sum_list (map tensor_size ts') \<le> sum_list (map tensor_size ts)"
  using assms(1,2)
proof (induction ts arbitrary: ts')
  case (Cons t ts)
  from Cons.prems(1) obtain us where n: "n \<noteq> 0" and ts': "ts' = t\<lparr>tensor_size := tensor_size t div n * least\<rparr> # us"
    and us: "mapE (\<lambda>t. if n = 0 then Inl ZeroDivisionError
                      else bindE (assertE (tensor_size t mod n = 0)) (\<lambda>_.
                        Inr (t\<lparr>tensor_size := tensor_size t div n * least\<rparr>))) ts = Inr us"
    by (auto simp: bindE_Inr_iff split: if_split_asm)
  obtain p where "0 \<le> p" "tensor_size t = p * n" using Cons.prems(2) by auto
  then have "tensor_size t div n * least \<le> tensor_size t" using n assms(3) by (simp add: mult_left_mono)
  then show ?case using Cons.IH[OF us] Cons.prems(2) by (simp add: ts')
qed simp

lemma shrink_config_fits:
  assumes "shrink_config least c = Inr c'" "config_fits gs available c" "least \<le> num_blocks c"
  shows "num_blocks c' = least \<and> kv_cache_groups c' = gs \<and>
    mset (concat (map shared_by (kv_cache_tensors c'))) = mset (concat (map layer_names gs)) \<and>
    sum_list (map tensor_size (kv_cache_tensors c')) \<le> available"
proof -
  from assms(1) obtain ts' where
    ts': "mapE (\<lambda>t. if num_blocks c = 0 then Inl ZeroDivisionError
                      else bindE (assertE (tensor_size t mod num_blocks c = 0)) (\<lambda>_.
                        Inr (t\<lparr>tensor_size := tensor_size t div num_blocks c * least\<rparr>))) (kv_cache_tensors c) = Inr ts'"
    and c': "c' = c\<lparr>num_blocks := least, kv_cache_tensors := ts'\<rparr>"
    unfolding shrink_config_def by (auto simp: bindE_Inr_iff)
  show ?thesis using shrink_tensors[OF ts' _ assms(3)] assms(2) unfolding config_fits_def c' by simp
qed

lemma check_enough_memory_Inr: "check_enough_memory mem needed est = Inr () \<Longrightarrow> 0 < mem \<and> (\<exists>m \<le> mem. needed = Inr m)"
  by (auto simp: check_enough_memory_def bindE_Inr_iff split: if_split_asm)

text \<open>The steps of a run of \<open>get_kv_cache_configs\<close> that returns.\<close>

lemma get_kv_cache_configs_steps:
  assumes "get_kv_cache_configs dsz cfg specs available = Inr (configs, cfg')"
  obtains merged groups projected raw where
    "foldE merge_worker_layer (concat specs) [] = Inr merged" "get_kv_cache_groups dsz cfg merged = Inr groups"
    "mapE (project_kv_cache_groups_to_worker groups) specs = Inr projected"
    "(if original_max_model_len cfg = - 1 then auto_fit_max_model_len dsz cfg projected available else Inr cfg) = Inr cfg'"
    "\<forall>(gs, mem) \<in> set (zip projected available). gs \<noteq> [] \<longrightarrow> 0 < mem \<and>
       (\<exists>m \<le> mem. max_memory_usage_bytes_from_groups dsz cfg' gs = Inr m)"
    "mapE (worker_config dsz cfg') (zip projected (zip specs available)) = Inr raw" "raw \<noteq> []"
    "mapE (shrink_config (Min (num_blocks ` set raw))) raw = Inr configs"
proof -
  from assms obtain merged groups projected cfg1 u raw where s:
    "foldE merge_worker_layer (concat specs) [] = Inr merged" "get_kv_cache_groups dsz cfg merged = Inr groups"
    "mapE (project_kv_cache_groups_to_worker groups) specs = Inr projected"
    "(if original_max_model_len cfg = - 1 then auto_fit_max_model_len dsz cfg projected available else Inr cfg) = Inr cfg1"
    "mapE (\<lambda>(gs, mem). if gs = [] then Inr ()
              else check_enough_memory mem (max_memory_usage_bytes_from_groups dsz cfg1 gs)
                     (estimate_max_model_len_from_groups dsz cfg1 gs)) (zip projected available) = Inr u"
    "mapE (worker_config dsz cfg1) (zip projected (zip specs available)) = Inr raw"
    and last: "(if raw = [] then Inl ValueError
       else bindE (mapE (shrink_config (Min (num_blocks ` set raw))) raw) (\<lambda>configs. Inr (configs, cfg1))) = Inr (configs, cfg')"
    unfolding get_kv_cache_configs_def Let_def by (elim bindE_InrE)
  have r: "raw \<noteq> []" "mapE (shrink_config (Min (num_blocks ` set raw))) raw = Inr configs" and "cfg1 = cfg'"
    using last by (auto simp: bindE_Inr_iff split: if_split_asm)
  note s = s[unfolded \<open>cfg1 = cfg'\<close>] and u = s(5)[unfolded \<open>cfg1 = cfg'\<close>]
  have "0 < mem \<and> (\<exists>m \<le> mem. max_memory_usage_bytes_from_groups dsz cfg' gs = Inr m)"
    if g: "(gs, mem) \<in> set (zip projected available)" "gs \<noteq> []" for gs mem
  proof -
    obtain i where i: "i < length (zip projected available)" "zip projected available ! i = (gs, mem)"
      using g(1) unfolding in_set_conv_nth by blast
    have "check_enough_memory mem (max_memory_usage_bytes_from_groups dsz cfg' gs)
        (estimate_max_model_len_from_groups dsz cfg' gs) = Inr (u ! i)"
      using mapE_nth[OF u] i g(2) by fastforce
    then show ?thesis by (intro check_enough_memory_Inr) simp
  qed
  then show thesis by (intro that[OF s(1-4) _ s(6) r]) auto
qed

lemma projected_layers:
  assumes merged: "foldE merge_worker_layer (concat specs) [] = Inr merged" and groups: "get_kv_cache_groups dsz cfg merged = Inr groups"
    and p: "project_kv_cache_groups_to_worker groups w = Inr gs" and w: "w \<in> set specs" and ok: "\<forall>w \<in> set specs. specs_ok dsz w"
  shows "groups_ok dsz gs \<and> mset (concat (map layer_names gs)) = mset (dkeys w)"
proof -
  note m = merge_workers[OF merged ok]
  have "groups_ok dsz gs" using project_ok[OF p get_kv_cache_groups_ok[OF groups]] m by blast
  moreover have "mset (concat (map layer_names gs)) = filter_mset (\<lambda>n. dget w n \<noteq> None) (mset (dkeys merged))"
    by (simp only: project_layers[OF p] get_kv_cache_groups_partition[OF groups])
  moreover have "dict_ok merged" "dict_ok w" "set (dkeys w) \<subseteq> set (dkeys merged)"
    using m w ok unfolding specs_ok_def by blast+
  ultimately show ?thesis by (simp only: worker_layers)
qed

lemma checked_config_fits:
  assumes c: "get_kv_cache_config_from_groups dsz cfg gs mem = Inr c" and ok: "groups_ok dsz gs"
    and no: "num_gpu_blocks_override cfg = None" and "gs \<noteq> [] \<longrightarrow> 0 < mem"
  shows "config_fits gs (max 0 mem) c"
proof (cases "gs = []")
  case True
  then have "c = \<lparr>num_blocks = 1, kv_cache_tensors = [], kv_cache_groups = []\<rparr>"
    using c by (simp add: get_kv_cache_config_from_groups_def)
  then show ?thesis using True by (simp add: config_fits_def)
next
  case False
  then show ?thesis using config_from_groups_fits[OF c ok _ no] assms(4) by simp
qed

lemma auto_fit_keeps_override:
  "auto_fit_max_model_len dsz cfg gs mem = Inr cfg' \<Longrightarrow> num_gpu_blocks_override cfg' = num_gpu_blocks_override cfg"
  unfolding auto_fit_max_model_len_def by (auto simp: bindE_Inr_iff split: if_split_asm)

lemma get_kv_cache_configs_fit:
  assumes run: "get_kv_cache_configs dsz cfg specs available = Inr (configs, cfg')"
    and ok: "\<forall>w \<in> set specs. specs_ok dsz w" and no: "num_gpu_blocks_override cfg = None"
  shows "length configs = min (length specs) (length available) \<and>
    (\<exists>n. \<forall>i < length configs. num_blocks (configs ! i) = n \<and>
       mset (concat (map shared_by (kv_cache_tensors (configs ! i)))) = mset (dkeys (specs ! i)) \<and>
       sum_list (map tensor_size (kv_cache_tensors (configs ! i))) \<le> max 0 (available ! i))"
proof -
  from run obtain merged groups projected raw where s:
    "foldE merge_worker_layer (concat specs) [] = Inr merged" "get_kv_cache_groups dsz cfg merged = Inr groups"
    and projected: "mapE (project_kv_cache_groups_to_worker groups) specs = Inr projected"
    and fit: "(if original_max_model_len cfg = - 1 then auto_fit_max_model_len dsz cfg projected available else Inr cfg) = Inr cfg'"
    and mem: "\<forall>(gs, mem) \<in> set (zip projected available). gs \<noteq> [] \<longrightarrow> 0 < mem \<and>
       (\<exists>m \<le> mem. max_memory_usage_bytes_from_groups dsz cfg' gs = Inr m)"
    and raw: "mapE (worker_config dsz cfg') (zip projected (zip specs available)) = Inr raw"
    and shrunk: "mapE (shrink_config (Min (num_blocks ` set raw))) raw = Inr configs"
    by (rule get_kv_cache_configs_steps)
  have no': "num_gpu_blocks_override cfg' = None"
    using fit no auto_fit_keeps_override[of dsz cfg projected available cfg'] by (auto split: if_split_asm)
  have len: "length projected = length specs" "length raw = min (length specs) (length available)" "length configs = length raw"
    using mapE_nth[OF projected] mapE_nth[OF raw] mapE_nth[OF shrunk] by auto
  have one: "num_blocks (configs ! i) = Min (num_blocks ` set raw) \<and>
      mset (concat (map shared_by (kv_cache_tensors (configs ! i)))) = mset (dkeys (specs ! i)) \<and>
      sum_list (map tensor_size (kv_cache_tensors (configs ! i))) \<le> max 0 (available ! i)" if i: "i < length configs" for i
  proof -
    have i': "i < length specs" "i < length available" "i < length projected" "i < length raw" using i len by auto
    have "project_kv_cache_groups_to_worker groups (specs ! i) = Inr (projected ! i)" using mapE_nth[OF projected] i' by simp
    from projected_layers[OF s this nth_mem[OF i'(1)] ok]
    have gs: "groups_ok dsz (projected ! i)" "mset (concat (map layer_names (projected ! i))) = mset (dkeys (specs ! i))" by simp_all
    have "worker_config dsz cfg' (projected ! i, specs ! i, available ! i) = Inr (raw ! i)" using mapE_nth[OF raw] i' by simp
    then have c: "get_kv_cache_config_from_groups dsz cfg' (projected ! i) (available ! i) = Inr (raw ! i)"
      by (simp add: worker_config_def bindE_Inr_iff)
    have "(projected ! i, available ! i) \<in> set (zip projected available)" using i' by (auto simp: set_zip)
    then have "config_fits (projected ! i) (max 0 (available ! i)) (raw ! i)"
      using mem by (intro checked_config_fits[OF c gs(1) no']) blast
    moreover have "shrink_config (Min (num_blocks ` set raw)) (raw ! i) = Inr (configs ! i)" using mapE_nth[OF shrunk] i' by simp
    moreover have "Min (num_blocks ` set raw) \<le> num_blocks (raw ! i)" using i' by (intro Min_le) auto
    ultimately show ?thesis using shrink_config_fits gs(2) by metis
  qed
  have "length configs = min (length specs) (length available)" using len by simp
  then show ?thesis using one by blast
qed

section \<open>The longest model length that fits\<close>

lemma search_loop_largest:
  assumes "\<forall>len \<in> {left..right}. fits len = Inr (len \<le> most)" "left \<le> right + 1" "left - 1 \<le> most" "most \<le> right"
    and "res = left - 1 \<or> left \<le> most"
  shows "search_loop fits left right res = Inr most"
  using assms
proof (induction fits left right res rule: search_loop.induct)
  case (1 fits left right res)
  let ?mid = "(left + right) div 2"
  show ?case
  proof (cases "left \<le> right")
    case True
    then have mid: "left \<le> ?mid" "?mid \<le> right" by auto
    then have fits: "fits ?mid = Inr (?mid \<le> most)" using 1(3) by simp
    show ?thesis
    proof (cases "?mid \<le> most")
      case True
      have "search_loop fits (?mid + 1) right ?mid = Inr most"
        by (rule 1(1)[OF \<open>left \<le> right\<close>]) (use 1(3-) mid True in auto)
      then show ?thesis using \<open>left \<le> right\<close> fits True by (subst search_loop.simps) simp
    next
      case False
      have "search_loop fits left (?mid - 1) res = Inr most"
        by (rule 1(2)[OF \<open>left \<le> right\<close>, of False]) (use 1(3-) mid False in auto)
      then show ?thesis using \<open>left \<le> right\<close> fits False by (subst search_loop.simps) simp
    qed
  next
    case False
    then show ?thesis using 1(4-) by (subst search_loop.simps) auto
  qed
qed

text \<open>
  A question that is answered at every length and turns from yes to no at most once has a last length
  with the answer yes, and the search finds it.
\<close>

lemma downward_closed_threshold:
  assumes "\<And>a b. 1 \<le> a \<Longrightarrow> a \<le> b \<Longrightarrow> b \<le> n \<Longrightarrow> P b \<Longrightarrow> P a" "0 \<le> (n::int)"
  shows "\<exists>most. 0 \<le> most \<and> most \<le> n \<and> (\<forall>a \<in> {1..n}. P a \<longleftrightarrow> a \<le> most)"
  using assms(2,1)
proof (induction n rule: int_ge_induct)
  case (step n)
  then obtain most where most: "0 \<le> most" "most \<le> n" "\<forall>a \<in> {1..n}. P a \<longleftrightarrow> a \<le> most" by auto
  show ?case
  proof (cases "P (n + 1)")
    case True
    then have "\<forall>a \<in> {1..n + 1}. P a \<longleftrightarrow> a \<le> n + 1" using step.prems by auto
    then show ?thesis using step.hyps by (intro exI[of _ "n + 1"]) auto
  next
    case False
    have "P a \<longleftrightarrow> a \<le> most" if "a \<in> {1..n + 1}" for a
      using that False most by (cases "a = n + 1") auto
    then show ?thesis using most by (intro exI[of _ most]) auto
  qed
qed auto

lemma search_max_len_largest:
  assumes total: "\<forall>len \<in> {1..n}. fits len = Inr (P len)" and mono: "\<And>a b. 1 \<le> a \<Longrightarrow> a \<le> b \<Longrightarrow> b \<le> n \<Longrightarrow> P b \<Longrightarrow> P a"
    and n: "1 \<le> n"
  shows "\<exists>most. search_max_len fits n = Inr most \<and> 0 \<le> most \<and> most \<le> n \<and> (\<forall>len \<in> {1..n}. fits len = Inr (len \<le> most))"
proof -
  obtain most where most: "0 \<le> most" "most \<le> n" "\<forall>a \<in> {1..n}. P a \<longleftrightarrow> a \<le> most"
    using downward_closed_threshold[of n P] mono n by force
  then have fits: "\<forall>len \<in> {1..n}. fits len = Inr (len \<le> most)" using total by simp
  have one: "fits 1 = Inr (1 \<le> most)" using fits n by simp
  have "search_max_len fits n = Inr most"
  proof (cases "1 \<le> most")
    case True
    then have "search_loop fits 1 n 1 = Inr most" using fits n most by (intro search_loop_largest) auto
    then show ?thesis using True one by (simp add: search_max_len_def)
  next
    case False
    then show ?thesis using one most(1) by (simp add: search_max_len_def)
  qed
  then show ?thesis using most fits by blast
qed

text \<open>The specifications whose memory a worker is charged with, and what they have to be for it to grow with the length.\<close>

definition charged_specs :: "kv_cache_group_spec list \<Rightarrow> kv_cache_spec list" where
  "charged_specs groups = (case is_uniform_group groups of Some specs \<Rightarrow> map snd specs | None \<Rightarrow> map group_spec groups)"

definition memory_ok :: "(string \<Rightarrow> int) \<Rightarrow> kv_cache_spec \<Rightarrow> bool" where
  "memory_ok dsz s \<longleftrightarrow> layer_spec_ok dsz s \<and> 0 < spec_block_size s"

lemma full_max_memory_mono:
  "0 < bs \<Longrightarrow> 0 \<le> page \<Longrightarrow> len \<le> len' \<Longrightarrow>
   full_max_memory (cfg\<lparr>max_model_len := len\<rparr>) bs page \<le> full_max_memory (cfg\<lparr>max_model_len := len'\<rparr>) bs page"
  by (auto simp: full_max_memory_def Let_def intro!: mult_right_mono cdiv_mono)

lemma max_memory_mono:
  assumes "memory_ok dsz s" "max_memory_usage_bytes dsz (cfg\<lparr>max_model_len := len\<rparr>) s = Inr m" "len \<le> len'"
  shows "\<exists>m' \<ge> m. max_memory_usage_bytes dsz (cfg\<lparr>max_model_len := len'\<rparr>) s = Inr m'"
proof -
  have page: "0 \<le> page" if "page_size_bytes dsz s = Inr page" for page
    using assms(1) that page_nonnegD unfolding memory_ok_def layer_spec_ok_def by blast
  have mono: "cdiv (min k len) bs \<le> cdiv (min k len') bs" "cdiv len bs \<le> cdiv len' bs" if "0 < bs" for k bs
    using that assms(3) by (auto intro!: cdiv_mono)
  from assms(1,2) page show ?thesis
    by (cases s) (auto simp: memory_ok_def layer_spec_ok_def bindE_Inr_iff mono assms(3) max_memory_defs
      simp del: page_size_bytes.simps intro!: full_max_memory_mono mult_right_mono)
qed

lemma sumE_mono:
  assumes "sumE f xs = Inr a" "\<And>x m. x \<in> set xs \<Longrightarrow> f x = Inr m \<Longrightarrow> \<exists>m' \<ge> m. g x = Inr m'"
  shows "\<exists>b \<ge> a. sumE g xs = Inr (b :: int)"
proof -
  have "\<exists>bs. mapE g xs = Inr bs \<and> sum_list as \<le> sum_list bs" if "mapE f xs = Inr as" for as
    using that assms(2)
  proof (induction xs arbitrary: as)
    case (Cons x xs)
    from Cons.prems(1) obtain m as' where m: "f x = Inr m" "mapE f xs = Inr as'" "as = m # as'"
      by (auto simp: bindE_Inr_iff)
    obtain bs where "mapE g xs = Inr bs" "sum_list as' \<le> sum_list bs" using Cons.IH[OF m(2)] Cons.prems(2) by auto
    moreover obtain m' where "m \<le> m'" "g x = Inr m'" using Cons.prems(2)[OF _ m(1)] by auto
    ultimately show ?case using m(3) by (intro exI[of _ "m' # bs"]) auto
  qed simp
  then show ?thesis using assms(1) unfolding sumE_Inr_iff by auto
qed

lemma groups_memory_mono:
  assumes ok: "\<forall>s \<in> set (charged_specs groups). memory_ok dsz s"
    and m: "max_memory_usage_bytes_from_groups dsz (cfg\<lparr>max_model_len := len\<rparr>) groups = Inr m" and len: "len \<le> len'"
  shows "\<exists>m' \<ge> m. max_memory_usage_bytes_from_groups dsz (cfg\<lparr>max_model_len := len'\<rparr>) groups = Inr m'"
proof (cases "groups = []")
  case False
  show ?thesis
  proof (cases "is_uniform_group groups")
    case (Some specs)
    then have sum: "sumE (max_memory_usage_bytes dsz (cfg\<lparr>max_model_len := len\<rparr>) \<circ> snd) specs = Inr m"
      and specs: "\<forall>ns \<in> set specs. memory_ok dsz (snd ns)"
      using m ok False by (simp_all add: max_memory_usage_bytes_from_groups_def charged_specs_def)
    have "\<exists>m' \<ge> m. sumE (max_memory_usage_bytes dsz (cfg\<lparr>max_model_len := len'\<rparr>) \<circ> snd) specs = Inr m'"
      by (rule sumE_mono[OF sum]) (use specs max_memory_mono[OF _ _ len] in auto)
    then show ?thesis using Some False by (simp add: max_memory_usage_bytes_from_groups_def)
  next
    case None
    let ?f = "\<lambda>len page g. bindE (max_memory_usage_bytes dsz (cfg\<lparr>max_model_len := len\<rparr>) (group_spec g)) (\<lambda>m. py_cdiv m page)"
    let ?gs = "int (Max (set (map (length \<circ> layer_names) groups)))"
    from m None False obtain page n where page: "get_uniform_page_size dsz (map group_spec groups) = Inr page"
      and n: "sumE (?f len page) groups = Inr n" "m = ?gs * page * n"
      by (auto simp: max_memory_usage_bytes_from_groups_def bindE_Inr_iff Let_def)
    have specs: "\<forall>g \<in> set groups. memory_ok dsz (group_spec g)" using ok None by (simp add: charged_specs_def)
    have "page_size_bytes dsz (group_spec (hd groups)) = Inr page" "memory_ok dsz (group_spec (hd groups))"
      using get_uniform_page_size_Inr[OF page] False specs by simp_all
    then have page0: "0 \<le> page" using page_nonnegD unfolding memory_ok_def layer_spec_ok_def by blast
    have one: "\<exists>k' \<ge> k. ?f len' page g = Inr k'" if "g \<in> set groups" "?f len page g = Inr k" for g k
      using that specs max_memory_mono[OF _ _ len] page0 by (force simp: bindE_Inr_iff intro: cdiv_mono)
    obtain n' where n': "n \<le> n'" "sumE (?f len' page) groups = Inr n'"
      using sumE_mono[OF n(1), where g = "?f len' page"] one by blast
    have "?gs * page * n \<le> ?gs * page * n'" using n'(1) page0 by (intro mult_left_mono) auto
    then show ?thesis using None False page n'(2) n(2) by (simp add: max_memory_usage_bytes_from_groups_def Let_def)
  qed
qed (use m in \<open>simp add: max_memory_usage_bytes_from_groups_def\<close>)

section \<open>Properties\<close>

text \<open>
  C15: grouping loses and duplicates no layer: whatever formats the layers have, when
  \<open>get_kv_cache_groups\<close> returns, the layer names of its groups are together the layers of the model,
  each exactly as often as the model has it.
\<close>

theorem groups_partition_layers:
  assumes "get_kv_cache_groups dsz cfg specs = Inr groups"
  shows "mset (concat (map layer_names groups)) = mset (dkeys specs)"
  by (rule get_kv_cache_groups_partition[OF assms])


text \<open>
  C30: the binary search for the model length returns, and what it returns is the largest length up
  to the configured one that fits the memory of the worker: a length fits exactly when it is not
  above the result, and the result is 0 when not even one token fits.
\<close>

theorem estimated_length_is_largest:
  assumes "\<forall>s \<in> set (charged_specs groups). memory_ok dsz s" and "1 \<le> max_model_len cfg"
    and "max_memory_usage_bytes_from_groups dsz (cfg\<lparr>max_model_len := 1\<rparr>) groups = Inr m"
  shows "\<exists>n. estimate_max_model_len_from_groups dsz cfg groups available = Inr n \<and> 0 \<le> n \<and> n \<le> max_model_len cfg \<and>
    (\<forall>len \<in> {1..max_model_len cfg}. groups_fit dsz cfg groups available len = Inr (len \<le> n))"
  unfolding estimate_max_model_len_from_groups_def
proof (rule search_max_len_largest)
  let ?need = "\<lambda>len. max_memory_usage_bytes_from_groups dsz (cfg\<lparr>max_model_len := len\<rparr>) groups"
  let ?fits = "\<lambda>len. case ?need len of Inr m \<Rightarrow> m \<le> available | Inl e \<Rightarrow> False"
  have total: "\<exists>m. ?need len = Inr m" if "1 \<le> len" for len
    using groups_memory_mono[OF assms(1,3) that] by blast
  then show "\<forall>len \<in> {1..max_model_len cfg}. groups_fit dsz cfg groups available len = Inr (?fits len)"
    by (force simp: groups_fit_def split: sum.splits)
  show "?fits a" if ab: "1 \<le> a" "a \<le> b" "b \<le> max_model_len cfg" "?fits b" for a b
  proof -
    obtain m where "?need a = Inr m" using total ab(1) by blast
    moreover from groups_memory_mono[OF assms(1) this ab(2)] obtain m' where "m \<le> m'" "?need b = Inr m'" by blast
    ultimately show ?thesis using ab(4) by simp
  qed
qed (rule assms(2))

section \<open>Examples\<close>

definition example_attn :: attn_spec where
  "example_attn = \<lparr>attn_block_size = 16, num_kv_heads = 1, head_size = 8, attn_dtype = ''bf16'', attn_page_size_padded = None\<rparr>"

definition example_full :: kv_cache_spec where
  "example_full = FullAttentionSpec example_attn (full_fields_init example_attn None None None)"

definition example_window :: kv_cache_spec where
  "example_window = SlidingWindowSpec example_attn 16"

definition example_config :: vllm_config where
  "example_config = \<lparr>max_model_len = 32, dcp_size = 1, pcp_size = 1, cfg_max_num_batched_tokens = 8192,
     cfg_max_num_encoder_input_tokens = 0, cfg_mamba_cache_mode = ''none'', num_gpu_blocks_override = None,
     disable_hybrid_kv_cache_manager = False, original_max_model_len = 32\<rparr>"

definition example_workers :: "(string, kv_cache_spec) dict list" where
  "example_workers = [[(''full.0'', example_full), (''sw.0'', example_window)], [(''full.1'', example_full), (''sw.1'', example_window)]]"

theorem groups_partition_layers_witness:
  "\<exists>groups. get_kv_cache_groups (\<lambda>_. 2) example_config (concat example_workers) = Inr groups \<and> length groups = 2 \<and>
     mset (concat (map layer_names groups)) = mset (dkeys (concat example_workers))"
proof -
  have "case get_kv_cache_groups (\<lambda>_. 2) example_config (concat example_workers) of
      Inr groups \<Rightarrow> length groups = 2 | Inl _ \<Rightarrow> False" by code_simp
  then obtain groups where "get_kv_cache_groups (\<lambda>_. 2) example_config (concat example_workers) = Inr groups" "length groups = 2"
    by (auto split: sum.splits)
  then show ?thesis using groups_partition_layers by blast
qed


definition example_groups :: "kv_cache_group_spec list" where
  "example_groups = [\<lparr>layer_names = [''full.0''], group_spec = example_full\<rparr>, \<lparr>layer_names = [''sw.0''], group_spec = example_window\<rparr>]"

theorem estimated_length_is_largest_witness:
  "\<exists>n. estimate_max_model_len_from_groups (\<lambda>_. 2) example_config example_groups 2048 = Inr n \<and> 0 < n \<and> n < 32"
proof -
  have ok: "\<forall>s \<in> set (charged_specs example_groups). memory_ok (\<lambda>_. 2) s" "1 \<le> max_model_len example_config"
    "max_memory_usage_bytes_from_groups (\<lambda>_. 2) (example_config\<lparr>max_model_len := 1\<rparr>) example_groups = Inr 1536"
    "groups_fit (\<lambda>_. 2) example_config example_groups 2048 1 = Inr True"
    "groups_fit (\<lambda>_. 2) example_config example_groups 2048 32 = Inr False" "max_model_len example_config = 32"
    by code_simp+
  obtain n where n: "estimate_max_model_len_from_groups (\<lambda>_. 2) example_config example_groups 2048 = Inr n"
    "\<forall>len \<in> {1..max_model_len example_config}. groups_fit (\<lambda>_. 2) example_config example_groups 2048 len = Inr (len \<le> n)"
    using estimated_length_is_largest[OF ok(1-3), of 2048] by blast
  have "1 \<le> n" "\<not> 32 \<le> n" using n(2) ok(4-6) by auto
  then show ?thesis using n(1) by (intro exI[of _ n]) simp
qed

end
