(* ===== verification/Pool_Users.thy ===== *)
theory Pool_Users
  imports Pool_Runs
begin

text \<open>
  What the users of a pool rely on: for every operation, that it succeeds, what it lends or takes
  back, and how the number of free blocks changes. \<open>pool_holds p held\<close> says that \<open>p\<close> is a pool of a run
  in which the users hold \<open>held i\<close> references to block \<open>i\<close>; references to the null block do not count.
\<close>

definition pool_holds :: "block_pool \<Rightarrow> (nat \<Rightarrow> nat) \<Rightarrow> bool" where
  "pool_holds p held \<longleftrightarrow> (\<exists>held'. pool_run p held' \<and> (\<forall>i > 0. held i = held' i))"

lemma pool_holds_cong: "pool_holds p held \<Longrightarrow> (\<And>i. 0 < i \<Longrightarrow> held' i = held i) \<Longrightarrow> pool_holds p held'"
  by (auto simp: pool_holds_def)

lemma pool_holds_inv:
  assumes "pool_holds p held"
  obtains held' q where "run_inv p held' q" "\<forall>i > 0. held i = held' i"
  using assms pool_run_inv unfolding pool_holds_def by blast

lemma pool_holds_run: "pool_holds p held \<Longrightarrow> \<exists>held'. pool_run p held'"
  unfolding pool_holds_def by blast

lemma pool_holds_facts:
  assumes "pool_holds p held"
  shows "null_block p = Blk 0" "is_null (blk p (Blk i)) \<longleftrightarrow> i = 0" "0 < i \<Longrightarrow> ref_cnt (blk p (Blk i)) = int (held i)"
    "\<not> in_pool p i \<Longrightarrow> 0 < i \<Longrightarrow> held i = 0" "bid_of p (Blk i) = int i"
  using assms
proof -
  obtain held' q where q: "run_inv p held' q" "\<forall>i > 0. held i = held' i" by (rule pool_holds_inv[OF assms])
  note inv = run_invD(1)[OF q(1)]
  show "null_block p = Blk 0" "is_null (blk p (Blk i)) \<longleftrightarrow> i = 0" "bid_of p (Blk i) = int i"
    using pool_invD(2,5,6)[OF inv] by blast+
  show "0 < i \<Longrightarrow> ref_cnt (blk p (Blk i)) = int (held i)" using run_invD(2)[OF q(1)] q(2) by (simp add: refs_def)
  show "\<not> in_pool p i \<Longrightarrow> 0 < i \<Longrightarrow> held i = 0" using run_invD(3)[OF q(1)] q(2) by simp
qed

lemma pool_holds_in_pool: "pool_holds p held \<Longrightarrow> 0 < held i \<Longrightarrow> i = 0 \<or> in_pool p i"
  using pool_holds_facts(4)[of p held i] by (cases "i = 0") auto

lemma pool_holds_free:
  assumes "pool_holds p held"
  shows "get_num_free_blocks p = int (card {i. in_pool p i \<and> held i = 0})"
proof -
  obtain held' q where q: "run_inv p held' q" "\<forall>i > 0. held i = held' i" by (rule pool_holds_inv[OF assms])
  have "{i. in_pool p i \<and> held' i = 0} = {i. in_pool p i \<and> held i = 0}" using q(2) by (auto simp: in_pool_def)
  then show ?thesis using card_free[OF q(1)] by simp
qed

section \<open>Allocation\<close>

lemma get_new_blocks_fails: "pool_holds p held \<Longrightarrow> get_new_blocks p n = Inr r \<Longrightarrow> n \<le> get_num_free_blocks p"
  unfolding get_new_blocks_def by (auto split: if_split_asm)

lemma pool_holds_alloc:
  assumes p: "pool_holds p held" and n: "0 \<le> n" "n \<le> get_num_free_blocks p"
  obtains "is" p' where "get_new_blocks p n = Inr (map Blk is, p')" "distinct is" "length is = nat n"
    "\<forall>i \<in> set is. in_pool p i \<and> held i = 0" "pool_holds p' (\<lambda>i. held i + count_list is i)" "same_config p p'"
    "hash_at p' = (\<lambda>i. if i \<in> set is then None else hash_at p i)"
proof -
  obtain held' where run: "pool_run p held'" and h: "\<forall>i > 0. held i = held' i" using p unfolding pool_holds_def by blast
  obtain q where q: "run_inv p held' q" using pool_run_inv[OF run] by blast
  note inv = run_invD(1)[OF q]
  have le: "n \<le> int (length q)" using n(2) pool_inv_num_free[OF inv] by simp
  obtain p' where p': "get_new_blocks p n = Inr (take (nat n) q, p')" "pool_inv {} p' (drop (nat n) q)"
    "refs p' = (\<lambda>i. if Blk i \<in> set (take (nat n) q) then 1 else refs p i)"
    "hash_at p' = (\<lambda>i. if Blk i \<in> set (take (nat n) q) then None else hash_at p i)" "same_config p p'"
    by (rule get_new_blocks_inv[OF inv n(1) le])
  have "\<forall>b \<in> set (take (nat n) q). \<exists>i. b = Blk i" by (auto elim: pool_queue_Blk[OF inv] dest: in_set_takeD)
  then obtain "is" where is': "take (nat n) q = map Blk is" using Blk_list by blast
  have mem: "Blk i \<in> set (take (nat n) q) \<longleftrightarrow> i \<in> set is" for i unfolding is' by auto
  have "distinct (map Blk is)" unfolding is'[symmetric] using fq_repD(2)[OF pool_invD(3)[OF inv]] by simp
  then have dist: "distinct is" by (simp add: distinct_map)
  have len: "length is = nat n" using le arg_cong[OF is', of length] by simp
  have fresh: "\<forall>i \<in> set is. in_pool p i \<and> held i = 0"
  proof
    fix i assume "i \<in> set is"
    then have "Blk i \<in> set q" using mem[of i] by (auto dest: in_set_takeD)
    then show "in_pool p i \<and> held i = 0"
      using pool_invD(4)[OF inv, of i] run_invD(2)[OF q, of i] h by (auto simp: in_pool_def)
  qed
  have "count_list (map Blk is) (Blk i) = count_list is i" for i by (induction "is") auto
  then have "pool_holds p' (\<lambda>i. held i + count_list is i)"
    using pool_run.alloc[OF run p'(1) n(1)] h unfolding is' pool_holds_def by auto
  moreover have "hash_at p' = (\<lambda>i. if i \<in> set is then None else hash_at p i)" using p'(4) by (simp only: mem)
  ultimately show thesis using that[OF p'(1)[unfolded is'] dist len fresh _ p'(5)] by blast
qed

lemma alloc_free_count:
  assumes p: "pool_holds p held" "pool_holds p' (\<lambda>i. held i + count_list is i)" "same_config p p'"
    and "is": "distinct is" "\<forall>i \<in> set is. in_pool p i \<and> held i = 0"
  shows "get_num_free_blocks p' = get_num_free_blocks p - int (length is)"
proof -
  let ?F = "{i. in_pool p i \<and> held i = 0}"
  have "{i. in_pool p' i \<and> held i + count_list is i = 0} = ?F - set is"
    using same_config_in_pool[OF p(3)] by (auto simp: count_list_zero_iff)
  moreover have "card (?F - set is) = card ?F - length is"
    using "is" distinct_card[of "is"] finite_in_pool[of p "\<lambda>i. held i = 0"] by (subst card_Diff_subset) auto
  moreover have "length is \<le> card ?F"
    using "is" distinct_card[of "is"] finite_in_pool[of p "\<lambda>i. held i = 0"] by (metis (mono_tags, lifting) card_mono mem_Collect_eq subsetI)
  ultimately show ?thesis using pool_holds_free[OF p(1)] pool_holds_free[OF p(2)] by simp
qed

section \<open>References\<close>

lemma pool_holds_touch:
  assumes p: "pool_holds p held" and l: "\<forall>i \<in> set is. i = 0 \<or> in_pool p i"
  obtains p' where "touch (map Blk is) p = Inr p'" "pool_holds p' (\<lambda>i. held i + count_list is i)" "same_config p p'"
    "hash_at p' = hash_at p"
proof -
  obtain held' where run: "pool_run p held'" and h: "\<forall>i > 0. held i = held' i" using p unfolding pool_holds_def by blast
  obtain q where q: "run_inv p held' q" using pool_run_inv[OF run] by blast
  have l': "\<forall>i \<in> set is. lendable {} p i" using l by (simp add: lendable_def)
  obtain p' where p': "touch (map Blk is) p = Inr p'" "pool_inv {} p' (filter (\<lambda>b. b \<notin> set (map Blk is)) q)"
    "refs p' = (\<lambda>i. refs p i + int (count_list is i))" "hash_at p' = hash_at p" "same_config p p'"
    "cached_block_hash_to_block p' = cached_block_hash_to_block p"
    by (rule touch_inv[OF run_invD(1)[OF q] l'])
  have "pool_holds p' (\<lambda>i. held i + count_list is i)"
    using pool_run.touch[OF run p'(1) l] h unfolding pool_holds_def by auto
  then show thesis using that p'(1,4,5) by blast
qed

lemma touch_free_count:
  assumes p: "pool_holds p held" "pool_holds p' (\<lambda>i. held i + count_list is i)" "same_config p p'"
  shows "get_num_free_blocks p - int (length (filter (\<lambda>i. i \<noteq> 0 \<and> held i = 0) is)) \<le> get_num_free_blocks p'"
proof -
  let ?F = "{i. in_pool p i \<and> held i = 0}" and ?E = "set (filter (\<lambda>i. i \<noteq> 0 \<and> held i = 0) is)"
  have "{i. in_pool p' i \<and> held i + count_list is i = 0} = ?F - ?E"
    using same_config_in_pool[OF p(3)] by (auto simp: count_list_zero_iff in_pool_def)
  moreover have "card ?F - card ?E \<le> card (?F - ?E)" by (rule diff_card_le_card_Diff) simp
  moreover have "card ?E \<le> length (filter (\<lambda>i. i \<noteq> 0 \<and> held i = 0) is)" by (rule card_length)
  ultimately show ?thesis using pool_holds_free[OF p(1)] pool_holds_free[OF p(2)] by simp
qed

lemma pool_holds_give_back:
  assumes p: "pool_holds p held" and d: "distinct (filter (\<lambda>i. i \<noteq> 0) is)" and h: "\<forall>i \<in> set is. i = 0 \<or> 1 \<le> held i"
  obtains p' where "free_blocks (map Blk is) p = Inr p'" "pool_holds p' (\<lambda>i. held i - count_list is i)" "same_config p p'"
    "hash_at p' = hash_at p"
proof -
  obtain held' where run: "pool_run p held'" and eq: "\<forall>i > 0. held i = held' i" using p unfolding pool_holds_def by blast
  obtain q where q: "run_inv p held' q" using pool_run_inv[OF run] by blast
  have h': "\<forall>i \<in> set is. i = 0 \<or> 1 \<le> held' i" using h eq by (metis gr0I)
  have used: "\<forall>i \<in> set is. i = 0 \<or> (in_pool p i \<and> i \<notin> {} \<and> 1 \<le> refs p i)"
  proof
    fix i assume i: "i \<in> set is"
    show "i = 0 \<or> (in_pool p i \<and> i \<notin> {} \<and> 1 \<le> refs p i)"
    proof (cases "i = 0")
      case False
      then have "1 \<le> held' i" using h' i by auto
      then show ?thesis using run_invD(2,3)[OF q, of i] False by fastforce
    qed simp
  qed
  obtain p' where p': "free_blocks (map Blk is) p = Inr p'"
    "pool_inv {} p' (q @ map Blk (filter (\<lambda>i. i \<noteq> 0 \<and> refs p i = 1) is))"
    "refs p' = (\<lambda>i. refs p i - int (count_list is i))" "hash_at p' = hash_at p" "same_config p p'"
    "cached_block_hash_to_block p' = cached_block_hash_to_block p"
    by (rule free_blocks_inv[OF run_invD(1)[OF q] d used])
  have "pool_holds p' (\<lambda>i. held i - count_list is i)"
    using pool_run.free[OF run p'(1) d h'] eq unfolding pool_holds_def by auto
  then show thesis using that p'(1,4,5) by blast
qed

lemma pool_holds_cache:
  assumes p: "pool_holds p held" and c: "cache_full_blocks sha256 r (map Blk is) a b bs g p = Inr (p', r')"
    and e: "enable_caching p" and i: "\<forall>i \<in> set is. i = 0 \<or> in_pool p i"
  shows "pool_holds p' held \<and> same_config p p'"
proof -
  obtain held' where run: "pool_run p held'" and eq: "\<forall>i > 0. held i = held' i" using p unfolding pool_holds_def by blast
  obtain q where q: "run_inv p held' q" using pool_run_inv[OF run] by blast
  have "pool_holds p' held" using pool_run.cache[OF run c e i] eq unfolding pool_holds_def by auto
  then show ?thesis using cache_full_blocks_preserves[OF run_invD(1)[OF q] e i c] by blast
qed

lemma pool_holds_evict:
  assumes p: "pool_holds p held" and c: "evict_blocks ids p = Inr p'" and i: "\<forall>i \<in> set ids. 0 \<le> i"
  shows "pool_holds p' held \<and> same_config p p'"
proof -
  obtain held' where run: "pool_run p held'" and eq: "\<forall>i > 0. held i = held' i" using p unfolding pool_holds_def by blast
  obtain q where q: "run_inv p held' q" using pool_run_inv[OF run] by blast
  have rng: "\<forall>i \<in> set ids. 0 \<le> i \<and> i < num_gpu_blocks p"
    using evict_blocks_range[OF c run_invD(1)[OF q] i] i by blast
  obtain p1 where p1: "evict_blocks ids p = Inr p1" "pool_inv {} p1 q" "refs p1 = refs p"
    "hash_at p1 = (\<lambda>i. if int i \<in> set ids then None else hash_at p i)" "same_config p p1"
    by (rule evict_blocks_inv[OF run_invD(1)[OF q] rng])
  have "pool_holds p' held" using pool_run.evict[OF run c i] eq unfolding pool_holds_def by auto
  then show ?thesis using p1(1,5) c by simp
qed

lemma pool_holds_reset:
  assumes p: "pool_holds p held" and c: "reset_prefix_cache p = (b, p')"
  shows "pool_holds p' held \<and> same_config p p'"
proof -
  obtain held' where run: "pool_run p held'" and eq: "\<forall>i > 0. held i = held' i" using p unfolding pool_holds_def by blast
  obtain q where q: "run_inv p held' q" using pool_run_inv[OF run] by blast
  have "same_config p p'"
    using reset_prefix_cache_inv[OF run_invD(1)[OF q]] c by (auto split: if_splits)
  moreover have "pool_holds p' held" using pool_run.reset[OF run c] eq unfolding pool_holds_def by auto
  ultimately show ?thesis by blast
qed

lemma pool_holds_init: "pool_init n caching hbs events use_int metrics = Inr p \<Longrightarrow> pool_holds p (\<lambda>i. 0)"
  using pool_run.init unfolding pool_holds_def by blast

lemma pool_holds_events:
  assumes p: "pool_holds p held" and c: "pool_take_events p = (es, p')"
  shows "pool_holds p' held \<and> same_config p p'"
  using p pool_run.events[OF _ c] take_events_inv(4)[OF c] unfolding pool_holds_def by blast

end
