(* ===== verification/Single_Type.thy ===== *)
theory Single_Type
  imports Pool_Users KV_Spec
begin

text \<open>
  The managers of one KV cache group, \<open>vllm/v1/core/single_type_kv_cache_manager.py\<close>. One record holds
  the fields of the base class and of its subclasses; the class of a manager is the one
  \<open>spec_manager_map\<close> gives for its specification, so the overridden methods are cases on the
  specification. The pool a manager refers to is passed along. Reading \<open>req_to_blocks\<close>, a
  \<open>defaultdict\<close>, inserts an empty list for an unknown request. Block sizes and chunk sizes are positive.
\<close>

section \<open>The state of a manager\<close>

record st_manager =
  mgr_spec :: kv_cache_spec
  mgr_block_size :: int
  mgr_caching :: bool
  new_block_ids :: "int list"
  req_to_blocks :: "(string, bref list) dict"
  num_cached_block :: "(string, int) dict"
  kv_cache_group_id :: int
  cached_blocks_this_step :: "bytes set"
  last_state_block_idx :: "(string, int) dict"
  allocated_block_reqs :: "string set"
  sink_blocks :: "bref list"

definition req_blocks :: "st_manager \<Rightarrow> string \<Rightarrow> bref list" where
  "req_blocks m rid = (case dget (req_to_blocks m) rid of None \<Rightarrow> [] | Some bs \<Rightarrow> bs)"

definition set_blocks :: "string \<Rightarrow> bref list \<Rightarrow> st_manager \<Rightarrow> st_manager" where
  "set_blocks rid bs m = m\<lparr>req_to_blocks := dset rid bs (req_to_blocks m)\<rparr>"

definition ensure_req :: "string \<Rightarrow> st_manager \<Rightarrow> st_manager" where
  "ensure_req rid m = (if dget (req_to_blocks m) rid = None then set_blocks rid [] m else m)"

definition manager_init :: "kv_cache_spec \<Rightarrow> bool \<Rightarrow> int \<Rightarrow> int \<Rightarrow> int \<Rightarrow> st_manager" where
  "manager_init spec caching gid dcp pcp =
     \<lparr>mgr_spec = spec,
      mgr_block_size = (if 1 < dcp * pcp then spec_block_size spec * (dcp * pcp) else spec_block_size spec),
      mgr_caching = caching, new_block_ids = [], req_to_blocks = [], num_cached_block = [],
      kv_cache_group_id = gid, cached_blocks_this_step = {}, last_state_block_idx = [],
      allocated_block_reqs = {}, sink_blocks = []\<rparr>"

definition sink_init :: "st_manager \<Rightarrow> int option \<Rightarrow> block_pool \<Rightarrow> (st_manager \<times> block_pool) result" where
  "sink_init m sink p =
     (case sink of
        None \<Rightarrow> Inl AssertionError
      | Some n \<Rightarrow>
          bindE (assertE (0 < n \<and> n mod mgr_block_size m = 0)) (\<lambda>_.
          bindE (fq_popleft_n (free_block_queue p) (n div mgr_block_size m)) (\<lambda>(bs, fq).
            Inr (m\<lparr>sink_blocks := bs\<rparr>, p\<lparr>free_block_queue := fq\<rparr>))))"

definition get_manager_for_kv_cache_spec ::
    "kv_cache_spec \<Rightarrow> bool \<Rightarrow> int \<Rightarrow> int \<Rightarrow> int \<Rightarrow> block_pool \<Rightarrow> (st_manager \<times> block_pool) result" where
  "get_manager_for_kv_cache_spec spec caching gid dcp pcp p =
     (let m = manager_init spec caching gid dcp pcp in
      case spec of
        EncoderOnlyAttentionSpec a \<Rightarrow> Inl KeyError
      | UniformTypeKVCacheSpecs b specs \<Rightarrow> Inl KeyError
      | SinkFullAttentionSpec a f sink \<Rightarrow> sink_init m sink p
      | _ \<Rightarrow> Inr (m, p))"

section \<open>The attention window\<close>

definition window_skipped_tokens :: "int \<Rightarrow> int \<Rightarrow> int" where
  [simp]: "window_skipped_tokens sliding_window n = max 0 (n - sliding_window + 1)"

definition chunk_skipped_tokens :: "int \<Rightarrow> int \<Rightarrow> int" where
  [simp]: "chunk_skipped_tokens attention_chunk_size n = n div attention_chunk_size * attention_chunk_size"

definition mamba_skipped_tokens :: "int \<Rightarrow> int" where
  [simp]: "mamba_skipped_tokens n = n - 1"

fun skipped_tokens :: "kv_cache_spec \<Rightarrow> int \<Rightarrow> int" where
  "skipped_tokens (SlidingWindowSpec a w) n = window_skipped_tokens w n"
| "skipped_tokens (ChunkedLocalAttentionSpec a c) n = chunk_skipped_tokens c n"
| "skipped_tokens (MambaSpec f) n = mamba_skipped_tokens n"
| "skipped_tokens _ n = 0"

abbreviation get_num_skipped_tokens :: "st_manager \<Rightarrow> int \<Rightarrow> int" where
  "get_num_skipped_tokens m n \<equiv> skipped_tokens (mgr_spec m) n"

section \<open>Counting the blocks to allocate\<close>

definition get_num_evictable_blocks :: "block_pool \<Rightarrow> bref list \<Rightarrow> int" where
  "get_num_evictable_blocks p bs = int (length (filter (\<lambda>b. ref_cnt (blk p b) = 0 \<and> \<not> is_null (blk p b)) bs))"

definition base_num_blocks_to_allocate :: "st_manager \<Rightarrow> block_pool \<Rightarrow> string \<Rightarrow> int \<Rightarrow> bref list \<Rightarrow> int \<Rightarrow> int result" where
  "base_num_blocks_to_allocate m p rid tokens new_computed total_computed =
     (let num_required = cdiv tokens (mgr_block_size m);
          num_req = int (length (req_blocks m rid)) in
      if dget (num_cached_block m) rid \<noteq> None
      then bindE (assertE (new_computed = [])) (\<lambda>_. Inr (max (num_required - num_req) 0))
      else
        let num_local = int (length new_computed) + num_req;
            num_skipped = get_num_skipped_tokens m total_computed div mgr_block_size m;
            num_new = max (num_required - max num_skipped num_local) 0;
            num_skipped_new = max 0 (num_skipped - num_req)
        in Inr (num_new + get_num_evictable_blocks p (drop (nat num_skipped_new) new_computed)))"

definition align_num_blocks_to_allocate ::
    "mamba_fields \<Rightarrow> st_manager \<Rightarrow> block_pool \<Rightarrow> string \<Rightarrow> bref list \<Rightarrow> int \<Rightarrow> int \<times> st_manager" where
  "align_num_blocks_to_allocate f m p rid new_computed tokens_main =
     (let num_required = cdiv tokens_main (mgr_block_size m) + num_speculative_blocks f;
          m1 = ensure_req rid m;
          num_new = num_required - int (length new_computed) - int (length (req_blocks m1 rid));
          num_new1 = (if 0 < num_new
                      then if rid \<in> allocated_block_reqs m then 1 else 1 + num_speculative_blocks f
                      else num_new)
      in (num_new1 + get_num_evictable_blocks p new_computed, m1))"

definition mamba_num_blocks_to_allocate ::
    "mamba_fields \<Rightarrow> st_manager \<Rightarrow> block_pool \<Rightarrow> string \<Rightarrow> int \<Rightarrow> bref list \<Rightarrow> int \<Rightarrow> int \<Rightarrow> (int \<times> st_manager) result" where
  "mamba_num_blocks_to_allocate f m p rid tokens new_computed total_computed tokens_main =
     (if new_computed \<noteq> [] \<and> (case block_hash (blk p (last new_computed)) of
                                 None \<Rightarrow> False | Some h \<Rightarrow> h \<in> cached_blocks_this_step m)
      then Inr (num_gpu_blocks p + 1, m)
      else if mamba_cache_mode f \<noteq> ''align''
      then bindE (base_num_blocks_to_allocate m p rid
             (if 0 < num_speculative_blocks f then tokens + mamba_block_size f * num_speculative_blocks f else tokens)
             new_computed total_computed) (\<lambda>n. Inr (n, m))
      else Inr (align_num_blocks_to_allocate f m p rid new_computed tokens_main))"

definition get_num_blocks_to_allocate ::
    "st_manager \<Rightarrow> block_pool \<Rightarrow> string \<Rightarrow> int \<Rightarrow> bref list \<Rightarrow> int \<Rightarrow> int \<Rightarrow> (int \<times> st_manager) result" where
  "get_num_blocks_to_allocate m p rid tokens new_computed total_computed tokens_main =
     (case mgr_spec m of
        MambaSpec f \<Rightarrow> mamba_num_blocks_to_allocate f m p rid tokens new_computed total_computed tokens_main
      | _ \<Rightarrow> bindE (base_num_blocks_to_allocate m p rid tokens new_computed total_computed) (\<lambda>n. Inr (n, m)))"

section \<open>Allocation\<close>

definition append_blocks :: "string \<Rightarrow> bref list \<Rightarrow> block_pool \<Rightarrow> st_manager \<Rightarrow> st_manager" where
  "append_blocks rid bs p m =
     (let m1 = set_blocks rid (req_blocks m rid @ bs) m in
      case mgr_spec m of
        FullAttentionSpec a f \<Rightarrow> m1\<lparr>new_block_ids := new_block_ids m @ map (bid_of p) bs\<rparr>
      | _ \<Rightarrow> m1)"

definition base_allocate_new_computed ::
    "st_manager \<Rightarrow> block_pool \<Rightarrow> string \<Rightarrow> bref list \<Rightarrow> int \<Rightarrow> int \<Rightarrow> (st_manager \<times> block_pool) result" where
  "base_allocate_new_computed m p rid new_computed num_local num_external =
     (if dget (num_cached_block m) rid \<noteq> None
      then bindE (assertE (new_computed = [])) (\<lambda>_. Inr (m, p))
      else bindE (assertE (req_blocks m rid = [])) (\<lambda>_.
        let total = num_local + num_external;
            num_skipped_tokens = get_num_skipped_tokens m total;
            num_skipped = num_skipped_tokens div mgr_block_size m;
            computed = (if 0 < num_skipped then drop (nat num_skipped) new_computed else new_computed);
            external = (if 0 < num_skipped then min (total - num_skipped_tokens) num_external else num_external)
        in bindE (if mgr_caching m then touch computed p else bindE (assertE (computed = [])) (\<lambda>_. Inr p)) (\<lambda>p1.
        let blocks = replicate (nat num_skipped) (null_block p) @ computed;
            m1 = (set_blocks rid blocks m)\<lparr>num_cached_block := dset rid (int (length blocks)) (num_cached_block m)\<rparr>
        in if 0 < external
           then bindE (get_new_blocks p1 (cdiv total (mgr_block_size m) - int (length blocks))) (\<lambda>(bs, p2).
                  Inr (append_blocks rid bs p2 m1, p2))
           else Inr (m1, p1))))"

definition allocate_new_computed_blocks ::
    "st_manager \<Rightarrow> block_pool \<Rightarrow> string \<Rightarrow> bref list \<Rightarrow> int \<Rightarrow> int \<Rightarrow> (st_manager \<times> block_pool) result" where
  "allocate_new_computed_blocks m p rid new_computed num_local num_external =
     (case mgr_spec m of
        CrossAttentionSpec a \<Rightarrow> bindE (assertE (new_computed = [])) (\<lambda>_. Inr (m, p))
      | _ \<Rightarrow> base_allocate_new_computed m p rid new_computed num_local num_external)"

definition base_allocate_new_blocks ::
    "st_manager \<Rightarrow> block_pool \<Rightarrow> string \<Rightarrow> int \<Rightarrow> (bref list \<times> st_manager \<times> block_pool) result" where
  "base_allocate_new_blocks m p rid tokens =
     (let m1 = ensure_req rid m;
          num_new = cdiv tokens (mgr_block_size m) - int (length (req_blocks m1 rid)) in
      if num_new \<le> 0 then Inr ([], m1, p)
      else bindE (get_new_blocks p num_new) (\<lambda>(bs, p1). Inr (bs, append_blocks rid bs p1 m1, p1)))"

text \<open>
  In align mode a request keeps its running state in the last blocks: the speculative blocks of the
  previous step move to the end, their old places and the skipped ones hold the null block.
\<close>

definition py_set :: "'a list \<Rightarrow> int \<Rightarrow> 'a \<Rightarrow> 'a list result" where
  "py_set xs i v =
     (if i < - int (length xs) \<or> int (length xs) \<le> i then Inl IndexError
      else Inr (xs[nat (if i < 0 then i + int (length xs) else i) := v]))"

fun reuse_blocks :: "bref \<Rightarrow> int \<Rightarrow> int list \<Rightarrow> bref list \<Rightarrow> bref list result" where
  "reuse_blocks null num_skipped [] bs = Inr bs"
| "reuse_blocks null num_skipped (i # is) bs =
     (if i < num_skipped
      then bindE (py_nth bs i) (\<lambda>b. bindE (py_set (bs @ [b]) i null) (reuse_blocks null num_skipped is))
      else Inr bs)"

definition align_state_idx :: "mamba_fields \<Rightarrow> bool \<Rightarrow> int \<Rightarrow> string \<Rightarrow> (string, int) dict \<Rightarrow> (string, int) dict" where
  "align_state_idx f allocated prev rid d =
     (if allocated then dset rid (prev - 1 - num_speculative_blocks f) d
      else if 0 < prev then dset rid (prev - 1) d else d)"

definition align_allocate_new_blocks ::
    "mamba_fields \<Rightarrow> st_manager \<Rightarrow> block_pool \<Rightarrow> string \<Rightarrow> int \<Rightarrow> (bref list \<times> st_manager \<times> block_pool) result" where
  "align_allocate_new_blocks f m0 p rid tokens_main =
     (let m = ensure_req rid m0;
          bs = req_blocks m rid;
          prev = int (length bs);
          spec = num_speculative_blocks f;
          num_required = cdiv tokens_main (mgr_block_size m) + spec in
      if num_required = prev then Inr ([], m, p)
      else bindE (assertE (prev < num_required)) (\<lambda>_.
        let allocated = (rid \<in> allocated_block_reqs m);
            num_skipped = num_required - spec - 1;
            padded = bs @ replicate (nat (num_skipped - prev)) (null_block p)
        in bindE (if allocated then reuse_blocks (null_block p) num_skipped [prev - spec..prev - 1] padded else Inr padded) (\<lambda>bs1.
        let num_new = num_required - int (length bs1)
        in bindE (assertE (num_new \<le> (if allocated then 1 else spec + 1))) (\<lambda>_.
           bindE (get_new_blocks p num_new) (\<lambda>(new, p1).
             Inr (drop (length bs) (bs1 @ new),
                  (set_blocks rid (bs1 @ new) m)
                    \<lparr>last_state_block_idx := align_state_idx f allocated prev rid (last_state_block_idx m),
                     allocated_block_reqs := insert rid (allocated_block_reqs m)\<rparr>, p1))))))"

definition allocate_new_blocks ::
    "st_manager \<Rightarrow> block_pool \<Rightarrow> string \<Rightarrow> int \<Rightarrow> int \<Rightarrow> (bref list \<times> st_manager \<times> block_pool) result" where
  "allocate_new_blocks m p rid tokens tokens_main =
     (case mgr_spec m of
        MambaSpec f \<Rightarrow>
          if mamba_cache_mode f \<noteq> ''align''
          then base_allocate_new_blocks m p rid
                 (if 0 < num_speculative_blocks f then tokens + mgr_block_size m * num_speculative_blocks f else tokens)
          else align_allocate_new_blocks f m p rid tokens_main
      | _ \<Rightarrow> base_allocate_new_blocks m p rid tokens)"

definition take_new_block_ids :: "st_manager \<Rightarrow> int list \<times> st_manager" where
  "take_new_block_ids m = (new_block_ids m, m\<lparr>new_block_ids := []\<rparr>)"

section \<open>Caching\<close>

definition cached_count :: "st_manager \<Rightarrow> string \<Rightarrow> int" where
  "cached_count m rid = (case dget (num_cached_block m) rid of None \<Rightarrow> 0 | Some n \<Rightarrow> n)"

definition base_cache_blocks ::
    "(bytes \<Rightarrow> bytes) \<Rightarrow> st_manager \<Rightarrow> block_pool \<Rightarrow> request \<Rightarrow> int \<Rightarrow> (st_manager \<times> block_pool \<times> request) result" where
  "base_cache_blocks sha256 m p r tokens =
     (let rid = request_id r; num_full = tokens div mgr_block_size m in
      if num_full \<le> cached_count m rid then Inr (m, p, r)
      else let m1 = ensure_req rid m in
        bindE (cache_full_blocks sha256 r (req_blocks m1 rid) (cached_count m rid) num_full (mgr_block_size m)
                 (kv_cache_group_id m) p) (\<lambda>(p1, r1).
        Inr (m1\<lparr>num_cached_block := dset rid num_full (num_cached_block m1)\<rparr>, p1, r1)))"

definition note_cached :: "block_pool \<Rightarrow> bref \<Rightarrow> bytes set \<Rightarrow> bytes set result" where
  "note_cached p b hs =
     (if is_null (blk p b) then Inr hs
      else case block_hash (blk p b) of None \<Rightarrow> Inl AssertionError | Some h \<Rightarrow> Inr (insert h hs))"

definition mamba_cache_blocks ::
    "(bytes \<Rightarrow> bytes) \<Rightarrow> st_manager \<Rightarrow> block_pool \<Rightarrow> request \<Rightarrow> int \<Rightarrow> (st_manager \<times> block_pool \<times> request) result" where
  "mamba_cache_blocks sha256 m p r tokens =
     bindE (base_cache_blocks sha256 m p r tokens) (\<lambda>(m1, p1, r1).
       let before = cached_count m (request_id r); after = cached_count m1 (request_id r) in
       if before < after
       then let m2 = ensure_req (request_id r) m1 in
         bindE (foldE (note_cached p1) (py_slice (req_blocks m2 (request_id r)) before after) (cached_blocks_this_step m2)) (\<lambda>hs.
           Inr (m2\<lparr>cached_blocks_this_step := hs\<rparr>, p1, r1))
       else Inr (m1, p1, r1))"

definition mgr_cache_blocks ::
    "(bytes \<Rightarrow> bytes) \<Rightarrow> st_manager \<Rightarrow> block_pool \<Rightarrow> request \<Rightarrow> int \<Rightarrow> (st_manager \<times> block_pool \<times> request) result" where
  "mgr_cache_blocks sha256 m p r tokens =
     (case mgr_spec m of
        CrossAttentionSpec a \<Rightarrow> Inl ValueError
      | MambaSpec f \<Rightarrow> mamba_cache_blocks sha256 m p r tokens
      | _ \<Rightarrow> base_cache_blocks sha256 m p r tokens)"

definition mgr_new_step_starts :: "st_manager \<Rightarrow> st_manager" where
  "mgr_new_step_starts m =
     (case mgr_spec m of MambaSpec f \<Rightarrow> m\<lparr>cached_blocks_this_step := {}\<rparr> | _ \<Rightarrow> m)"

section \<open>Freeing\<close>

definition base_free :: "st_manager \<Rightarrow> block_pool \<Rightarrow> string \<Rightarrow> (st_manager \<times> block_pool) result" where
  "base_free m p rid =
     bindE (free_blocks (rev (req_blocks m rid)) p) (\<lambda>p1.
       Inr (m\<lparr>req_to_blocks := ddel rid (req_to_blocks m), num_cached_block := ddel rid (num_cached_block m)\<rparr>, p1))"

definition mgr_free :: "st_manager \<Rightarrow> block_pool \<Rightarrow> string \<Rightarrow> (st_manager \<times> block_pool) result" where
  "mgr_free m p rid =
     (case mgr_spec m of
        MambaSpec f \<Rightarrow>
          base_free (if mamba_cache_mode f = ''align''
                     then m\<lparr>allocated_block_reqs := allocated_block_reqs m - {rid},
                            last_state_block_idx := ddel rid (last_state_block_idx m)\<rparr>
                     else m) p rid
      | _ \<Rightarrow> base_free m p rid)"

text \<open>The loop from the last skipped block down to the first, which stops at a null block.\<close>

fun strip_loop :: "bref \<Rightarrow> nat \<Rightarrow> bref list \<Rightarrow> bref list \<times> bref list" where
  "strip_loop null 0 bs = ([], bs)"
| "strip_loop null (Suc i) bs =
     (if bs ! i = null then ([], bs)
      else let (removed, bs') = strip_loop null i (bs[i := null]) in (bs ! i # removed, bs'))"

definition base_remove_skipped :: "st_manager \<Rightarrow> block_pool \<Rightarrow> string \<Rightarrow> int \<Rightarrow> (st_manager \<times> block_pool) result" where
  "base_remove_skipped m p rid total_computed =
     (let num_skipped_tokens = get_num_skipped_tokens m total_computed in
      if num_skipped_tokens \<le> 0 then Inr (m, p)
      else let m1 = ensure_req rid m;
               bs = req_blocks m1 rid;
               n = min (num_skipped_tokens div mgr_block_size m) (int (length bs));
               (removed, bs') = strip_loop (null_block p) (nat n) bs
           in bindE (free_blocks removed p) (\<lambda>p1. Inr (set_blocks rid bs' m1, p1)))"

definition release_last_state :: "st_manager \<Rightarrow> block_pool \<Rightarrow> string \<Rightarrow> int \<Rightarrow> (st_manager \<times> block_pool) result" where
  "release_last_state m0 p rid i =
     (let m = ensure_req rid m0; bs = req_blocks m rid in
      bindE (py_nth bs i) (\<lambda>b.
        if b = null_block p then Inr (m, p)
        else bindE (free_blocks [b] p) (\<lambda>p1.
             bindE (py_set bs i (null_block p)) (\<lambda>bs'. Inr (set_blocks rid bs' m, p1)))))"

definition mamba_remove_skipped ::
    "mamba_fields \<Rightarrow> st_manager \<Rightarrow> block_pool \<Rightarrow> string \<Rightarrow> int \<Rightarrow> (st_manager \<times> block_pool) result" where
  "mamba_remove_skipped f m p rid computed =
     (let computed1 = max 0 (computed - num_speculative_blocks f) in
      bindE (base_remove_skipped m p rid computed1) (\<lambda>(m1, p1).
      if mamba_cache_mode f \<noteq> ''align'' then Inr (m1, p1)
      else case dget (last_state_block_idx m1) rid of
        None \<Rightarrow> Inr (m1, p1)
      | Some i \<Rightarrow>
          if i < cdiv computed1 (mgr_block_size m1) - 1 then release_last_state m1 p1 rid i else Inr (m1, p1)))"

definition mgr_remove_skipped :: "st_manager \<Rightarrow> block_pool \<Rightarrow> string \<Rightarrow> int \<Rightarrow> (st_manager \<times> block_pool) result" where
  "mgr_remove_skipped m p rid computed =
     (case mgr_spec m of
        MambaSpec f \<Rightarrow> mamba_remove_skipped f m p rid computed
      | _ \<Rightarrow> base_remove_skipped m p rid computed)"

section \<open>Common prefix\<close>

definition mgr_common_prefix :: "st_manager \<Rightarrow> block_pool \<Rightarrow> string \<Rightarrow> int \<times> st_manager" where
  "mgr_common_prefix m p rid =
     (if is_full_attention (mgr_spec m)
      then let m1 = ensure_req rid m in
        (int (length (takeWhile (\<lambda>b. ref_cnt (blk p b) = int (length (req_to_blocks m1))) (req_blocks m1 rid))), m1)
      else (0, m))"

end
