(* ===== verification/Cache_Hits.thy ===== *)
theory Cache_Hits
  imports Single_Type
begin

text \<open>
  The prefix cache lookup of the managers, \<open>find_longest_cache_hit\<close> of every class of
  \<open>vllm/v1/core/single_type_kv_cache_manager.py\<close>. The result has one list of blocks per group; the
  lists grow and shrink together. \<open>alignment_tokens\<close> is positive.
\<close>

section \<open>Lookup of one block\<close>

text \<open>An empty list of blocks counts as a miss, as it is false in a condition.\<close>

definition lookup_block :: "block_pool \<Rightarrow> hash_list \<Rightarrow> int list \<Rightarrow> nat \<Rightarrow> bref list option result" where
  "lookup_block p hl gids i =
     bindE (hl_get hl (int i)) (\<lambda>h. bindE (get_cached_block p h gids) (\<lambda>r. Inr (if r = Some [] then None else r)))"

definition pop_all :: "bref list list \<Rightarrow> bref list list result" where
  "pop_all cols = (if [] \<in> set cols then Inl IndexError else Inr (map butlast cols))"

function align_down :: "int \<Rightarrow> int \<Rightarrow> bref list list \<Rightarrow> bref list list result" where
  "align_down bs al cols =
     (if bs = al then Inr cols
      else case cols of
        [] \<Rightarrow> Inl IndexError
      | c # _ \<Rightarrow> if int (length c) * bs mod al \<noteq> 0
                then if [] \<in> set cols then Inl IndexError else align_down bs al (map butlast cols)
                else Inr cols)"
  by pat_completeness auto
termination
  by (relation "measure (\<lambda>(bs, al, cols). length (hd cols))") auto

declare align_down.simps [simp del]

definition eagle_pop :: "bool \<Rightarrow> bref list list \<Rightarrow> bref list list result" where
  "eagle_pop eagle cols =
     (if \<not> eagle then Inr cols
      else case cols of [] \<Rightarrow> Inl IndexError | c # _ \<Rightarrow> if c = [] then Inr cols else pop_all cols)"

section \<open>Full attention\<close>

fun prefix_scan :: "block_pool \<Rightarrow> hash_list \<Rightarrow> int list \<Rightarrow> nat list \<Rightarrow> bref list list \<Rightarrow> bref list list result" where
  "prefix_scan p hl gids [] cols = Inr cols"
| "prefix_scan p hl gids (i # is) cols =
     bindE (lookup_block p hl gids i) (\<lambda>r.
       case r of
         None \<Rightarrow> Inr cols
       | Some bs \<Rightarrow> prefix_scan p hl gids is (map2 (\<lambda>c b. c @ [b]) cols bs))"

definition full_hit :: "block_pool \<Rightarrow> hash_list \<Rightarrow> int \<Rightarrow> int list \<Rightarrow> int \<Rightarrow> bool \<Rightarrow> int \<Rightarrow> bref list list result" where
  "full_hit p hl max_length gids bs eagle al =
     (if max_length div bs < 0 then Inl ValueError
      else bindE (prefix_scan p hl gids [0..<nat (min (max_length div bs) (hl_len hl))] (map (\<lambda>_. []) gids)) (\<lambda>cols.
           bindE (eagle_pop eagle cols) (align_down bs al)))"

section \<open>Sliding window\<close>

fun window_scan :: "block_pool \<Rightarrow> hash_list \<Rightarrow> int list \<Rightarrow> int \<Rightarrow> int \<Rightarrow> int \<Rightarrow> nat \<Rightarrow> bref list list \<Rightarrow> nat \<Rightarrow>
    (bref list list \<times> nat \<times> bool) result" where
  "window_scan p hl gids bs al need 0 cols k = Inr (cols, k, False)"
| "window_scan p hl gids bs al need (Suc i) cols k =
     bindE (lookup_block p hl gids i) (\<lambda>r.
       case r of
         None \<Rightarrow> window_scan p hl gids bs al need i cols 0
       | Some row \<Rightarrow>
           if k = 0 \<and> bs \<noteq> al \<and> (int i + 1) * bs mod al \<noteq> 0 then window_scan p hl gids bs al need i cols k
           else let cols' = map2 (\<lambda>c b. c[i := b]) cols row in
             if need \<le> int (k + 1) then Inr (map (take (i + (k + 1))) cols', k + 1, True)
             else window_scan p hl gids bs al need i cols' (k + 1))"

definition window_hit :: "block_pool \<Rightarrow> hash_list \<Rightarrow> int \<Rightarrow> int list \<Rightarrow> int \<Rightarrow> int \<Rightarrow> bool \<Rightarrow> int \<Rightarrow> bref list list result" where
  "window_hit p hl max_length gids bs window eagle al =
     (let need = cdiv (window - 1) bs + (if eagle then 1 else 0);
          n = nat (max_length div bs) in
      bindE (window_scan p hl gids bs al need n (map (\<lambda>_. replicate n (null_block p)) gids) 0) (\<lambda>(cols, k, found).
      bindE (if found then Inr cols else align_down bs al (map (take k) cols)) (\<lambda>cols.
      if \<not> eagle then Inr cols
      else case cols of
        [] \<Rightarrow> Inl IndexError
      | c # _ \<Rightarrow> if c = [] then Inr cols else bindE (pop_all cols) (align_down bs al))))"

section \<open>Chunked local attention\<close>

definition chunk_start :: "int \<Rightarrow> int \<Rightarrow> int \<Rightarrow> int" where
  "chunk_start max_length chunk bs = (if 0 < max_length then max_length div chunk * chunk else 0) div bs"

definition chunk_hit :: "block_pool \<Rightarrow> hash_list \<Rightarrow> int \<Rightarrow> int list \<Rightarrow> int \<Rightarrow> int \<Rightarrow> bool \<Rightarrow> int \<Rightarrow> bref list list result" where
  "chunk_hit p hl max_length gids bs chunk eagle al =
     bindE (assertE (\<not> eagle)) (\<lambda>_. bindE (assertE (bs = al)) (\<lambda>_.
       let start = nat (chunk_start max_length chunk bs) in
       prefix_scan p hl gids [start..<nat (max_length div bs)] (map (\<lambda>_. replicate start (null_block p)) gids)))"

section \<open>Mamba\<close>

fun state_scan :: "block_pool \<Rightarrow> hash_list \<Rightarrow> int list \<Rightarrow> int \<Rightarrow> int \<Rightarrow> nat \<Rightarrow> bref list list \<Rightarrow> bref list list result" where
  "state_scan p hl gids bs al 0 cols = Inr cols"
| "state_scan p hl gids bs al (Suc i) cols =
     bindE (lookup_block p hl gids i) (\<lambda>r.
       case r of
         None \<Rightarrow> state_scan p hl gids bs al i cols
       | Some row \<Rightarrow>
           if bs \<noteq> al \<and> (int i + 1) * bs mod al \<noteq> 0 then state_scan p hl gids bs al i cols
           else Inr (map2 (\<lambda>c b. c @ replicate i (null_block p) @ [b]) cols row))"

definition state_hit :: "block_pool \<Rightarrow> hash_list \<Rightarrow> int \<Rightarrow> int list \<Rightarrow> int \<Rightarrow> int \<Rightarrow> bref list list result" where
  "state_hit p hl max_length gids bs al = state_scan p hl gids bs al (nat (max_length div bs)) (map (\<lambda>_. []) gids)"

section \<open>All managers\<close>

definition hit_block_size :: "kv_cache_spec \<Rightarrow> int \<Rightarrow> int \<Rightarrow> int" where
  "hit_block_size spec dcp pcp = (if 1 < dcp * pcp then spec_block_size spec * (dcp * pcp) else spec_block_size spec)"

definition find_longest_cache_hit ::
    "block_pool \<Rightarrow> hash_list \<Rightarrow> int \<Rightarrow> int list \<Rightarrow> kv_cache_spec \<Rightarrow> bool \<Rightarrow> int \<Rightarrow> int \<Rightarrow> int \<Rightarrow> bref list list result" where
  "find_longest_cache_hit p hl max_length gids spec eagle al dcp pcp =
     (case spec of
        SlidingWindowSpec a w \<Rightarrow>
          bindE (assertE (dcp = 1 \<and> pcp = 1)) (\<lambda>_. window_hit p hl max_length gids (attn_block_size a) w eagle al)
      | ChunkedLocalAttentionSpec a c \<Rightarrow>
          bindE (assertE (dcp = 1 \<and> pcp = 1)) (\<lambda>_. chunk_hit p hl max_length gids (attn_block_size a) c eagle al)
      | MambaSpec f \<Rightarrow>
          bindE (assertE (dcp = 1 \<and> pcp = 1)) (\<lambda>_. state_hit p hl max_length gids (mamba_block_size f) al)
      | CrossAttentionSpec a \<Rightarrow> Inl NotImplementedError
      | EncoderOnlyAttentionSpec a \<Rightarrow> Inl KeyError
      | UniformTypeKVCacheSpecs b specs \<Rightarrow> Inl KeyError
      | _ \<Rightarrow> full_hit p hl max_length gids (hit_block_size spec dcp pcp) eagle al)"

section \<open>What a hit is\<close>

definition is_hit :: "block_pool \<Rightarrow> hash_list \<Rightarrow> int \<Rightarrow> nat \<Rightarrow> bref \<Rightarrow> bool" where
  "is_hit p hl g i b \<longleftrightarrow>
     (\<exists>h k. hl_get hl (int i) = Inr h \<and> b = Blk k \<and> in_pool p k \<and> hash_at p k = Some (group_key h g))"

definition groups_valid :: "int list \<Rightarrow> bool" where
  "groups_valid gids \<longleftrightarrow> gids \<noteq> [] \<and> (\<forall>g \<in> set gids. 0 \<le> g \<and> g < 2 ^ 32)"

text \<open>
  A column of \<open>n\<close> blocks for group \<open>g\<close>: every block is the null block or a hit, and from position
  \<open>a\<close> on every block is a hit.
\<close>

definition hit_column :: "block_pool \<Rightarrow> hash_list \<Rightarrow> nat \<Rightarrow> nat \<Rightarrow> bref list \<Rightarrow> int \<Rightarrow> bool" where
  "hit_column p hl a n c g \<longleftrightarrow>
     length c = n \<and> (\<forall>i < n. c ! i = null_block p \<or> is_hit p hl g i (c ! i)) \<and> (\<forall>i < n. a \<le> i \<longrightarrow> is_hit p hl g i (c ! i))"

abbreviation hit_columns :: "block_pool \<Rightarrow> hash_list \<Rightarrow> int list \<Rightarrow> nat \<Rightarrow> nat \<Rightarrow> bref list list \<Rightarrow> bool" where
  "hit_columns p hl gids a n cols \<equiv> list_all2 (hit_column p hl a n) cols gids"

lemma lookup_block_hit:
  assumes "pool_run p held" "groups_valid gids" "lookup_block p hl gids i = Inr (Some row)"
  shows "list_all2 (\<lambda>b g. is_hit p hl g i b) row gids"
proof -
  obtain q where q: "run_inv p held q" using pool_run_inv[OF assms(1)] by blast
  obtain h where h: "hl_get hl (int i) = Inr h" "get_cached_block p h gids = Inr (Some row)"
    using assms(3) by (auto simp: lookup_block_def bindE_Inr_iff split: if_split_asm)
  have "list_all2 (\<lambda>b g. \<exists>i. b = Blk i \<and> in_pool p i \<and> hash_at p i = Some (group_key h g)) row gids"
    using get_cached_block_spec[OF run_invD(1)[OF q], of gids h] assms(2) h(2) by (simp add: groups_valid_def)
  then show ?thesis using h(1) by (elim list_all2_mono) (auto simp: is_hit_def)
qed

lemma hit_columns_snoc:
  assumes "hit_columns p hl gids a n cols" "list_all2 (\<lambda>b g. is_hit p hl g n b) row gids"
  shows "hit_columns p hl gids a (Suc n) (map2 (\<lambda>c b. c @ [b]) cols row)"
  using assms by (auto simp: list_all2_conv_all_nth hit_column_def nth_append less_Suc_eq)

lemma hit_columns_take:
  assumes "hit_columns p hl gids a n cols" "m \<le> n"
  shows "hit_columns p hl gids a m (map (take m) cols)"
  using assms by (auto simp: list_all2_conv_all_nth hit_column_def min_def)

lemma hit_columns_update:
  assumes "hit_columns p hl gids n n cols" "list_all2 (\<lambda>b g. is_hit p hl g i b) row gids"
  shows "hit_columns p hl gids n n (map2 (\<lambda>c b. c[i := b]) cols row)"
  using assms
  by (auto simp: list_all2_conv_all_nth hit_column_def) (metis nth_list_update_eq nth_list_update_neq)

lemma hit_columns_butlast:
  assumes "hit_columns p hl gids a (Suc n) cols"
  shows "hit_columns p hl gids a n (map butlast cols)"
  using assms by (auto simp: list_all2_conv_all_nth hit_column_def nth_butlast)

lemma hit_columns_hd: "hit_columns p hl gids a n (c # cols) \<Longrightarrow> length c = n"
  by (cases gids) (auto simp: hit_column_def)

lemma pop_all_columns:
  assumes "hit_columns p hl gids a (Suc n) cols"
  shows "pop_all cols = Inr (map butlast cols)"
  using assms by (auto simp: pop_all_def list_all2_conv_all_nth hit_column_def in_set_conv_nth)

lemma align_down_columns:
  assumes "hit_columns p hl gids a n cols" "groups_valid gids"
  shows "\<exists>m \<le> n. align_down bs al cols = Inr (map (take m) cols) \<and> hit_columns p hl gids a m (map (take m) cols) \<and>
    (bs = al \<longrightarrow> m = n) \<and> al dvd int m * bs"
  using assms
proof (induction n arbitrary: cols)
  case 0
  have e: "c = []" if "c \<in> set cols" for c using that 0(1) by (auto simp: list_all2_conv_all_nth hit_column_def in_set_conv_nth)
  have "cols \<noteq> []" using 0 by (auto simp: groups_valid_def)
  moreover have "map (take 0) cols = cols" using e by (induction cols) auto
  ultimately show ?case using 0(1) e by (subst align_down.simps) (cases cols, auto)
next
  case (Suc n)
  obtain c cs where cols: "cols = c # cs" using Suc.prems by (cases cols) (auto simp: groups_valid_def)
  have len: "length d = Suc n" if "d \<in> set cols" for d
    using that Suc.prems(1) by (auto simp: list_all2_conv_all_nth hit_column_def in_set_conv_nth)
  have all: "map (take (Suc n)) cols = cols" using len by (intro map_idI) auto
  show ?case
  proof (cases "bs = al \<or> int (Suc n) * bs mod al = 0")
    case True
    then have "align_down bs al cols = Inr cols" using len[of c] by (subst align_down.simps) (auto simp: cols)
    moreover have "al dvd int (Suc n) * bs" using True by (auto simp: dvd_eq_mod_eq_0)
    ultimately show ?thesis using Suc.prems(1) all by (intro exI[of _ "Suc n"]) simp
  next
    case False
    have "[] \<notin> set cols" using len by fastforce
    then have step: "align_down bs al cols = align_down bs al (map butlast cols)"
      using False len[of c] by (subst align_down.simps) (simp add: cols)
    obtain m where m: "m \<le> n" "align_down bs al (map butlast cols) = Inr (map (take m) (map butlast cols))"
      "hit_columns p hl gids a m (map (take m) (map butlast cols))" "al dvd int m * bs"
      using Suc.IH[OF hit_columns_butlast[OF Suc.prems(1)] Suc.prems(2)] by blast
    have eq: "map (take m) (map butlast cols) = map (take m) cols"
      using m(1) len by (auto simp: butlast_conv_take min_def)
    show ?thesis using step m(1,4) m(2,3)[unfolded eq] False by (intro exI[of _ m]) simp
  qed
qed

section \<open>The scans\<close>

lemma prefix_scan_columns:
  assumes pool: "pool_run p held" and g: "groups_valid gids"
    and cols: "hit_columns p hl gids a n cols" and res: "prefix_scan p hl gids [n..<m] cols = Inr cols'" and m: "n \<le> m"
  shows "\<exists>k \<ge> n. k \<le> m \<and> hit_columns p hl gids a k cols' \<and> (k < m \<longrightarrow> lookup_block p hl gids k = Inr None)"
  using cols res m
proof (induction "m - n" arbitrary: n cols)
  case 0
  then show ?case by (intro exI[of _ n]) auto
next
  case (Suc d)
  then have upt: "[n..<m] = n # [Suc n..<m]" by (simp add: upt_conv_Cons)
  from Suc.prems(2) obtain r where r: "lookup_block p hl gids n = Inr r"
    and rest: "(case r of None \<Rightarrow> Inr cols | Some bs \<Rightarrow> prefix_scan p hl gids [Suc n..<m] (map2 (\<lambda>c b. c @ [b]) cols bs)) = Inr cols'"
    unfolding upt by (auto simp: bindE_Inr_iff)
  show ?case
  proof (cases r)
    case None
    then show ?thesis using rest r Suc.prems(1,3) by (intro exI[of _ n]) simp
  next
    case (Some row)
    have "hit_columns p hl gids a (Suc n) (map2 (\<lambda>c b. c @ [b]) cols row)"
      using hit_columns_snoc[OF Suc.prems(1)] lookup_block_hit[OF pool g r[unfolded Some]] by blast
    from Suc.hyps(1)[OF _ this] obtain k where "Suc n \<le> k" "k \<le> m" "hit_columns p hl gids a k cols'"
      "k < m \<longrightarrow> lookup_block p hl gids k = Inr None"
      using rest Some Suc.hyps(2) by force
    then show ?thesis by (intro exI[of _ k]) simp
  qed
qed

text \<open>
  The window scan: a match ends in a run of hits at an aligned position that is as long as needed;
  without a match the hits it counts are the first blocks.
\<close>

definition run_at :: "block_pool \<Rightarrow> hash_list \<Rightarrow> int list \<Rightarrow> nat \<Rightarrow> nat \<Rightarrow> bref list list \<Rightarrow> bool" where
  "run_at p hl gids i k cols \<longleftrightarrow>
     list_all2 (\<lambda>c g. \<forall>j. i \<le> j \<and> j < i + k \<longrightarrow> is_hit p hl g j (c ! j)) cols gids"

lemma run_at_0: "hit_columns p hl gids a n cols \<Longrightarrow> run_at p hl gids i 0 cols"
  by (auto simp: run_at_def list_all2_conv_all_nth)

lemma run_at_update:
  assumes "run_at p hl gids (Suc i) k cols" "list_all2 (\<lambda>b g. is_hit p hl g i b) row gids"
    "\<forall>c \<in> set cols. i < length c"
  shows "run_at p hl gids i (Suc k) (map2 (\<lambda>c b. c[i := b]) cols row)"
proof -
  have "is_hit p hl (gids ! j) x ((cols ! j)[i := row ! j] ! x)"
    if j: "j < length gids" "i \<le> x" "x < i + Suc k" for j x
  proof (cases "x = i")
    case True
    have "i < length (cols ! j)" using assms(1,3) j(1) by (auto simp: run_at_def list_all2_conv_all_nth)
    then show ?thesis using True assms(2) j(1) by (simp add: list_all2_conv_all_nth)
  next
    case False
    then show ?thesis using assms(1) j by (simp add: run_at_def list_all2_conv_all_nth)
  qed
  then show ?thesis using assms(1,2) by (simp add: run_at_def list_all2_conv_all_nth)
qed

lemma run_at_take:
  assumes "hit_columns p hl gids n n cols" "run_at p hl gids i k cols" "i + k \<le> n"
  shows "hit_columns p hl gids i (i + k) (map (take (i + k)) cols)"
  using assms by (auto simp: list_all2_conv_all_nth hit_column_def run_at_def min_def)

lemma aligned_end: "\<not> (bs \<noteq> al \<and> (int i + 1) * bs mod al \<noteq> 0) \<Longrightarrow> al dvd int (Suc i) * bs"
  by (cases "bs = al") (simp_all add: dvd_eq_mod_eq_0 add.commute)

lemma window_scan_columns:
  assumes pool: "pool_run p held" and g: "groups_valid gids"
    and "hit_columns p hl gids n n cols" "run_at p hl gids i k cols" "i + k \<le> n" "k = 0 \<or> al dvd int (i + k) * bs"
    and "window_scan p hl gids bs al need i cols k = Inr (cols', k', found)"
  shows "if found then \<exists>j. j + k' \<le> n \<and> hit_columns p hl gids j (j + k') cols' \<and> 0 < k' \<and> need \<le> int k' \<and> al dvd int (j + k') * bs
         else hit_columns p hl gids 0 k' (map (take k') cols') \<and> k' \<le> n"
  using assms(3-)
proof (induction i arbitrary: cols k)
  case 0
  then show ?case using run_at_take[OF 0(1,2)] by simp
next
  case (Suc i)
  from Suc.prems(5) obtain r where r: "lookup_block p hl gids i = Inr r" by (auto simp: bindE_Inr_iff)
  show ?case
  proof (cases r)
    case None
    then have "window_scan p hl gids bs al need i cols 0 = Inr (cols', k', found)" using Suc.prems(5) r by simp
    from Suc.IH[OF Suc.prems(1) run_at_0[OF Suc.prems(1)] _ _ this] Suc.prems(3) show ?thesis by simp
  next
    case (Some row)
    note row = lookup_block_hit[OF pool g r[unfolded Some]]
    let ?skip = "k = 0 \<and> bs \<noteq> al \<and> (int i + 1) * bs mod al \<noteq> 0"
    let ?cols = "map2 (\<lambda>c b. c[i := b]) cols row"
    show ?thesis
    proof (cases ?skip)
      case True
      then have "window_scan p hl gids bs al need i cols 0 = Inr (cols', k', found)" using Suc.prems(5) r Some by simp
      from Suc.IH[OF Suc.prems(1) run_at_0[OF Suc.prems(1)] _ _ this] Suc.prems(3) show ?thesis by simp
    next
      case False
      have "\<forall>c \<in> set cols. i < length c"
        using Suc.prems(1,3) by (auto simp: list_all2_conv_all_nth hit_column_def in_set_conv_nth)
      note run = run_at_update[OF Suc.prems(2) row this] and upd = hit_columns_update[OF Suc.prems(1) row]
      have al: "al dvd int (i + Suc k) * bs"
      proof (cases "k = 0")
        case True
        then show ?thesis using False aligned_end[of bs al i] by simp
      next
        case False
        then show ?thesis using Suc.prems(4) by simp
      qed
      show ?thesis
      proof (cases "need \<le> int (k + 1)")
        case True
        then have res: "cols' = map (take (i + Suc k)) ?cols" "k' = Suc k" found
          using Suc.prems(5) r Some False by (auto split: if_split_asm)
        have "hit_columns p hl gids i (i + k') cols'" unfolding res using run_at_take[OF upd run] Suc.prems(3) by simp
        moreover have "i + k' \<le> n" "0 < k'" "need \<le> int k'" "al dvd int (i + k') * bs"
          using Suc.prems(3) True al by (simp_all add: res)
        ultimately show ?thesis using res(3) by (simp only: if_True) blast
      next
        case False
        then have "window_scan p hl gids bs al need i ?cols (Suc k) = Inr (cols', k', found)"
          using Suc.prems(5) r Some \<open>\<not> ?skip\<close> by (simp split: if_split_asm)
        from Suc.IH[OF upd run _ _ this] Suc.prems(3) al show ?thesis by simp
      qed
    qed
  qed
qed

lemma state_scan_columns:
  assumes pool: "pool_run p held" and g: "groups_valid gids"
    and "state_scan p hl gids bs al n (map (\<lambda>_. []) gids) = Inr cols"
  shows "\<exists>k \<le> n. hit_columns p hl gids (k - 1) k cols \<and> al dvd int k * bs"
  using assms(3)
proof (induction n)
  case 0
  have "hit_columns p hl gids 0 0 (map (\<lambda>_. []) gids)" by (auto simp: list_all2_conv_all_nth hit_column_def)
  then show ?case using 0 by simp
next
  case (Suc n)
  then obtain r where r: "lookup_block p hl gids n = Inr r" by (auto simp: bindE_Inr_iff)
  show ?case
  proof (cases "r = None \<or> bs \<noteq> al \<and> (int n + 1) * bs mod al \<noteq> 0")
    case True
    then have "state_scan p hl gids bs al n (map (\<lambda>_. []) gids) = Inr cols"
      using Suc.prems r by (auto split: option.splits)
    from Suc.IH[OF this] show ?thesis using le_SucI by blast
  next
    case False
    then obtain row where row: "r = Some row" by (cases r) simp_all
    have cols: "cols = map2 (\<lambda>c b. c @ replicate n (null_block p) @ [b]) (map (\<lambda>_. []) gids) row"
      using Suc.prems r row False by (auto split: if_split_asm)
    have hit: "list_all2 (\<lambda>b g. is_hit p hl g n b) row gids" by (rule lookup_block_hit[OF pool g r[unfolded row]])
    have "hit_columns p hl gids n (Suc n) cols" unfolding cols
      using hit by (auto simp: list_all2_conv_all_nth hit_column_def nth_append less_Suc_eq)
    moreover have "al dvd int (Suc n) * bs"
      using False by (intro aligned_end) blast
    ultimately show ?thesis by (intro exI[of _ "Suc n"]) simp
  qed
qed

section \<open>Soundness of a hit\<close>

text \<open>
  A hit of \<open>n\<close> blocks in every group is sound when it is not longer than asked for, ends at a multiple
  of the alignment, and every block that the attention over the next token can reach is a block of
  the pool that carries the hash of its position; the other blocks may be the null block.
\<close>

definition hit_sound :: "block_pool \<Rightarrow> hash_list \<Rightarrow> int list \<Rightarrow> kv_cache_spec \<Rightarrow> int \<Rightarrow> int \<Rightarrow> int \<Rightarrow> bref list list \<Rightarrow> bool" where
  "hit_sound p hl gids spec bs max_length al cols \<longleftrightarrow>
     (\<exists>n. hit_columns p hl gids (nat (skipped_tokens spec (int n * bs) div bs)) n cols \<and>
          int n * bs \<le> max_length \<and> al dvd int n * bs)"

lemma hit_columns_mono: "hit_columns p hl gids a n cols \<Longrightarrow> a \<le> b \<Longrightarrow> hit_columns p hl gids b n cols"
  by (elim list_all2_mono) (auto simp: hit_column_def)

lemma hit_length: "n \<le> nat (max_length div bs) \<Longrightarrow> 0 < bs \<Longrightarrow> 0 \<le> max_length \<Longrightarrow> int n * bs \<le> max_length"
  using zdiv_ge_iff[of bs "int n" max_length] pos_imp_zdiv_nonneg_iff[of bs max_length] by (simp add: le_nat_iff)

lemma eagle_pop_columns:
  assumes "hit_columns p hl gids a n cols" "groups_valid gids" "eagle_pop eagle cols = Inr cols'"
  shows "\<exists>m \<le> n. hit_columns p hl gids a m cols'"
proof (cases "eagle \<and> n \<noteq> 0")
  case False
  obtain c cs where cols: "cols = c # cs" using assms(1,2) by (cases cols) (auto simp: groups_valid_def)
  have "length c = n" using hit_columns_hd assms(1) unfolding cols by blast
  then have "cols' = cols" using False assms(3) unfolding cols by (auto simp: eagle_pop_def split: if_split_asm)
  then show ?thesis using assms(1) by blast
next
  case True
  then obtain k where n: "n = Suc k" by (cases n) auto
  obtain c cs where cols: "cols = c # cs" using assms(1,2) by (cases cols) (auto simp: groups_valid_def)
  have "length c = n" using hit_columns_hd assms(1) unfolding cols by blast
  then have "c \<noteq> []" using n by auto
  then have "cols' = map butlast cols"
    using assms(3) True pop_all_columns[OF assms(1)[unfolded n]] unfolding cols by (simp add: eagle_pop_def)
  then show ?thesis using hit_columns_butlast[OF assms(1)[unfolded n]] n by (intro exI[of _ k]) simp
qed

lemma full_hit_columns:
  assumes pool: "pool_run p held" and g: "groups_valid gids" and bs: "0 < bs" and len: "0 \<le> max_length"
    and res: "full_hit p hl max_length gids bs eagle al = Inr cols"
  shows "\<exists>n. hit_columns p hl gids 0 n cols \<and> int n * bs \<le> max_length \<and> al dvd int n * bs"
proof -
  let ?m = "nat (min (max_length div bs) (hl_len hl))"
  from res obtain c1 c2 where c1: "prefix_scan p hl gids [0..<?m] (map (\<lambda>_. []) gids) = Inr c1"
    and c2: "eagle_pop eagle c1 = Inr c2" and c3: "align_down bs al c2 = Inr cols"
    unfolding full_hit_def by (auto simp: bindE_Inr_iff split: if_split_asm)
  have "hit_columns p hl gids 0 0 (map (\<lambda>_. []) gids)" by (auto simp: list_all2_conv_all_nth hit_column_def)
  from prefix_scan_columns[OF pool g this c1] obtain k where k: "k \<le> ?m" "hit_columns p hl gids 0 k c1" by blast
  obtain m where m: "m \<le> k" "hit_columns p hl gids 0 m c2" using eagle_pop_columns[OF k(2) g c2] by blast
  obtain n where n: "n \<le> m" "hit_columns p hl gids 0 n cols" "al dvd int n * bs"
    using align_down_columns[OF m(2) g, of bs al] c3 by auto
  have "int n * bs \<le> max_length" using n(1) m(1) k(1) bs len by (intro hit_length) auto
  then show ?thesis using n by blast
qed

lemma state_hit_sound:
  assumes pool: "pool_run p held" and g: "groups_valid gids" and bs: "0 < bs" and len: "0 \<le> max_length"
    and res: "state_hit p hl max_length gids bs al = Inr cols"
  shows "hit_sound p hl gids (MambaSpec f) bs max_length al cols"
proof -
  from state_scan_columns[OF pool g res[unfolded state_hit_def]] obtain k where
    k: "k \<le> nat (max_length div bs)" "hit_columns p hl gids (k - 1) k cols" "al dvd int k * bs" by blast
  have "k - 1 \<le> nat ((int k * bs - 1) div bs)"
    using bs zdiv_ge_iff[OF bs, of "int k - 1" "int k * bs - 1"] by (cases k) (auto simp: algebra_simps)
  from hit_columns_mono[OF k(2) this] k(3) hit_length[OF k(1) bs len] show ?thesis
    unfolding hit_sound_def by (intro exI[of _ k]) simp
qed

lemma chunk_hit_sound:
  assumes pool: "pool_run p held" and g: "groups_valid gids" and bs: "0 < bs" and len: "0 \<le> max_length"
    and c: "0 < c" "bs dvd c" and res: "chunk_hit p hl max_length gids bs c eagle al = Inr cols"
  shows "hit_sound p hl gids (ChunkedLocalAttentionSpec a c) bs max_length al cols"
proof -
  let ?s = "max_length div c * c" and ?b = "nat (chunk_start max_length c bs)"
  have s: "chunk_start max_length c bs = ?s div bs" using len by (auto simp: chunk_start_def)
  have s0: "0 \<le> ?s" "?s \<le> max_length" 
    using c len zdiv_ge_iff[OF c(1), of "max_length div c" max_length] by (simp_all add: pos_imp_zdiv_nonneg_iff)
  have b: "int ?b * bs = ?s" using s c(2) s0(1) bs by (simp add: pos_imp_zdiv_nonneg_iff dvd_mult)
  have al: "al = bs" and scan: "prefix_scan p hl gids [?b..<nat (max_length div bs)] (map (\<lambda>_. replicate ?b (null_block p)) gids) = Inr cols"
    using res unfolding chunk_hit_def Let_def by (auto simp: bindE_Inr_iff)
  have start: "hit_columns p hl gids ?b ?b (map (\<lambda>_. replicate ?b (null_block p)) gids)"
    by (auto simp: list_all2_conv_all_nth hit_column_def)
  have "?b \<le> nat (max_length div bs)" using s s0(2) bs by (simp add: nat_mono zdiv_mono1)
  from prefix_scan_columns[OF pool g start scan this] obtain k where
    k: "?b \<le> k" "k \<le> nat (max_length div bs)" "hit_columns p hl gids ?b k cols" by blast
  have "?s \<le> int k * bs" unfolding b[symmetric] using k(1) bs by (intro mult_right_mono) linarith+
  then have "max_length div c \<le> int k * bs div c" using zdiv_ge_iff[OF c(1)] by simp
  then have "?s \<le> int k * bs div c * c" using c(1) by simp
  then have "?b \<le> nat (int k * bs div c * c div bs)" using s bs by (simp add: nat_mono zdiv_mono1)
  from hit_columns_mono[OF k(3) this] hit_length[OF k(2) bs len] show ?thesis
    unfolding hit_sound_def al by (intro exI[of _ k]) simp
qed

lemma window_reach:
  assumes bs: "0 < (bs::int)" and k: "cdiv (w - 1) bs \<le> int k"
  shows "j \<le> nat (max 0 (int (j + k) * bs - w + 1) div bs)"
proof -
  have "w - 1 \<le> int k * bs" using k cdiv_le_iff[OF bs] by simp
  then have "int j * bs \<le> max 0 (int (j + k) * bs - w + 1)" by (simp add: algebra_simps)
  then have "int j \<le> max 0 (int (j + k) * bs - w + 1) div bs" using zdiv_ge_iff[OF bs] by simp
  then show ?thesis by linarith
qed

lemma window_hit_sound:
  assumes pool: "pool_run p held" and g: "groups_valid gids" and bs: "0 < bs" and len: "0 \<le> max_length"
    and al: "eagle \<longrightarrow> bs = al" and res: "window_hit p hl max_length gids bs w eagle al = Inr cols"
  shows "hit_sound p hl gids (SlidingWindowSpec a w) bs max_length al cols"
proof -
  let ?n = "nat (max_length div bs)" and ?need = "cdiv (w - 1) bs + (if eagle then 1 else 0)"
  obtain c1 k found c2 where
    scan: "window_scan p hl gids bs al ?need ?n (map (\<lambda>_. replicate ?n (null_block p)) gids) 0 = Inr (c1, k, found)"
    and c2: "(if found then Inr c1 else align_down bs al (map (take k) c1)) = Inr c2"
    and fin: "(if \<not> eagle then Inr c2
      else case c2 of [] \<Rightarrow> Inl IndexError
      | c # _ \<Rightarrow> if c = [] then Inr c2 else bindE (pop_all c2) (align_down bs al)) = Inr cols"
    using res unfolding window_hit_def Let_def by (fastforce simp: bindE_Inr_iff)
  have start: "hit_columns p hl gids ?n ?n (map (\<lambda>_. replicate ?n (null_block p)) gids)"
    by (auto simp: list_all2_conv_all_nth hit_column_def)
  note w = window_scan_columns[OF pool g start run_at_0[OF start] _ _ scan, simplified]
  obtain j n where c2': "hit_columns p hl gids j n c2" "n \<le> ?n" "al dvd int n * bs"
    and reach: "j = 0 \<or> (\<exists>k. n = j + k \<and> 0 < k \<and> ?need \<le> int k)"
  proof (cases found)
    case True
    then show thesis using w c2 that by auto
  next
    case False
    then have "hit_columns p hl gids 0 k (map (take k) c1)" "k \<le> ?n" using w by simp_all
    from align_down_columns[OF this(1) g, of bs al] obtain m where m: "m \<le> k"
      "align_down bs al (map (take k) c1) = Inr (map (take m) (map (take k) c1))"
      "hit_columns p hl gids 0 m (map (take m) (map (take k) c1))" "al dvd int m * bs" by blast
    have "c2 = map (take m) (map (take k) c1)" using c2 False m(2) by simp
    then show thesis using that[of 0 m] m \<open>k \<le> ?n\<close> by simp
  qed
  obtain c cs where cons: "c2 = c # cs" using c2'(1) g by (cases c2) (auto simp: groups_valid_def)
  have lc: "length c = n" using hit_columns_hd c2'(1) unfolding cons by blast
  show ?thesis
  proof (cases "eagle \<and> n \<noteq> 0")
    case False
    then have "cols = c2" using fin lc unfolding cons by (auto split: if_split_asm)
    moreover have "j \<le> nat (max 0 (int n * bs - w + 1) div bs)"
      using reach window_reach[OF bs, of w] False by (auto split: if_split_asm)
    ultimately show ?thesis unfolding hit_sound_def
      using hit_columns_mono[OF c2'(1)] c2'(3) hit_length[OF c2'(2) bs len] by (intro exI[of _ n]) simp
  next
    case True
    then obtain m where n: "n = Suc m" by (cases n) auto
    have "c \<noteq> []" using lc n by auto
    moreover have "bs = al" using True al by simp
    ultimately have "cols = map butlast c2"
      using fin True pop_all_columns[OF c2'(1)[unfolded n]] unfolding cons by (simp add: align_down.simps)
    moreover have "j \<le> nat (max 0 (int m * bs - w + 1) div bs)"
    proof (cases "j = 0")
      case False
      then obtain k where k: "n = j + k" "0 < k" "?need \<le> int k" using reach by blast
      then have "m = j + (k - 1)" "cdiv (w - 1) bs \<le> int (k - 1)" using n True by auto
      then show ?thesis using window_reach[OF bs, of w "k - 1" j] by simp
    qed simp
    moreover have "int m * bs \<le> max_length" using c2'(2) n by (intro hit_length[OF _ bs len]) simp
    ultimately show ?thesis unfolding hit_sound_def \<open>bs = al\<close>
      using hit_columns_mono[OF hit_columns_butlast[OF c2'(1)[unfolded n]]] \<open>bs = al\<close> by (intro exI[of _ m]) simp
  qed
qed

text \<open>The configurations for which a lookup is right: see the last two properties below for the others.\<close>

definition lookup_supported :: "bool \<Rightarrow> int \<Rightarrow> kv_cache_spec \<Rightarrow> bool" where
  "lookup_supported eagle al spec \<longleftrightarrow>
     (case spec of SlidingWindowSpec a w \<Rightarrow> eagle \<longrightarrow> attn_block_size a = al
      | ChunkedLocalAttentionSpec a c \<Rightarrow> 0 < c \<and> attn_block_size a dvd c | _ \<Rightarrow> True)"

lemma find_longest_cache_hit_sound:
  assumes "pool_run p held" "groups_valid gids" "0 < hit_block_size spec dcp pcp" "0 \<le> max_length"
    and "lookup_supported eagle al spec"
    and "find_longest_cache_hit p hl max_length gids spec eagle al dcp pcp = Inr cols"
  shows "hit_sound p hl gids spec (hit_block_size spec dcp pcp) max_length al cols"
proof -
  have full: "hit_sound p hl gids spec (hit_block_size spec dcp pcp) max_length al cols"
    if "full_hit p hl max_length gids (hit_block_size spec dcp pcp) eagle al = Inr cols" "is_full_attention spec"
  proof -
    have "skipped_tokens spec n = 0" for n using that(2) by (cases spec) auto
    then show ?thesis using full_hit_columns[OF assms(1-4) that(1)] unfolding hit_sound_def by simp
  qed
  show ?thesis
  proof (cases spec)
    case (SlidingWindowSpec a w)
    then have "window_hit p hl max_length gids (attn_block_size a) w eagle al = Inr cols" "hit_block_size spec dcp pcp = attn_block_size a"
      using assms(6) by (auto simp: find_longest_cache_hit_def bindE_Inr_iff hit_block_size_def)
    then show ?thesis using window_hit_sound[OF assms(1,2) _ assms(4)] assms(3) assms(5)[unfolded lookup_supported_def] SlidingWindowSpec by simp
  next
    case (ChunkedLocalAttentionSpec a c)
    then have "chunk_hit p hl max_length gids (attn_block_size a) c eagle al = Inr cols" "hit_block_size spec dcp pcp = attn_block_size a"
      using assms(6) by (auto simp: find_longest_cache_hit_def bindE_Inr_iff hit_block_size_def)
    then show ?thesis using chunk_hit_sound[OF assms(1,2) _ assms(4)] assms(3) assms(5)[unfolded lookup_supported_def] ChunkedLocalAttentionSpec by simp
  next
    case (MambaSpec f)
    then have "state_hit p hl max_length gids (mamba_block_size f) al = Inr cols" "hit_block_size spec dcp pcp = mamba_block_size f"
      using assms(6) by (auto simp: find_longest_cache_hit_def bindE_Inr_iff hit_block_size_def)
    then show ?thesis using state_hit_sound[OF assms(1,2) _ assms(4)] assms(3) MambaSpec by simp
  qed (use assms(6) full in \<open>auto simp: find_longest_cache_hit_def\<close>)
qed

section \<open>Properties\<close>


text \<open>
  C37: with speculative decoding and an alignment of two blocks a sliding window hit is not sound. When
  the blocks that are cached are the third and the fourth, both are found, dropped again, one for
  the draft model and one for the alignment, and what remains is two null blocks: the 32 tokens
  they stand for count as computed, but the window of the next token reads the second block.
\<close>

theorem eagle_realign_loses_window:
  assumes "pool_run p held" "attn_block_size a = 16"
    and "lookup_block p hl [0] 3 = Inr (Some [b3])" "lookup_block p hl [0] 2 = Inr (Some [b2])"
  shows "find_longest_cache_hit p hl 64 [0] (SlidingWindowSpec a 17) True 32 1 1 = Inr [[null_block p, null_block p]] \<and>
    \<not> hit_sound p hl [0] (SlidingWindowSpec a 17) 16 64 32 [[null_block p, null_block p]]"
proof -
  obtain q where q: "run_inv p held q" using pool_run_inv[OF assms(1)] by blast
  have null: "null_block p = Blk 0" using pool_invD(2)[OF run_invD(1)[OF q]] .
  have need: "cdiv (17 - 1) 16 + 1 = (2::int)" by (simp add: cdiv_def)
  have four: "nat (64 div 16) = 4" "4 = Suc (Suc (Suc (Suc 0)))" by simp_all
  have scan: "window_scan p hl [0] 16 32 2 4 [replicate 4 (null_block p)] 0 =
      Inr ([[null_block p, null_block p, b2, b3]], 2, True)"
    using assms(3,4) by (simp only: four(2)) (simp add: numeral_eq_Suc)
  have "window_hit p hl 64 [0] 16 17 True 32 = Inr [[null_block p, null_block p]]"
    unfolding window_hit_def Let_def four(1) list.map if_True need scan
    by (simp add: pop_all_def align_down.simps)
  then have "find_longest_cache_hit p hl 64 [0] (SlidingWindowSpec a 17) True 32 1 1 = Inr [[null_block p, null_block p]]"
    using assms(2) by (simp add: find_longest_cache_hit_def)
  moreover have "\<not> hit_sound p hl [0] (SlidingWindowSpec a 17) 16 64 32 [[null_block p, null_block p]]"
    by (auto simp: hit_sound_def hit_column_def null is_hit_def in_pool_def)
  ultimately show ?thesis by blast
qed

text \<open>
  C38: when the chunk size is not a multiple of the block size, a chunked attention lookup reports
  tokens of the current chunk as computed that nothing has computed: with chunks of 24 tokens and
  blocks of 16, a request of 31 tokens gets the null block for its first 16 tokens, whatever is cached.
\<close>

theorem unaligned_chunk_hit_unsound:
  assumes "pool_run p held" "attn_block_size a = 16"
  shows "find_longest_cache_hit p hl 30 [0] (ChunkedLocalAttentionSpec a 24) False 16 1 1 = Inr [[null_block p]] \<and>
    \<not> hit_sound p hl [0] (ChunkedLocalAttentionSpec a 24) 16 30 16 [[null_block p]]"
proof -
  obtain q where q: "run_inv p held q" using pool_run_inv[OF assms(1)] by blast
  have null: "null_block p = Blk 0" using pool_invD(2)[OF run_invD(1)[OF q]] .
  have "find_longest_cache_hit p hl 30 [0] (ChunkedLocalAttentionSpec a 24) False 16 1 1 = Inr [[null_block p]]"
    using assms(2) by (simp add: find_longest_cache_hit_def chunk_hit_def chunk_start_def)
  moreover have "\<not> hit_sound p hl [0] (ChunkedLocalAttentionSpec a 24) 16 30 16 [[null_block p]]"
    by (auto simp: hit_sound_def hit_column_def null is_hit_def in_pool_def)
  ultimately show ?thesis by blast
qed

section \<open>Examples\<close>

definition example_hashes :: "bytes list" where
  "example_hashes = [[1], [2], [3], [4]]"

text \<open>A pool in which the blocks \<open>a\<close> to \<open>b\<close> of a request with four blocks are cached.\<close>

definition cached_pool :: "int \<Rightarrow> int \<Rightarrow> block_pool result" where
  "cached_pool a b =
     bindE (pool_init 6 True 16 False False False) (\<lambda>p.
     bindE (get_new_blocks p 4) (\<lambda>(bs, p).
     bindE (cache_full_blocks id ((example_request ''a'' [])\<lparr>block_hashes := example_hashes\<rparr>) bs a b 16 0 p) (\<lambda>(p, r).
     Inr p)))"

lemma cached_pool_run:
  assumes "cached_pool a b = Inr p"
  shows "\<exists>held. pool_run p held"
proof -
  from assms obtain p0 bs p1 r where p0: "pool_init 6 True 16 False False False = Inr p0" and p1: "get_new_blocks p0 4 = Inr (bs, p1)"
    and p: "cache_full_blocks id ((example_request ''a'' [])\<lparr>block_hashes := example_hashes\<rparr>) bs a b 16 0 p1 = Inr (p, r)"
    unfolding cached_pool_def by (auto simp: bindE_Inr_iff)
  note h = pool_holds_init[OF p0]
  obtain "is" p1' where i: "get_new_blocks p0 4 = Inr (map Blk is, p1')" "distinct is" "length is = nat 4"
    "\<forall>i \<in> set is. in_pool p0 i \<and> (0::nat) = 0" "pool_holds p1' (\<lambda>i. 0 + count_list is i)" "same_config p0 p1'"
    "hash_at p1' = (\<lambda>i. if i \<in> set is then None else hash_at p0 i)"
    by (rule pool_holds_alloc[OF h _ get_new_blocks_fails[OF h p1]]) simp
  have p1': "bs = map Blk is" "p1' = p1" using p1 i(1) by simp_all
  have n: "0 < (6::int)" by simp
  have "enable_caching p0" by (rule pool_init_inv[OF n, of True 16 False False False]) (use p0 in simp)
  then have e: "enable_caching p1" using i(6) p1'(2) by (simp add: same_config_def)
  have "\<forall>i \<in> set is. i = 0 \<or> in_pool p1 i" using i(4,6) p1'(2) same_config_in_pool by blast
  from pool_holds_cache[OF i(5)[unfolded p1'(2)] p[unfolded p1'(1)] e this] show ?thesis
    unfolding pool_holds_def by blast
qed

definition window_spec :: kv_cache_spec where
  "window_spec = SlidingWindowSpec \<lparr>attn_block_size = 16, num_kv_heads = 1, head_size = 8, attn_dtype = ''bf16'', attn_page_size_padded = None\<rparr> 17"


theorem eagle_realign_loses_window_witness:
  "\<exists>p. cached_pool 2 4 = Inr p \<and>
     find_longest_cache_hit p (Plain example_hashes) 64 [0] window_spec True 32 1 1 = Inr [[null_block p, null_block p]]"
proof -
  have "case cached_pool 2 4 of Inr p \<Rightarrow>
      lookup_block p (Plain example_hashes) [0] 3 = Inr (Some [Blk 4]) \<and> lookup_block p (Plain example_hashes) [0] 2 = Inr (Some [Blk 3])
    | Inl _ \<Rightarrow> False" by code_simp
  then obtain p where p: "cached_pool 2 4 = Inr p" "lookup_block p (Plain example_hashes) [0] 3 = Inr (Some [Blk 4])"
    "lookup_block p (Plain example_hashes) [0] 2 = Inr (Some [Blk 3])" by (auto split: sum.splits)
  obtain held where run: "pool_run p held" using cached_pool_run[OF p(1)] by blast
  from eagle_realign_loses_window[OF run _ p(2,3)] p(1) show ?thesis unfolding window_spec_def by auto
qed

theorem unaligned_chunk_hit_unsound_witness:
  "\<exists>p. cached_pool 0 4 = Inr p \<and>
     find_longest_cache_hit p (Plain example_hashes) 30 [0] (ChunkedLocalAttentionSpec \<lparr>attn_block_size = 16, num_kv_heads = 1,
       head_size = 8, attn_dtype = ''bf16'', attn_page_size_padded = None\<rparr> 24) False 16 1 1 = Inr [[null_block p]]"
proof -
  have "case cached_pool 0 4 of Inr p \<Rightarrow> True | Inl _ \<Rightarrow> False" by code_simp
  then obtain p where p: "cached_pool 0 4 = Inr p" by (auto split: sum.splits)
  obtain held where run: "pool_run p held" using cached_pool_run[OF p] by blast
  show ?thesis using p unaligned_chunk_hit_unsound[OF run, of "\<lparr>attn_block_size = 16, num_kv_heads = 1,
       head_size = 8, attn_dtype = ''bf16'', attn_page_size_padded = None\<rparr>" "Plain example_hashes"] by auto
qed

end
