(* ===== verification/Manager_Runs.thy ===== *)
theory Manager_Runs
  imports Single_Type
begin

text \<open>
  The invariant of a manager: the references its request table holds, together with those of the
  other users of the pool, are exactly the references the pool counts. Every operation of every
  class of manager keeps it.
\<close>

section \<open>Tables of requests\<close>

definition list_ok :: "block_pool \<Rightarrow> bref list \<Rightarrow> bool" where
  "list_ok p bs \<longleftrightarrow> (\<exists>is. bs = map Blk is \<and> (\<forall>i \<in> set is. i = 0 \<or> in_pool p i) \<and> distinct (filter (\<lambda>i. i \<noteq> 0) is))"

definition table_refs :: "st_manager \<Rightarrow> nat \<Rightarrow> nat" where
  "table_refs m i = dsum (\<lambda>bs. count_list bs (Blk i)) (req_to_blocks m)"

definition tables_ok :: "block_pool \<Rightarrow> st_manager \<Rightarrow> bool" where
  "tables_ok p m \<longleftrightarrow> dict_ok (req_to_blocks m) \<and> (\<forall>rid. list_ok p (req_blocks m rid))"

definition mgr_inv :: "(nat \<Rightarrow> nat) \<Rightarrow> st_manager \<Rightarrow> block_pool \<Rightarrow> bool" where
  "mgr_inv others m p \<longleftrightarrow> pool_holds p (\<lambda>i. others i + table_refs m i) \<and> tables_ok p m"

lemma mgr_invD:
  assumes "mgr_inv others m p"
  shows "pool_holds p (\<lambda>i. others i + table_refs m i)" "dict_ok (req_to_blocks m)" "list_ok p (req_blocks m rid)"
    "null_block p = Blk 0"
  using assms pool_holds_facts(1) by (auto simp: mgr_inv_def tables_ok_def)

text \<open>An operation for one request keeps the kind of the manager and the blocks of all other requests.\<close>

definition keeps_others :: "string \<Rightarrow> st_manager \<Rightarrow> st_manager \<Rightarrow> bool" where
  "keeps_others rid m m' \<longleftrightarrow> mgr_spec m' = mgr_spec m \<and> mgr_block_size m' = mgr_block_size m \<and> mgr_caching m' = mgr_caching m \<and>
     kv_cache_group_id m' = kv_cache_group_id m \<and> allocated_block_reqs m' \<subseteq> insert rid (allocated_block_reqs m) \<and>
     (\<forall>rid'. rid' \<noteq> rid \<longrightarrow> req_blocks m' rid' = req_blocks m rid' \<and> dget (num_cached_block m') rid' = dget (num_cached_block m) rid')"

lemma keeps_others_refl [simp, intro]: "keeps_others rid m m"
  and keeps_others_trans: "keeps_others rid m m' \<Longrightarrow> keeps_others rid m' m'' \<Longrightarrow> keeps_others rid m m''"
  by (auto simp: keeps_others_def)

lemma mgr_inv_fields:
  "mgr_inv others m p \<Longrightarrow> req_to_blocks m' = req_to_blocks m \<Longrightarrow> mgr_inv others m' p"
  by (simp add: mgr_inv_def tables_ok_def table_refs_def req_blocks_def)

lemma list_ok_config: "same_config p p' \<Longrightarrow> list_ok p' bs = list_ok p bs"
  by (simp add: list_ok_def same_config_in_pool)

lemma mgr_inv_pool:
  assumes "mgr_inv others m p" "pool_holds p' (\<lambda>i. others' i + table_refs m i)" "same_config p p'"
  shows "mgr_inv others' m p'"
  using assms(1,2) list_ok_config[OF assms(3)] by (simp add: mgr_inv_def tables_ok_def)

lemma list_ok_Nil [simp]: "list_ok p []"
  by (simp add: list_ok_def)

lemma req_blocks_set_blocks [simp]: "req_blocks (set_blocks rid bs m) rid' = (if rid' = rid then bs else req_blocks m rid')"
  by (simp add: req_blocks_def set_blocks_def)

lemma dict_ok_set_blocks [simp]: "dict_ok (req_to_blocks m) \<Longrightarrow> dict_ok (req_to_blocks (set_blocks rid bs m))"
  by (simp add: set_blocks_def)

lemma table_refs_set_blocks:
  "dict_ok (req_to_blocks m) \<Longrightarrow>
   table_refs (set_blocks rid bs m) i + count_list (req_blocks m rid) (Blk i) = table_refs m i + count_list bs (Blk i)"
  using dsum_dset[of "req_to_blocks m" "\<lambda>bs. count_list bs (Blk i)" rid bs]
  by (cases "dget (req_to_blocks m) rid") (simp_all add: table_refs_def set_blocks_def req_blocks_def)

lemma count_le_table_refs: "count_list (req_blocks m rid) (Blk i) \<le> table_refs m i"
  using dget_le_dsum[of "req_to_blocks m" rid _ "\<lambda>bs. count_list bs (Blk i)"]
  by (simp add: table_refs_def req_blocks_def split: option.splits)

text \<open>One list of the table changes, and the pool counts the references with it.\<close>

lemma mgr_inv_update:
  assumes inv: "mgr_inv others m p" and p': "pool_holds p' held" "same_config p p'" and l: "list_ok p bs"
    and h: "\<And>i. 0 < i \<Longrightarrow> held i + count_list (req_blocks m rid) (Blk i) = others i + table_refs m i + count_list bs (Blk i)"
  shows "mgr_inv others (set_blocks rid bs m) p'"
proof -
  note d = mgr_invD[OF inv]
  have "others i + table_refs (set_blocks rid bs m) i = held i" if "0 < i" for i
    using h[OF that] table_refs_set_blocks[OF d(2), of rid bs i] count_le_table_refs[of m rid i] by linarith
  then have "pool_holds p' (\<lambda>i. others i + table_refs (set_blocks rid bs m) i)" by (intro pool_holds_cong[OF p'(1)]) simp
  moreover have "tables_ok p' (set_blocks rid bs m)"
    using d(2,3) l by (simp add: tables_ok_def list_ok_config[OF p'(2)])
  ultimately show ?thesis by (simp add: mgr_inv_def)
qed

lemma ensure_req_inv:
  assumes "mgr_inv others m p"
  shows "mgr_inv others (ensure_req rid m) p"
proof (cases "dget (req_to_blocks m) rid = None")
  case True
  then have "req_blocks m rid = []" by (simp add: req_blocks_def)
  then have "mgr_inv others (set_blocks rid [] m) p"
    by (intro mgr_inv_update[OF assms mgr_invD(1)[OF assms]]) simp_all
  then show ?thesis using True by (simp add: ensure_req_def)
next
  case False
  then show ?thesis using assms by (simp only: ensure_req_def if_False)
qed

lemma ensure_req_fields [simp]:
  "mgr_spec (ensure_req rid m) = mgr_spec m" "mgr_block_size (ensure_req rid m) = mgr_block_size m"
  "mgr_caching (ensure_req rid m) = mgr_caching m" "num_cached_block (ensure_req rid m) = num_cached_block m"
  "kv_cache_group_id (ensure_req rid m) = kv_cache_group_id m" "allocated_block_reqs (ensure_req rid m) = allocated_block_reqs m"
  "last_state_block_idx (ensure_req rid m) = last_state_block_idx m"
  by (simp_all add: ensure_req_def set_blocks_def)

lemma req_blocks_ensure_req [simp]: "req_blocks (ensure_req rid m) rid' = req_blocks m rid'"
  by (auto simp: ensure_req_def req_blocks_def set_blocks_def)

lemma set_blocks_fields [simp]:
  "mgr_spec (set_blocks rid bs m) = mgr_spec m" "mgr_block_size (set_blocks rid bs m) = mgr_block_size m"
  "mgr_caching (set_blocks rid bs m) = mgr_caching m" "num_cached_block (set_blocks rid bs m) = num_cached_block m"
  "kv_cache_group_id (set_blocks rid bs m) = kv_cache_group_id m" "allocated_block_reqs (set_blocks rid bs m) = allocated_block_reqs m"
  by (simp_all add: set_blocks_def)

lemma req_blocks_update [simp]:
  "req_blocks (m\<lparr>num_cached_block := d\<rparr>) = req_blocks m" "req_blocks (m\<lparr>last_state_block_idx := d'\<rparr>) = req_blocks m"
  "req_blocks (m\<lparr>allocated_block_reqs := s\<rparr>) = req_blocks m" "req_blocks (m\<lparr>cached_blocks_this_step := h\<rparr>) = req_blocks m"
  by (simp_all add: req_blocks_def fun_eq_iff)

lemma append_blocks_fields [simp]:
  "mgr_spec (append_blocks rid bs p m) = mgr_spec m" "mgr_block_size (append_blocks rid bs p m) = mgr_block_size m"
  "mgr_caching (append_blocks rid bs p m) = mgr_caching m" "num_cached_block (append_blocks rid bs p m) = num_cached_block m"
  "kv_cache_group_id (append_blocks rid bs p m) = kv_cache_group_id m"
  "allocated_block_reqs (append_blocks rid bs p m) = allocated_block_reqs m"
  "req_blocks (append_blocks rid bs p m) rid' = (if rid' = rid then req_blocks m rid @ bs else req_blocks m rid')"
  by (simp_all add: append_blocks_def Let_def req_blocks_def set_blocks_def split: kv_cache_spec.split)

lemma keeps_others_simps [simp]:
  "keeps_others rid m (set_blocks rid bs m') = keeps_others rid m m'" "keeps_others rid m (ensure_req rid' m') = keeps_others rid m m'"
  "keeps_others rid m (append_blocks rid bs p m') = keeps_others rid m m'"
  "keeps_others rid m (m'\<lparr>last_state_block_idx := d\<rparr>) = keeps_others rid m m'"
  "keeps_others rid m (m'\<lparr>cached_blocks_this_step := h\<rparr>) = keeps_others rid m m'"
  by (simp_all add: keeps_others_def)

section \<open>Allocation\<close>

lemma count_list_map_Blk [simp]: "count_list (map Blk is) (Blk i) = count_list is i"
  by (induction "is") auto

lemma list_ok_append:
  assumes "list_ok p bs" "distinct is" "\<forall>i \<in> set is. in_pool p i \<and> Blk i \<notin> set bs"
  shows "list_ok p (bs @ map Blk is)"
proof -
  obtain js where js: "bs = map Blk js" "\<forall>i \<in> set js. i = 0 \<or> in_pool p i" "distinct (filter (\<lambda>i. i \<noteq> 0) js)"
    using assms(1) unfolding list_ok_def by blast
  have "set js \<inter> set is = {}" using assms(3) js(1) by auto
  then have "distinct (filter (\<lambda>i. i \<noteq> 0) (js @ is))" using js(3) assms(2) by auto
  then show ?thesis unfolding list_ok_def using js assms(3) by (intro exI[of _ "js @ is"]) auto
qed

abbreviation real :: "bref list \<Rightarrow> bref list" where
  "real bs \<equiv> filter (\<lambda>b. b \<noteq> Blk 0) bs"

lemma list_ok_iff:
  "list_ok p bs \<longleftrightarrow> (\<forall>b \<in> set bs. \<exists>i. b = Blk i \<and> (i = 0 \<or> in_pool p i)) \<and> distinct (real bs)"
proof -
  have d: "distinct (real (map Blk is)) = distinct (filter (\<lambda>i. i \<noteq> 0) is)" for "is"
    by (simp add: filter_map comp_def distinct_map inj_on_def)
  show ?thesis
  proof
    assume "list_ok p bs"
    then obtain "is" where "bs = map Blk is" "\<forall>i \<in> set is. i = 0 \<or> in_pool p i" "distinct (filter (\<lambda>i. i \<noteq> 0) is)"
      unfolding list_ok_def by blast
    then show "(\<forall>b \<in> set bs. \<exists>i. b = Blk i \<and> (i = 0 \<or> in_pool p i)) \<and> distinct (real bs)"
      using d[of "is"] by auto
  next
    assume a: "(\<forall>b \<in> set bs. \<exists>i. b = Blk i \<and> (i = 0 \<or> in_pool p i)) \<and> distinct (real bs)"
    then obtain "is" where i: "bs = map Blk is" using Blk_list by blast
    then show "list_ok p bs" unfolding list_ok_def using a d[of "is"] by (intro exI[of _ "is"]) auto
  qed
qed

lemma count_real: "0 < i \<Longrightarrow> count (mset (real bs)) (Blk i) = count_list bs (Blk i)"
  by (induction bs) auto

lemma fresh_not_listed:
  assumes "others i + table_refs m i = 0"
  shows "Blk i \<notin> set (req_blocks m rid)"
  using assms count_le_table_refs[of m rid i] by (simp add: count_list_0_iff)

lemma append_blocks_table: "req_to_blocks (append_blocks rid bs p m) = req_to_blocks (set_blocks rid (req_blocks m rid @ bs) m)"
  by (simp add: append_blocks_def Let_def split: kv_cache_spec.split)

lemma list_ok_permuted:
  assumes l: "list_ok p bs" and real: "mset (real bs') = mset (real bs)"
  assumes sub: "set bs' \<subseteq> insert (Blk 0) (set bs)"
  shows "list_ok p bs'"
proof -
  have "\<forall>b \<in> set bs'. \<exists>i. b = Blk i \<and> (i = 0 \<or> in_pool p i)" using l sub unfolding list_ok_iff by blast
  moreover have "distinct (real bs')" using l mset_eq_imp_distinct_iff[OF real] unfolding list_ok_iff by blast
  ultimately show ?thesis unfolding list_ok_iff by blast
qed

text \<open>
  Blocks of the pool are appended to the list of a request, whose own blocks may have been moved
  within the list before.
\<close>

lemma alloc_permuted:
  assumes inv: "mgr_inv others m p" and n: "0 \<le> n" "n \<le> get_num_free_blocks p"
    and real: "mset (real bs) = mset (real (req_blocks m rid))" and sub: "set bs \<subseteq> insert (Blk 0) (set (req_blocks m rid))"
  obtains new p' where "get_new_blocks p n = Inr (new, p')" "mgr_inv others (set_blocks rid (bs @ new) m) p'" "same_config p p'"
    "length new = nat n" "get_num_free_blocks p' = get_num_free_blocks p - n"
proof -
  note d = mgr_invD[OF inv]
  obtain "is" p' where i: "get_new_blocks p n = Inr (map Blk is, p')" "distinct is" "length is = nat n"
    "\<forall>i \<in> set is. in_pool p i \<and> others i + table_refs m i = 0"
    "pool_holds p' (\<lambda>i. others i + table_refs m i + count_list is i)" "same_config p p'"
    "hash_at p' = (\<lambda>i. if i \<in> set is then None else hash_at p i)"
    by (rule pool_holds_alloc[OF d(1) n])
  have "\<forall>i \<in> set is. in_pool p i \<and> Blk i \<notin> set bs"
  proof (intro ballI conjI)
    fix j assume "j \<in> set is"
    then have j: "in_pool p j" "others j + table_refs m j = 0" using i(4) by simp_all
    show "in_pool p j" by (rule j(1))
    have "Blk j \<notin> set (req_blocks m rid)" by (rule fresh_not_listed[of others, OF j(2)])
    then show "Blk j \<notin> set bs" using sub j(1) by (auto simp: in_pool_def)
  qed
  from list_ok_append[OF list_ok_permuted[OF d(3) real sub] i(2) this] have "mgr_inv others (set_blocks rid (bs @ map Blk is) m) p'"
  proof (rule mgr_inv_update[OF inv i(5,6)])
    fix i :: nat assume "0 < i"
    then show "others i + table_refs m i + count_list is i + count_list (req_blocks m rid) (Blk i) =
      others i + table_refs m i + count_list (bs @ map Blk is) (Blk i)"
      using count_real[of i bs] count_real[of i "req_blocks m rid"] unfolding real by simp
  qed
  moreover have "get_num_free_blocks p' = get_num_free_blocks p - n"
    using alloc_free_count[OF d(1) i(5,6,2,4)] i(3) n(1) by simp
  ultimately show thesis using that[OF i(1)] i(3,6) by simp
qed

lemma alloc_append:
  assumes inv: "mgr_inv others m p" and n: "0 \<le> n" "n \<le> get_num_free_blocks p"
  obtains new p' where "get_new_blocks p n = Inr (new, p')" "mgr_inv others (append_blocks rid new p' m) p'" "same_config p p'"
    "length new = nat n" "get_num_free_blocks p' = get_num_free_blocks p - n"
proof -
  obtain new p' where a: "get_new_blocks p n = Inr (new, p')" "mgr_inv others (set_blocks rid (req_blocks m rid @ new) m) p'"
    "same_config p p'" "length new = nat n" "get_num_free_blocks p' = get_num_free_blocks p - n"
    by (rule alloc_permuted[OF inv n refl subset_insertI])
  have "mgr_inv others (append_blocks rid new p' m) p'"
    by (rule mgr_inv_fields[OF a(2)]) (simp only: append_blocks_table)
  then show thesis using that a by blast
qed

lemma base_allocate_new_blocks_inv:
  assumes inv: "mgr_inv others m p" and n: "cdiv tokens (mgr_block_size m) - int (length (req_blocks m rid)) \<le> get_num_free_blocks p"
  obtains new m' p' where "base_allocate_new_blocks m p rid tokens = Inr (new, m', p')" "mgr_inv others m' p'" "same_config p p'"
    "get_num_free_blocks p' = get_num_free_blocks p - max 0 (cdiv tokens (mgr_block_size m) - int (length (req_blocks m rid)))"
    "keeps_others rid m m'" "num_cached_block m' = num_cached_block m" "req_blocks m' rid = req_blocks m rid @ new"
    "int (length new) = max 0 (cdiv tokens (mgr_block_size m) - int (length (req_blocks m rid)))"
proof (cases "cdiv tokens (mgr_block_size m) - int (length (req_blocks m rid)) \<le> 0")
  case True
  then show thesis using that[of "[]" "ensure_req rid m" p] ensure_req_inv[OF inv]
    by (simp add: base_allocate_new_blocks_def Let_def)
next
  case False
  let ?n = "cdiv tokens (mgr_block_size m) - int (length (req_blocks m rid))"
  have "0 \<le> ?n" using False by simp
  obtain new p' where a: "get_new_blocks p ?n = Inr (new, p')" "mgr_inv others (append_blocks rid new p' (ensure_req rid m)) p'"
    "same_config p p'" "length new = nat ?n" "get_num_free_blocks p' = get_num_free_blocks p - ?n"
    by (rule alloc_append[OF ensure_req_inv[OF inv] \<open>0 \<le> ?n\<close> n])
  then show thesis using that[of new "append_blocks rid new p' (ensure_req rid m)" p'] False
    by (simp add: base_allocate_new_blocks_def Let_def)
qed

section \<open>Computed blocks\<close>

lemma list_ok_drop: "list_ok p bs \<Longrightarrow> list_ok p (drop k bs)"
proof -
  assume "list_ok p bs"
  then obtain "is" where i: "bs = map Blk is" "\<forall>i \<in> set is. i = 0 \<or> in_pool p i" "distinct (filter (\<lambda>i. i \<noteq> 0) is)"
    unfolding list_ok_def by blast
  have "filter (\<lambda>i. i \<noteq> 0) is = filter (\<lambda>i. i \<noteq> 0) (take k is) @ filter (\<lambda>i. i \<noteq> 0) (drop k is)"
    by (simp only: filter_append[symmetric] append_take_drop_id)
  then have "distinct (filter (\<lambda>i. i \<noteq> 0) (drop k is))" using i(3) by simp
  moreover have "\<forall>i \<in> set (drop k is). i = 0 \<or> in_pool p i" using i(2) set_drop_subset[of k "is"] by blast
  ultimately show ?thesis unfolding list_ok_def using i(1) by (intro exI[of _ "drop k is"]) (simp add: drop_map)
qed

lemma list_ok_nulls: "list_ok p bs \<Longrightarrow> list_ok p (replicate k (Blk 0) @ bs)"
proof -
  assume "list_ok p bs"
  then obtain "is" where i: "bs = map Blk is" "\<forall>i \<in> set is. i = 0 \<or> in_pool p i" "distinct (filter (\<lambda>i. i \<noteq> 0) is)"
    unfolding list_ok_def by blast
  then show ?thesis unfolding list_ok_def by (intro exI[of _ "replicate k 0 @ is"]) auto
qed

lemma count_nulls: "0 < i \<Longrightarrow> count_list (replicate k (Blk 0)) (Blk i) = 0"
  by (induction k) auto

lemma evictable_count:
  assumes "pool_holds p held"
  shows "get_num_evictable_blocks p (map Blk is) = int (length (filter (\<lambda>i. i \<noteq> 0 \<and> held i = 0) is))"
proof -
  have "(ref_cnt (blk p (Blk i)) = 0 \<and> \<not> is_null (blk p (Blk i))) = (i \<noteq> 0 \<and> held i = 0)" for i
    using pool_holds_facts(2,3)[OF assms, of i] by auto
  then have "filter (\<lambda>b. ref_cnt (blk p b) = 0 \<and> \<not> is_null (blk p b)) (map Blk is) = map Blk (filter (\<lambda>i. i \<noteq> 0 \<and> held i = 0) is)"
    unfolding filter_map by (simp only: comp_def)
  then show ?thesis by (simp add: get_num_evictable_blocks_def)
qed

lemma adopt_computed:
  assumes inv: "mgr_inv others m p" and empty: "req_blocks m rid = []" and l: "list_ok p computed"
  obtains p' where "touch computed p = Inr p'" "mgr_inv others (set_blocks rid (replicate k (null_block p) @ computed) m) p'"
    "same_config p p'" "get_num_free_blocks p - get_num_evictable_blocks p computed \<le> get_num_free_blocks p'"
proof -
  note d = mgr_invD[OF inv]
  obtain "is" where i: "computed = map Blk is" "\<forall>i \<in> set is. i = 0 \<or> in_pool p i" using l unfolding list_ok_def by blast
  obtain p' where p': "touch (map Blk is) p = Inr p'" "pool_holds p' (\<lambda>i. others i + table_refs m i + count_list is i)"
    "same_config p p'" "hash_at p' = hash_at p"
    by (rule pool_holds_touch[OF d(1) i(2)])
  have "mgr_inv others (set_blocks rid (replicate k (null_block p) @ computed) m) p'"
  proof (rule mgr_inv_update[OF inv p'(2,3)])
    show "list_ok p (replicate k (null_block p) @ computed)" unfolding d(4) by (rule list_ok_nulls[OF l])
  qed (simp add: empty i(1) d(4) count_nulls)
  moreover have "get_num_free_blocks p - get_num_evictable_blocks p computed \<le> get_num_free_blocks p'"
    using touch_free_count[OF d(1) p'(2,3)] evictable_count[OF d(1), of "is"] unfolding i(1) by linarith
  ultimately show thesis using that p'(1,3) i(1) by blast
qed

text \<open>What the specification has to be for a request not to skip more than it has computed.\<close>

fun window_ok :: "kv_cache_spec \<Rightarrow> bool" where
  "window_ok (SlidingWindowSpec a w) = (1 \<le> w)"
| "window_ok (ChunkedLocalAttentionSpec a c) = (0 < c)"
| "window_ok _ = True"

lemma skipped_le: "window_ok spec \<Longrightarrow> 0 \<le> n \<Longrightarrow> skipped_tokens spec n \<le> n"
  by (cases spec) (auto simp: zdiv_ge_iff[symmetric] minus_div_mult_eq_mod[symmetric] intro: pos_mod_sign)

lemma external_count:
  assumes "0 < bs" "window_ok spec" "0 \<le> n" "int (length new_computed) * bs \<le> n"
  shows "max (skipped_tokens spec n div bs) (int (length new_computed)) \<le> cdiv n bs"
proof -
  have "skipped_tokens spec n div bs \<le> n div bs" using skipped_le[OF assms(2,3)] assms(1) by (rule zdiv_mono1)
  also have "\<dots> \<le> cdiv n bs" using assms(1) by (rule floor_le_cdiv)
  finally show ?thesis using assms(1,4) zdiv_ge_iff[of bs "int (length new_computed)" n] floor_le_cdiv[of bs n] by linarith
qed

lemma base_allocate_new_computed_inv:
  assumes inv: "mgr_inv others m p" and l: "list_ok p computed"
    and bs: "0 < mgr_block_size m" and w: "window_ok (mgr_spec m)" and ext: "0 \<le> num_external"
    and len: "int (length computed) * mgr_block_size m \<le> num_local"
    and res: "base_allocate_new_computed m p rid computed num_local num_external = Inr (m', p')"
  shows "mgr_inv others m' p' \<and> same_config p p' \<and> keeps_others rid m m'"
proof (cases "dget (num_cached_block m) rid = None")
  case False
  then show ?thesis using res inv by (auto simp: base_allocate_new_computed_def bindE_Inr_iff)
next
  case True
  let ?n = "num_local + num_external" and ?bs = "mgr_block_size m"
  let ?skip = "get_num_skipped_tokens m ?n div ?bs"
  let ?c = "if 0 < ?skip then drop (nat ?skip) computed else computed"
  let ?e = "if 0 < ?skip then min (?n - get_num_skipped_tokens m ?n) num_external else num_external"
  let ?l = "replicate (nat ?skip) (null_block p) @ ?c"
  let ?m = "\<lambda>m. (set_blocks rid ?l m)\<lparr>num_cached_block := dset rid (int (length ?l)) (num_cached_block m)\<rparr>"
  from res True obtain p1 where empty: "req_blocks m rid = []"
    and p1: "(if mgr_caching m then touch ?c p else bindE (assertE (?c = [])) (\<lambda>_. Inr p)) = Inr p1"
    and fin: "(if 0 < ?e then bindE (get_new_blocks p1 (cdiv ?n ?bs - int (length ?l))) (\<lambda>(bs, p2).
                  Inr (append_blocks rid bs p2 (?m m), p2)) else Inr (?m m, p1)) = Inr (m', p')"
    unfolding base_allocate_new_computed_def Let_def by (auto simp only: bindE_Inr_iff simp_thms if_False assertE_Inr_iff)
  have lc: "list_ok p ?c" using l list_ok_drop[OF l] by simp
  obtain p2 where p2: "touch ?c p = Inr p2" "mgr_inv others (set_blocks rid ?l m) p2" "same_config p p2"
    "get_num_free_blocks p - get_num_evictable_blocks p ?c \<le> get_num_free_blocks p2"
    by (rule adopt_computed[OF inv empty lc])
  have "p1 = p2" using p1 p2(1) by (cases "mgr_caching m") (auto simp: bindE_Inr_iff touch_def)
  then have inv1: "mgr_inv others (?m m) p1" using mgr_inv_fields[OF p2(2)] by simp
  show ?thesis
  proof (cases "0 < ?e")
    case False
    then have "m' = ?m m" "p' = p1" using fin by simp_all
    then show ?thesis using inv1 p2(3) \<open>p1 = p2\<close> by (auto simp: keeps_others_def)
  next
    case True
    have "0 \<le> int (length computed) * ?bs" using bs by simp
    then have n0: "0 \<le> ?n" "int (length computed) * ?bs \<le> ?n" using len ext by linarith+
    have "int (length ?l) = max (max 0 ?skip) (int (length computed))" by auto
    then have nn: "0 \<le> cdiv ?n ?bs - int (length ?l)"
      using external_count[OF bs w n0] cdiv_nonneg[OF bs n0(1)] by linarith
    from True fin obtain new p3 where g: "get_new_blocks p1 (cdiv ?n ?bs - int (length ?l)) = Inr (new, p3)"
      and m': "m' = append_blocks rid new p3 (?m m)" "p' = p3" by (auto simp: bindE_Inr_iff)
    obtain new' p3' where a: "get_new_blocks p1 (cdiv ?n ?bs - int (length ?l)) = Inr (new', p3')"
      "mgr_inv others (append_blocks rid new' p3' (?m m)) p3'" "same_config p1 p3'"
      "length new' = nat (cdiv ?n ?bs - int (length ?l))" "get_num_free_blocks p3' = get_num_free_blocks p1 - (cdiv ?n ?bs - int (length ?l))"
      by (rule alloc_append[OF inv1 nn get_new_blocks_fails[OF mgr_invD(1)[OF inv1] g]])
    moreover have "keeps_others rid m m'" by (auto simp: m' keeps_others_def)
    ultimately show ?thesis using g m' p2(3) \<open>p1 = p2\<close> same_config_trans by auto
  qed
qed

text \<open>Without external tokens nothing can fail, and touching consumes at most the evictable blocks counted before.\<close>

lemma base_allocate_new_computed_returns:
  fixes num_local :: int
  assumes inv: "mgr_inv others m p" and l: "list_ok p computed" and bs: "0 < mgr_block_size m"
    and running: "dget (num_cached_block m) rid \<noteq> None \<Longrightarrow> computed = []"
    and new: "dget (num_cached_block m) rid = None \<Longrightarrow> req_blocks m rid = []"
    and caching: "mgr_caching m \<or> computed = []"
  defines "skip \<equiv> nat (get_num_skipped_tokens m num_local div mgr_block_size m)"
  obtains m' p' where "base_allocate_new_computed m p rid computed num_local 0 = Inr (m', p')" "mgr_inv others m' p'"
    "same_config p p'" "keeps_others rid m m'" "dget (num_cached_block m') rid \<noteq> None"
    "get_num_free_blocks p - get_num_evictable_blocks p (drop skip computed) \<le> get_num_free_blocks p'"
    "length (req_blocks m' rid) = (if dget (num_cached_block m) rid = None then max skip (length computed) else length (req_blocks m rid))"
    "\<forall>i. table_refs m i \<le> table_refs m' i"
proof (cases "dget (num_cached_block m) rid = None")
  case False
  then have "computed = []" by (rule running)
  then show thesis
    by (intro that[of m p]) (use False inv in \<open>auto simp: base_allocate_new_computed_def get_num_evictable_blocks_def\<close>)
next
  case True
  let ?c = "drop skip computed"
  let ?l = "replicate skip (null_block p) @ ?c"
  let ?m = "(set_blocks rid ?l m)\<lparr>num_cached_block := dset rid (int (length ?l)) (num_cached_block m)\<rparr>"
  have c: "(if 0 < get_num_skipped_tokens m num_local div mgr_block_size m then ?c else computed) = ?c" by (simp add: skip_def)
  have e: "0 < (if 0 < get_num_skipped_tokens m num_local div mgr_block_size m
      then min (num_local - get_num_skipped_tokens m num_local) 0 else (0::int)) \<longleftrightarrow> False" by simp
  obtain p' where p': "touch ?c p = Inr p'" "mgr_inv others (set_blocks rid ?l m) p'" "same_config p p'"
    "get_num_free_blocks p - get_num_evictable_blocks p ?c \<le> get_num_free_blocks p'"
    by (rule adopt_computed[OF inv new[OF True] list_ok_drop[OF l]])
  have t: "(if mgr_caching m then touch ?c p else bindE (assertE (?c = [])) (\<lambda>_. Inr p)) = Inr p'"
    using p'(1) caching by (auto simp: touch_def)
  have "base_allocate_new_computed m p rid computed num_local 0 = Inr (?m, p')"
    by (simp only: base_allocate_new_computed_def Let_def True new[OF True] add_0_right skip_def[symmetric] c t e
        bindE_Inr assertE_True simp_thms if_False)
  moreover have "mgr_inv others ?m p'" by (rule mgr_inv_fields[OF p'(2)]) simp
  moreover have "keeps_others rid m ?m" by (auto simp: keeps_others_def)
  moreover have "dget (num_cached_block ?m) rid \<noteq> None" by simp
  moreover have "length (req_blocks ?m rid) = max skip (length computed)" by simp
  moreover have "\<forall>i. table_refs m i \<le> table_refs ?m i"
    using table_refs_set_blocks[OF mgr_invD(2)[OF inv], of rid ?l] by (simp add: new[OF True] table_refs_def)
  ultimately show thesis using that[of ?m p'] p'(3,4) by (simp only: True simp_thms if_True)
qed

section \<open>Giving blocks back\<close>

lemma give_back:
  assumes inv: "mgr_inv others m p"
    and split: "mset (real (req_blocks m rid)) = mset (real removed) + mset (real bs)"
    and sub: "set removed \<subseteq> insert (Blk 0) (set (req_blocks m rid))" "set bs \<subseteq> insert (Blk 0) (set (req_blocks m rid))"
  obtains p' where "free_blocks removed p = Inr p'" "mgr_inv others (set_blocks rid bs m) p'" "same_config p p'"
    "get_num_free_blocks p \<le> get_num_free_blocks p'"
proof -
  note d = mgr_invD[OF inv]
  let ?old = "req_blocks m rid"
  have old: "\<forall>b \<in> set ?old. \<exists>i. b = Blk i \<and> (i = 0 \<or> in_pool p i)" "distinct (real ?old)"
    using d(3)[of rid] unfolding list_ok_iff by blast+
  have "distinct (real removed @ real bs)"
    using mset_eq_imp_distinct_iff[of "real ?old" "real removed @ real bs"] split old(2) by simp
  then have dist: "distinct (real removed)" "distinct (real bs)" by simp_all
  have count: "count_list ?old (Blk i) = count_list removed (Blk i) + count_list bs (Blk i)" if "0 < i" for i
    using arg_cong[OF split, of "\<lambda>M. count M (Blk i)"] by (simp only: count_real[OF that] count_union)
  have ok: "list_ok p removed" "list_ok p bs" unfolding list_ok_iff using sub old(1) dist by blast+
  then obtain rs where rs: "removed = map Blk rs" "distinct (filter (\<lambda>i. i \<noteq> 0) rs)" unfolding list_ok_def by blast
  have held: "\<forall>i \<in> set rs. i = 0 \<or> 1 \<le> others i + table_refs m i"
  proof
    fix i assume "i \<in> set rs"
    then have "0 < count_list removed (Blk i)" using count_list_zero_iff[of rs i] rs(1) by simp
    then show "i = 0 \<or> 1 \<le> others i + table_refs m i" using count[of i] count_le_table_refs[of m rid i] by linarith
  qed
  obtain p' where p': "free_blocks (map Blk rs) p = Inr p'"
    "pool_holds p' (\<lambda>i. others i + table_refs m i - count_list rs i)" "same_config p p'" "hash_at p' = hash_at p"
    by (rule pool_holds_give_back[OF d(1) rs(2) held])
  have "mgr_inv others (set_blocks rid bs m) p'"
  proof (rule mgr_inv_update[OF inv p'(2,3) ok(2)])
    fix i :: nat assume i: "0 < i"
    show "others i + table_refs m i - count_list rs i + count_list ?old (Blk i) = others i + table_refs m i + count_list bs (Blk i)"
      using count[OF i] count_le_table_refs[of m rid i] unfolding rs(1) by simp
  qed
  moreover have "get_num_free_blocks p \<le> get_num_free_blocks p'"
  proof -
    have "{i. in_pool p i \<and> others i + table_refs m i = 0} \<subseteq> {i. in_pool p' i \<and> others i + table_refs m i - count_list rs i = 0}"
      using same_config_in_pool[OF p'(3)] by auto
    then show ?thesis using pool_holds_free[OF d(1)] pool_holds_free[OF p'(2)] by (simp add: card_mono finite_in_pool)
  qed
  ultimately show thesis using that p'(1,3) rs(1) by blast
qed

lemma table_refs_ddel: "dict_ok (req_to_blocks m) \<Longrightarrow>
  table_refs (m\<lparr>req_to_blocks := ddel rid (req_to_blocks m)\<rparr>) i = table_refs (set_blocks rid [] m) i"
  using dsum_ddel[of "req_to_blocks m" "\<lambda>bs. count_list bs (Blk i)" rid] table_refs_set_blocks[of m rid "[]" i]
  by (cases "dget (req_to_blocks m) rid") (simp_all add: table_refs_def req_blocks_def)

lemma base_free_inv:
  assumes inv: "mgr_inv others m p"
  obtains m' p' where "base_free m p rid = Inr (m', p')" "mgr_inv others m' p'" "same_config p p'"
    "req_to_blocks m' = ddel rid (req_to_blocks m)" "keeps_others rid m m'" "num_cached_block m' = ddel rid (num_cached_block m)"
    "get_num_free_blocks p \<le> get_num_free_blocks p'"
proof -
  have "mset (real (req_blocks m rid)) = mset (real (rev (req_blocks m rid))) + mset (real [])" by (simp add: rev_filter[symmetric])
  then obtain p' where p': "free_blocks (rev (req_blocks m rid)) p = Inr p'" "mgr_inv others (set_blocks rid [] m) p'"
    "same_config p p'" "get_num_free_blocks p \<le> get_num_free_blocks p'"
    by (rule give_back[OF inv]) auto
  let ?m = "m\<lparr>req_to_blocks := ddel rid (req_to_blocks m), num_cached_block := ddel rid (num_cached_block m)\<rparr>"
  have "table_refs ?m = table_refs (m\<lparr>req_to_blocks := ddel rid (req_to_blocks m)\<rparr>)" by (simp add: table_refs_def fun_eq_iff)
  then have "table_refs ?m = table_refs (set_blocks rid [] m)" using table_refs_ddel[OF mgr_invD(2)[OF inv]] by (simp add: fun_eq_iff)
  moreover have "req_blocks ?m r = req_blocks (set_blocks rid [] m) r" for r by (simp add: req_blocks_def set_blocks_def)
  ultimately have "mgr_inv others ?m p'" using p'(2) mgr_invD(2)[OF inv] by (simp add: mgr_inv_def tables_ok_def)
  moreover have "keeps_others rid m ?m" by (auto simp: keeps_others_def req_blocks_def)
  ultimately show thesis using that[of ?m p'] p'(1,3,4) by (simp add: base_free_def)
qed

lemma real_update:
  assumes "n < length bs" "bs ! n \<noteq> Blk 0"
  shows "mset (real bs) = add_mset (bs ! n) (mset (real (bs[n := Blk 0])))"
proof -
  have "mset (real (bs[n := Blk 0])) = filter_mset (\<lambda>b. b \<noteq> Blk 0) (add_mset (Blk 0) (mset bs - {#bs ! n#}))"
    using assms(1) by (simp add: mset_update)
  then show ?thesis using assms by simp
qed

lemma strip_loop_split:
  "n \<le> length bs \<Longrightarrow> strip_loop (Blk 0) n bs = (removed, bs') \<Longrightarrow>
   mset (real bs) = mset (real removed) + mset (real bs') \<and> set removed \<subseteq> set bs \<and> set bs' \<subseteq> insert (Blk 0) (set bs) \<and>
   length bs' = length bs \<and> Blk 0 \<notin> set removed"
proof (induction n arbitrary: bs removed bs')
  case (Suc n)
  show ?case
  proof (cases "bs ! n = Blk 0")
    case False
    obtain rm xs where rec: "strip_loop (Blk 0) n (bs[n := Blk 0]) = (rm, xs)" by fastforce
    then have res: "removed = bs ! n # rm" "bs' = xs" using Suc.prems(2) False by auto
    have n: "n < length bs" using Suc.prems(1) by simp
    have ih: "mset (real (bs[n := Blk 0])) = mset (real rm) + mset (real xs)" "set rm \<subseteq> set (bs[n := Blk 0])"
      "set xs \<subseteq> insert (Blk 0) (set (bs[n := Blk 0]))" "length xs = length bs" "Blk 0 \<notin> set rm"
      using Suc.IH[OF _ rec] n by auto
    have "mset (real bs) = mset (real removed) + mset (real bs')"
      using real_update[OF n False] ih(1) False by (simp add: res)
    moreover have "set (bs[n := Blk 0]) \<subseteq> insert (Blk 0) (set bs)" by (rule set_update_subset_insert)
    ultimately show ?thesis using ih(2-5) False n unfolding res by (auto dest: subsetD)
  qed (use Suc.prems in auto)
qed auto

definition releases :: "string \<Rightarrow> st_manager \<Rightarrow> block_pool \<Rightarrow> st_manager \<Rightarrow> block_pool \<Rightarrow> bool" where
  "releases rid m p m' p' \<longleftrightarrow> same_config p p' \<and> keeps_others rid m m' \<and> get_num_free_blocks p \<le> get_num_free_blocks p' \<and>
     length (req_blocks m' rid) = length (req_blocks m rid) \<and> num_cached_block m' = num_cached_block m \<and>
     allocated_block_reqs m' = allocated_block_reqs m"

lemma releases_refl [simp]: "releases rid m p m p"
  and releases_ensure_req [simp]: "releases rid m p (ensure_req rid m) p"
  and releases_trans: "releases rid m p m' p' \<Longrightarrow> releases rid m' p' m'' p'' \<Longrightarrow> releases rid m p m'' p''"
  using same_config_trans keeps_others_trans by (auto simp: releases_def)

lemma base_remove_skipped_inv:
  assumes inv: "mgr_inv others m p"
  obtains m' p' where "base_remove_skipped m p rid computed = Inr (m', p')" "mgr_inv others m' p'" "releases rid m p m' p'"
proof (cases "get_num_skipped_tokens m computed \<le> 0")
  case True
  then show thesis using that[of m p] inv by (simp add: base_remove_skipped_def)
next
  case False
  let ?m = "ensure_req rid m"
  let ?n = "nat (min (get_num_skipped_tokens m computed div mgr_block_size m) (int (length (req_blocks m rid))))"
  note inv1 = ensure_req_inv[OF inv, of rid] and null = mgr_invD(4)[OF inv]
  obtain removed bs where strip: "strip_loop (Blk 0) ?n (req_blocks ?m rid) = (removed, bs)" by fastforce
  have "?n \<le> length (req_blocks ?m rid)" by simp
  note s = strip_loop_split[OF this strip]
  obtain p' where p': "free_blocks removed p = Inr p'" "mgr_inv others (set_blocks rid bs ?m) p'" "same_config p p'"
    "get_num_free_blocks p \<le> get_num_free_blocks p'"
    by (rule give_back[OF inv1, of rid removed bs]) (use s in auto)
  have "base_remove_skipped m p rid computed = Inr (set_blocks rid bs ?m, p')"
    using False strip p'(1) by (simp add: base_remove_skipped_def Let_def null)
  moreover have "releases rid m p (set_blocks rid bs ?m) p'" using p' s by (simp add: releases_def)
  ultimately show thesis using that p'(2) by blast
qed

lemma py_nth_Inr: "py_nth xs i = Inr x \<Longrightarrow> \<exists>j < length xs. x = xs ! j \<and> (\<forall>v. py_set xs i v = Inr (xs[j := v]))"
proof -
  assume "py_nth xs i = Inr x"
  then have "\<not> (i < - int (length xs) \<or> int (length xs) \<le> i)" "x = xs ! nat (if i < 0 then i + int (length xs) else i)"
    by (simp_all add: py_nth_def split: if_split_asm)
  then show ?thesis by (intro exI[of _ "nat (if i < 0 then i + int (length xs) else i)"]) (auto simp: py_set_def)
qed

lemma release_last_state_inv:
  assumes inv: "mgr_inv others m p" and res: "release_last_state m p rid i = Inr (m', p')"
  shows "mgr_inv others m' p' \<and> releases rid m p m' p'"
proof -
  let ?m = "ensure_req rid m"
  let ?bs = "req_blocks ?m rid"
  note inv1 = ensure_req_inv[OF inv, of rid] and null = mgr_invD(4)[OF inv]
  from res obtain x where x: "py_nth ?bs i = Inr x"
    and r: "(if x = null_block p then Inr (?m, p)
        else bindE (free_blocks [x] p) (\<lambda>p1.
             bindE (py_set ?bs i (null_block p)) (\<lambda>bs'. Inr (set_blocks rid bs' ?m, p1)))) = Inr (m', p')"
    unfolding release_last_state_def Let_def by (elim bindE_InrE)
  show ?thesis
  proof (cases "x = Blk 0")
    case True
    then have "m' = ?m" "p' = p" using r null by simp_all
    then show ?thesis using inv1 by simp
  next
    case False
    obtain j where j: "j < length ?bs" "x = ?bs ! j" "py_set ?bs i (Blk 0) = Inr (?bs[j := Blk 0])"
      using py_nth_Inr[OF x] by blast
    obtain q where q: "free_blocks [x] p = Inr q" "mgr_inv others (set_blocks rid (?bs[j := Blk 0]) ?m) q" "same_config p q"
      "get_num_free_blocks p \<le> get_num_free_blocks q"
    proof (rule give_back[OF inv1, of rid "[x]" "?bs[j := Blk 0]"])
      show "mset (real ?bs) = mset (real [x]) + mset (real (?bs[j := Blk 0]))"
        using real_update[OF j(1)] False j(2) by simp
      show "set [x] \<subseteq> insert (Blk 0) (set ?bs)" using j(1,2) by simp
      show "set (?bs[j := Blk 0]) \<subseteq> insert (Blk 0) (set ?bs)" by (rule set_update_subset_insert)
    qed
    have "m' = set_blocks rid (?bs[j := Blk 0]) ?m" "p' = q" using r False null j(3) q(1) by simp_all
    then show ?thesis using q by (simp add: releases_def)
  qed
qed

lemma mamba_remove_skipped_inv:
  assumes inv: "mgr_inv others m p" and res: "mamba_remove_skipped f m p rid computed = Inr (m', p')"
  shows "mgr_inv others m' p' \<and> releases rid m p m' p'"
proof -
  let ?c = "max 0 (computed - num_speculative_blocks f)"
  obtain m1 p1 where b: "base_remove_skipped m p rid ?c = Inr (m1, p1)" "mgr_inv others m1 p1" "releases rid m p m1 p1"
    by (rule base_remove_skipped_inv[OF inv, of rid ?c])
  from res b(1) have "(if mamba_cache_mode f \<noteq> ''align'' then Inr (m1, p1)
      else case dget (last_state_block_idx m1) rid of None \<Rightarrow> Inr (m1, p1)
      | Some i \<Rightarrow> if i < cdiv ?c (mgr_block_size m1) - 1 then release_last_state m1 p1 rid i else Inr (m1, p1)) = Inr (m', p')"
    by (simp only: mamba_remove_skipped_def Let_def bindE_Inr case_prod_conv)
  then have "(m', p') = (m1, p1) \<or> (\<exists>i. release_last_state m1 p1 rid i = Inr (m', p'))"
    by (simp split: if_split_asm option.split_asm) blast+
  then consider "m' = m1" "p' = p1" | i where "release_last_state m1 p1 rid i = Inr (m', p')" by blast
  then show ?thesis
  proof cases
    case 1
    then show ?thesis using b(2,3) by simp
  next
    case 2
    from release_last_state_inv[OF b(2) this] show ?thesis using releases_trans[OF b(3)] by blast
  qed
qed

lemma mgr_remove_skipped_inv:
  assumes inv: "mgr_inv others m p" and res: "mgr_remove_skipped m p rid computed = Inr (m', p')"
  shows "mgr_inv others m' p' \<and> releases rid m p m' p'"
proof -
  obtain m1 p1 where "base_remove_skipped m p rid computed = Inr (m1, p1)" "mgr_inv others m1 p1" "releases rid m p m1 p1"
    by (rule base_remove_skipped_inv[OF inv])
  then show ?thesis using res mamba_remove_skipped_inv[OF inv]
    by (auto simp: mgr_remove_skipped_def split: kv_cache_spec.split_asm)
qed

text \<open>Only managers of running states in align mode look up blocks by index and may fail.\<close>

definition align_mode :: "st_manager \<Rightarrow> bool" where
  "align_mode m \<longleftrightarrow> (case mgr_spec m of MambaSpec f \<Rightarrow> mamba_cache_mode f = ''align'' | _ \<Rightarrow> False)"

lemma mgr_remove_skipped_returns:
  assumes inv: "mgr_inv others m p" and mode: "\<not> align_mode m"
  obtains m' p' where "mgr_remove_skipped m p rid computed = Inr (m', p')"
proof (cases "mgr_spec m")
  case (MambaSpec f)
  obtain m1 p1 where "base_remove_skipped m p rid (max 0 (computed - num_speculative_blocks f)) = Inr (m1, p1)"
    by (rule base_remove_skipped_inv[OF inv])
  then show thesis using that[of m1 p1] MambaSpec mode
    by (simp add: mgr_remove_skipped_def mamba_remove_skipped_def align_mode_def Let_def)
qed (use base_remove_skipped_inv[OF inv, of rid computed] that in \<open>auto simp: mgr_remove_skipped_def\<close>)

section \<open>Running states in align mode\<close>

lemma reuse_blocks_real:
  "reuse_blocks (Blk 0) n is bs = Inr bs' \<Longrightarrow> \<forall>i \<in> set is. 0 \<le> i \<Longrightarrow>
   mset (real bs') = mset (real bs) \<and> set bs' \<subseteq> insert (Blk 0) (set bs)"
proof (induction "is" arbitrary: bs)
  case (Cons i "is")
  show ?case
  proof (cases "i < n")
    case True
    from Cons.prems(1) True obtain b bs1 where b: "py_nth bs i = Inr b" "py_set (bs @ [b]) i (Blk 0) = Inr bs1"
      "reuse_blocks (Blk 0) n is bs1 = Inr bs'" by (auto simp: bindE_Inr_iff)
    have j: "nat i < length bs" "b = bs ! nat i" "bs1 = bs[nat i := Blk 0] @ [b]"
      using b(1,2) Cons.prems(2) by (auto simp: py_nth_def py_set_def list_update_append1 split: if_split_asm)
    have "mset (real bs1) = mset (real bs)"
    proof (cases "b = Blk 0")
      case True
      then have "bs[nat i := Blk 0] = bs" using j(2) by (metis list_update_id)
      then show ?thesis using j(3) True by simp
    next
      case False
      then show ?thesis using real_update[OF j(1)] j(2,3) by simp
    qed
    moreover have "set bs1 \<subseteq> insert (Blk 0) (set bs)" using j set_update_subset_insert[of bs "nat i" "Blk 0"] by auto
    ultimately show ?thesis using Cons.IH[OF b(3)] Cons.prems(2) by auto
  qed (use Cons.prems in auto)
qed auto

lemma reuse_blocks_length:
  "reuse_blocks null n [a..b] bs = Inr bs' \<Longrightarrow>
   int (length bs') = int (length bs) + max 0 (min (b + 1) n - a)"
proof (induction a b arbitrary: bs rule: upto.induct)
  case (1 a b)
  show ?case
  proof (cases "a \<le> b \<and> a < n")
    case True
    with 1(2) obtain x bs1 where b: "py_set (bs @ [x]) a null = Inr bs1" "reuse_blocks null n [a + 1..b] bs1 = Inr bs'"
      by (auto simp: upto_rec1[of a b] bindE_Inr_iff)
    have "length bs1 = Suc (length bs)" using b(1) by (auto simp: py_set_def split: if_split_asm)
    then show ?thesis using 1(1)[OF _ b(2)] True by simp
  next
    case False
    then show ?thesis using 1(2) by (cases "a \<le> b") (auto simp: upto_rec1[of a b])
  qed
qed

lemma align_moved:
  assumes spec: "0 \<le> spec" and long: "allocated \<Longrightarrow> spec \<le> int (length bs)"
    and less: "int (length bs) < required"
    and r: "(if allocated then reuse_blocks (Blk 0) (required - spec - 1) [int (length bs) - spec..int (length bs) - 1]
        (bs @ replicate (nat (required - spec - 1 - int (length bs))) (Blk 0))
      else Inr (bs @ replicate (nat (required - spec - 1 - int (length bs))) (Blk 0))) = Inr bs1"
  shows "mset (real bs1) = mset (real bs) \<and> set bs1 \<subseteq> insert (Blk 0) (set bs) \<and> int (length bs1) < required"
proof -
  let ?pad = "bs @ replicate (nat (required - spec - 1 - int (length bs))) (Blk 0)"
  have pad: "mset (real ?pad) = mset (real bs)" "set ?pad \<subseteq> insert (Blk 0) (set bs)" by auto
  show ?thesis
  proof (cases allocated)
    case True
    then have u: "reuse_blocks (Blk 0) (required - spec - 1) [int (length bs) - spec..int (length bs) - 1] ?pad = Inr bs1"
      using r by simp
    have "\<forall>i \<in> set [int (length bs) - spec..int (length bs) - 1]. 0 \<le> i" using long[OF True] by auto
    from reuse_blocks_real[OF u this] pad have "mset (real bs1) = mset (real bs)" "set bs1 \<subseteq> insert (Blk 0) (set bs)" by auto
    then show ?thesis using reuse_blocks_length[OF u] less spec by (simp split: if_splits)
  next
    case False
    then have "bs1 = ?pad" using r by simp
    then show ?thesis using pad less spec by simp
  qed
qed

lemma align_allocate_new_blocks_inv:
  assumes inv: "mgr_inv others m p" and spec: "0 \<le> num_speculative_blocks f"
    and st: "rid \<in> allocated_block_reqs m \<Longrightarrow> num_speculative_blocks f \<le> int (length (req_blocks m rid))"
    and res: "align_allocate_new_blocks f m p rid tokens = Inr (new, m', p')"
  shows "mgr_inv others m' p' \<and> same_config p p' \<and> keeps_others rid m m' \<and>
    int (length (req_blocks m' rid)) = cdiv tokens (mgr_block_size m) + num_speculative_blocks f"
proof (cases "cdiv tokens (mgr_block_size m) + num_speculative_blocks f = int (length (req_blocks m rid))")
  case True
  then have "m' = ensure_req rid m" "p' = p" using res by (simp_all add: align_allocate_new_blocks_def Let_def)
  then show ?thesis using True ensure_req_inv[OF inv] by simp
next
  case False
  let ?s = "num_speculative_blocks f" and ?bs = "req_blocks m rid" and ?m = "ensure_req rid m"
  let ?r = "cdiv tokens (mgr_block_size m) + ?s" and ?a = "rid \<in> allocated_block_reqs m"
  let ?pad = "?bs @ replicate (nat (?r - ?s - 1 - int (length ?bs))) (Blk 0)"
  from res[unfolded align_allocate_new_blocks_def Let_def mgr_invD(4)[OF inv] req_blocks_ensure_req ensure_req_fields] False
  obtain bs1 nb where less: "int (length ?bs) < ?r"
    and bs1: "(if ?a then reuse_blocks (Blk 0) (?r - ?s - 1) [int (length ?bs) - ?s..int (length ?bs) - 1] ?pad
      else Inr ?pad) = Inr bs1"
    and g: "get_new_blocks p (?r - int (length bs1)) = Inr (nb, p')"
    and m': "m' = (set_blocks rid (bs1 @ nb) ?m)
        \<lparr>last_state_block_idx := align_state_idx f ?a (int (length ?bs)) rid (last_state_block_idx m),
         allocated_block_reqs := insert rid (allocated_block_reqs m)\<rparr>"
    by (auto simp only: if_False bindE_Inr_iff assertE_Inr_iff split_paired_Ex case_prod_conv sum.inject prod.inject simp_thms)
  note moved = align_moved[OF spec st less bs1]
  have n: "0 \<le> ?r - int (length bs1)" "?r - int (length bs1) \<le> get_num_free_blocks p"
    using moved get_new_blocks_fails[OF mgr_invD(1)[OF inv] g] by simp_all
  have "mset (real bs1) = mset (real (req_blocks ?m rid))" "set bs1 \<subseteq> insert (Blk 0) (set (req_blocks ?m rid))"
    using moved by simp_all
  from alloc_permuted[OF ensure_req_inv[OF inv] n this] g
  have a: "mgr_inv others (set_blocks rid (bs1 @ nb) ?m) p'" "same_config p p'" "length nb = nat (?r - int (length bs1))"
    by (metis Inr_inject Pair_inject)+
  have "mgr_inv others m' p'" by (rule mgr_inv_fields[OF a(1)]) (simp add: m')
  moreover have "keeps_others rid m m'" by (auto simp: m' keeps_others_def)
  ultimately show ?thesis using a(2,3) n(1) by (simp add: m')
qed

section \<open>Caching\<close>

lemma base_cache_blocks_inv:
  assumes inv: "mgr_inv others m p" and e: "enable_caching p" and res: "base_cache_blocks sha256 m p r tokens = Inr (m', p', r')"
  shows "mgr_inv others m' p' \<and> same_config p p' \<and> keeps_others (request_id r) m m'"
proof (cases "tokens div mgr_block_size m \<le> cached_count m (request_id r)")
  case True
  then show ?thesis using res inv by (simp add: base_cache_blocks_def Let_def)
next
  case False
  let ?m = "ensure_req (request_id r) m"
  from res False obtain n where c: "cache_full_blocks sha256 r (req_blocks ?m (request_id r)) (cached_count m (request_id r))
      (tokens div mgr_block_size m) (mgr_block_size m) (kv_cache_group_id m) p = Inr (p', r')"
    and m': "m' = ?m\<lparr>num_cached_block := dset (request_id r) n (num_cached_block ?m)\<rparr>"
    by (auto simp: base_cache_blocks_def Let_def bindE_Inr_iff)
  note inv1 = ensure_req_inv[OF inv, of "request_id r"]
  obtain "is" where i: "req_blocks ?m (request_id r) = map Blk is" "\<forall>i \<in> set is. i = 0 \<or> in_pool p i"
    using mgr_invD(3)[OF inv1, of "request_id r"] unfolding list_ok_def by blast
  have h: "pool_holds p' (\<lambda>i. others i + table_refs ?m i) \<and> same_config p p'"
    by (rule pool_holds_cache[OF mgr_invD(1)[OF inv1] c[unfolded i(1)] e i(2)])
  have "mgr_inv others ?m p'" by (rule mgr_inv_pool[OF inv1]) (use h in simp_all)
  then have "mgr_inv others m' p'" by (rule mgr_inv_fields) (simp add: m')
  moreover have "keeps_others (request_id r) m m'" by (auto simp: m' keeps_others_def)
  ultimately show ?thesis using h by simp
qed

lemma mamba_cache_blocks_inv:
  assumes inv: "mgr_inv others m p" and e: "enable_caching p" and res: "mamba_cache_blocks sha256 m p r tokens = Inr (m', p', r')"
  shows "mgr_inv others m' p' \<and> same_config p p' \<and> keeps_others (request_id r) m m'"
proof -
  from res obtain m1 p1 r1 where b: "base_cache_blocks sha256 m p r tokens = Inr (m1, p1, r1)"
    and r: "(let before = cached_count m (request_id r); after = cached_count m1 (request_id r) in
       if before < after
       then let m2 = ensure_req (request_id r) m1 in
         bindE (foldE (note_cached p1) (py_slice (req_blocks m2 (request_id r)) before after) (cached_blocks_this_step m2)) (\<lambda>hs.
           Inr (m2\<lparr>cached_blocks_this_step := hs\<rparr>, p1, r1))
       else Inr (m1, p1, r1)) = Inr (m', p', r')"
    unfolding mamba_cache_blocks_def by (elim bindE_InrE) (auto split: prod.splits)
  note i = base_cache_blocks_inv[OF inv e b]
  have "m' = m1 \<or> (\<exists>hs. m' = (ensure_req (request_id r) m1)\<lparr>cached_blocks_this_step := hs\<rparr>)" and "p' = p1"
    using r by (auto simp: Let_def bindE_Inr_iff split: if_split_asm)
  then show ?thesis
    using i mgr_inv_fields[OF ensure_req_inv, of others m1 p1 m' "request_id r"] by auto
qed

section \<open>Every class of manager\<close>

text \<open>In align mode a request that got blocks before keeps at least its speculative blocks.\<close>

definition states_ok :: "st_manager \<Rightarrow> bool" where
  "states_ok m \<longleftrightarrow> (\<forall>f. mgr_spec m = MambaSpec f \<longrightarrow> 0 \<le> num_speculative_blocks f \<and>
     (mamba_cache_mode f \<noteq> ''align'' \<longrightarrow> allocated_block_reqs m = {}) \<and>
     (\<forall>rid \<in> allocated_block_reqs m. num_speculative_blocks f \<le> int (length (req_blocks m rid))))"

definition mgr_ok :: "(nat \<Rightarrow> nat) \<Rightarrow> st_manager \<Rightarrow> block_pool \<Rightarrow> bool" where
  "mgr_ok others m p \<longleftrightarrow> mgr_inv others m p \<and> states_ok m \<and> 0 < mgr_block_size m \<and> window_ok (mgr_spec m)"

lemma mgr_okD: assumes "mgr_ok others m p"
  shows "mgr_inv others m p" "states_ok m" "0 < mgr_block_size m" "window_ok (mgr_spec m)"
  using assms by (simp_all add: mgr_ok_def)

lemma states_ok_grows:
  assumes "states_ok m" "keeps_others rid m m'" "allocated_block_reqs m' \<subseteq> allocated_block_reqs m"
    "rid \<in> allocated_block_reqs m' \<Longrightarrow> length (req_blocks m rid) \<le> length (req_blocks m' rid)"
  shows "states_ok m'"
  unfolding states_ok_def
proof (intro allI impI conjI ballI)
  fix f assume "mgr_spec m' = MambaSpec f"
  then have f: "mgr_spec m = MambaSpec f" using assms(2) by (simp add: keeps_others_def)
  show "0 \<le> num_speculative_blocks f" using assms(1) f by (simp add: states_ok_def)
  show "allocated_block_reqs m' = {}" if "mamba_cache_mode f \<noteq> ''align''"
    using assms(1,3) f that by (auto simp: states_ok_def)
  fix r assume r: "r \<in> allocated_block_reqs m'"
  then have "num_speculative_blocks f \<le> int (length (req_blocks m r))" using assms(1,3) f by (auto simp: states_ok_def)
  then show "num_speculative_blocks f \<le> int (length (req_blocks m' r))"
    using assms(2,4) r by (cases "r = rid") (auto simp: keeps_others_def)
qed

lemma mgr_ok_step:
  assumes "mgr_ok others m p" "mgr_inv others m' p'" "keeps_others rid m m'" "states_ok m'"
  shows "mgr_ok others m' p'"
  using assms by (simp add: mgr_ok_def keeps_others_def)

lemma mgr_remove_skipped_ok:
  assumes ok: "mgr_ok others m p" and res: "mgr_remove_skipped m p rid computed = Inr (m', p')"
  shows "mgr_ok others m' p' \<and> releases rid m p m' p'"
proof -
  note r = mgr_remove_skipped_inv[OF mgr_okD(1)[OF ok] res]
  then have "states_ok m'" by (intro states_ok_grows[OF mgr_okD(2)[OF ok], of rid]) (auto simp: releases_def)
  then show ?thesis using r mgr_ok_step[OF ok, of m' p' rid] by (simp add: releases_def)
qed

lemma mgr_free_ok:
  assumes ok: "mgr_ok others m p"
  obtains m' p' where "mgr_free m p rid = Inr (m', p')" "mgr_ok others m' p'" "same_config p p'" "keeps_others rid m m'"
    "req_to_blocks m' = ddel rid (req_to_blocks m)" "num_cached_block m' = ddel rid (num_cached_block m)"
proof -
  let ?m = "case mgr_spec m of MambaSpec f \<Rightarrow> if mamba_cache_mode f = ''align''
        then m\<lparr>allocated_block_reqs := allocated_block_reqs m - {rid}, last_state_block_idx := ddel rid (last_state_block_idx m)\<rparr> else m
      | _ \<Rightarrow> m"
  have m: "mgr_free m p rid = base_free ?m p rid" "req_to_blocks ?m = req_to_blocks m" "num_cached_block ?m = num_cached_block m"
    "keeps_others rid m ?m"
    by (auto simp: mgr_free_def keeps_others_def req_blocks_def split: kv_cache_spec.split)
  have inv: "mgr_inv others ?m p" by (rule mgr_inv_fields[OF mgr_okD(1)[OF ok] m(2)])
  obtain m' p' where f: "base_free ?m p rid = Inr (m', p')" "mgr_inv others m' p'" "same_config p p'"
    "req_to_blocks m' = ddel rid (req_to_blocks ?m)" "keeps_others rid ?m m'" "num_cached_block m' = ddel rid (num_cached_block ?m)"
    "get_num_free_blocks p \<le> get_num_free_blocks p'" by (rule base_free_inv[OF inv])
  have a: "allocated_block_reqs m' = allocated_block_reqs ?m" using f(1) by (auto simp: base_free_def bindE_Inr_iff)
  have k: "keeps_others rid m m'" by (rule keeps_others_trans[OF m(4) f(5)])
  have "states_ok m'"
  proof (cases "\<exists>f. mgr_spec m = MambaSpec f")
    case True
    then obtain g where g: "mgr_spec m = MambaSpec g" by blast
    show ?thesis
    proof (rule states_ok_grows[OF mgr_okD(2)[OF ok] k])
      show "allocated_block_reqs m' \<subseteq> allocated_block_reqs m" unfolding a g by auto
      show "length (req_blocks m rid) \<le> length (req_blocks m' rid)" if "rid \<in> allocated_block_reqs m'"
        using that mgr_okD(2)[OF ok] g unfolding a by (auto simp: states_ok_def split: if_split_asm)
    qed
  next
    case False
    then show ?thesis using k by (auto simp: states_ok_def keeps_others_def)
  qed
  then have "mgr_ok others m' p'" by (rule mgr_ok_step[OF ok f(2) k])
  then show thesis using that f m k by simp
qed

lemma base_allocate_new_blocks_partial:
  assumes inv: "mgr_inv others m p" and res: "base_allocate_new_blocks m p rid tokens = Inr (new, m', p')"
  shows "mgr_inv others m' p' \<and> same_config p p' \<and> keeps_others rid m m' \<and>
    length (req_blocks m rid) \<le> length (req_blocks m' rid) \<and> allocated_block_reqs m' = allocated_block_reqs m"
proof -
  have "cdiv tokens (mgr_block_size m) - int (length (req_blocks m rid)) \<le> get_num_free_blocks p"
  proof (cases "cdiv tokens (mgr_block_size m) - int (length (req_blocks m rid)) \<le> 0")
    case True
    moreover have "0 \<le> get_num_free_blocks p" using pool_holds_free[OF mgr_invD(1)[OF inv]] by simp
    ultimately show ?thesis by linarith
  next
    case False
    then show ?thesis using res get_new_blocks_fails[OF mgr_invD(1)[OF inv]]
      by (auto simp: base_allocate_new_blocks_def Let_def bindE_Inr_iff)
  qed
  from base_allocate_new_blocks_inv[OF inv this] obtain new1 m1 p1 where
    "base_allocate_new_blocks m p rid tokens = Inr (new1, m1, p1)" "mgr_inv others m1 p1" "same_config p p1" "keeps_others rid m m1"
    "req_blocks m1 rid = req_blocks m rid @ new1" by metis
  moreover have "allocated_block_reqs m' = allocated_block_reqs m"
    using res by (auto simp: base_allocate_new_blocks_def Let_def bindE_Inr_iff split: if_split_asm)
  ultimately show ?thesis using res by simp
qed

lemma allocate_new_blocks_ok:
  assumes ok: "mgr_ok others m p" and tokens: "0 \<le> tokens_main"
    and res: "allocate_new_blocks m p rid tokens tokens_main = Inr (new, m', p')"
  shows "mgr_ok others m' p' \<and> same_config p p' \<and> keeps_others rid m m'"
proof -
  consider (base) t where "base_allocate_new_blocks m p rid t = Inr (new, m', p')"
    | (align) f where "mgr_spec m = MambaSpec f" "mamba_cache_mode f = ''align''" "align_allocate_new_blocks f m p rid tokens_main = Inr (new, m', p')"
    using res by (auto simp: allocate_new_blocks_def split: kv_cache_spec.split_asm if_split_asm)
  then show ?thesis
  proof cases
    case base
    note b = base_allocate_new_blocks_partial[OF mgr_okD(1)[OF ok] base]
    then have "states_ok m'" by (intro states_ok_grows[OF mgr_okD(2)[OF ok], of rid]) auto
    then show ?thesis using b mgr_ok_step[OF ok, of m' p' rid] by simp
  next
    case align
    have s: "0 \<le> num_speculative_blocks f" "rid \<in> allocated_block_reqs m \<Longrightarrow> num_speculative_blocks f \<le> int (length (req_blocks m rid))"
      using mgr_okD(2)[OF ok] align(1) by (simp_all add: states_ok_def)
    note a = align_allocate_new_blocks_inv[OF mgr_okD(1)[OF ok] s align(3)]
    have "0 \<le> cdiv tokens_main (mgr_block_size m)" by (rule cdiv_nonneg[OF mgr_okD(3)[OF ok] tokens])
    then have "num_speculative_blocks f \<le> int (length (req_blocks m' rid))" using a by simp
    then have "states_ok m'" using mgr_okD(2)[OF ok] a align(1,2) unfolding states_ok_def keeps_others_def
      by (metis insertE kv_cache_spec.inject subsetD)
    then show ?thesis using a mgr_ok_step[OF ok, of m' p' rid] by simp
  qed
qed

lemma base_allocate_new_computed_grows:
  assumes "base_allocate_new_computed m p rid computed num_local num_external = Inr (m', p')"
  shows "length (req_blocks m rid) \<le> length (req_blocks m' rid)" "allocated_block_reqs m' = allocated_block_reqs m"
  using assms by (auto simp: base_allocate_new_computed_def Let_def bindE_Inr_iff split: if_split_asm)

lemma allocate_new_computed_blocks_ok:
  assumes ok: "mgr_ok others m p" and l: "list_ok p computed" and ext: "0 \<le> num_external"
    and len: "int (length computed) * mgr_block_size m \<le> num_local"
    and res: "allocate_new_computed_blocks m p rid computed num_local num_external = Inr (m', p')"
  shows "mgr_ok others m' p' \<and> same_config p p' \<and> keeps_others rid m m'"
proof (cases "\<exists>a. mgr_spec m = CrossAttentionSpec a")
  case True
  then have "m' = m" "p' = p" using res by (auto simp: allocate_new_computed_blocks_def bindE_Inr_iff)
  then show ?thesis using ok by simp
next
  case False
  then have b: "base_allocate_new_computed m p rid computed num_local num_external = Inr (m', p')"
    using res by (auto simp: allocate_new_computed_blocks_def split: kv_cache_spec.split_asm)
  note i = base_allocate_new_computed_inv[OF mgr_okD(1)[OF ok] l mgr_okD(3,4)[OF ok] ext len b]
  then have "states_ok m'"
    using base_allocate_new_computed_grows[OF b] by (intro states_ok_grows[OF mgr_okD(2)[OF ok], of rid]) auto
  then show ?thesis using i mgr_ok_step[OF ok, of m' p' rid] by simp
qed

lemma base_cache_blocks_frame:
  assumes "base_cache_blocks sha256 m p r tokens = Inr (m', p', r')"
  shows "req_blocks m' = req_blocks m" "allocated_block_reqs m' = allocated_block_reqs m"
  using assms by (auto simp: base_cache_blocks_def Let_def bindE_Inr_iff fun_eq_iff split: if_split_asm)

lemma mgr_cache_blocks_frame:
  assumes "mgr_cache_blocks sha256 m p r tokens = Inr (m', p', r')"
  shows "req_blocks m' = req_blocks m" "allocated_block_reqs m' = allocated_block_reqs m"
proof -
  obtain m1 p1 r1 where b: "base_cache_blocks sha256 m p r tokens = Inr (m1, p1, r1)"
    and m': "m' = m1 \<or> (\<exists>hs. m' = (ensure_req (request_id r) m1)\<lparr>cached_blocks_this_step := hs\<rparr>)"
    using assms by (auto simp: mgr_cache_blocks_def mamba_cache_blocks_def Let_def bindE_Inr_iff
        split: kv_cache_spec.split_asm if_split_asm)
  show "req_blocks m' = req_blocks m" "allocated_block_reqs m' = allocated_block_reqs m"
    using m' base_cache_blocks_frame[OF b] by (auto simp: fun_eq_iff)
qed

lemma mgr_cache_blocks_ok:
  assumes ok: "mgr_ok others m p" and e: "enable_caching p" and res: "mgr_cache_blocks sha256 m p r tokens = Inr (m', p', r')"
  shows "mgr_ok others m' p' \<and> same_config p p' \<and> keeps_others (request_id r) m m'"
proof -
  have i: "mgr_inv others m' p' \<and> same_config p p' \<and> keeps_others (request_id r) m m'"
    using res base_cache_blocks_inv[OF mgr_okD(1)[OF ok] e] mamba_cache_blocks_inv[OF mgr_okD(1)[OF ok] e]
    by (auto simp: mgr_cache_blocks_def split: kv_cache_spec.split_asm)
  then have "states_ok m'"
    using mgr_cache_blocks_frame[OF res] by (intro states_ok_grows[OF mgr_okD(2)[OF ok], of "request_id r"]) auto
  then show ?thesis using i mgr_ok_step[OF ok, of m' p' "request_id r"] by simp
qed

lemma get_num_blocks_frame:
  assumes "get_num_blocks_to_allocate m p rid tokens computed total_computed tokens_main = Inr (n, m')"
  shows "m' = m \<or> m' = ensure_req rid m"
  using assms by (auto simp: get_num_blocks_to_allocate_def mamba_num_blocks_to_allocate_def align_num_blocks_to_allocate_def
      Let_def bindE_Inr_iff split: kv_cache_spec.split_asm if_split_asm)

lemma ensure_req_ok: "mgr_ok others m p \<Longrightarrow> mgr_ok others (ensure_req rid m) p"
  using ensure_req_inv[of others m p rid] by (simp add: mgr_ok_def states_ok_def)

end
