(* ===== verification/Coordinator.thy ===== *)
theory Coordinator
  imports Cache_Hits Manager_Runs
begin

text \<open>
  The coordinator of all cache groups, \<open>vllm/v1/core/kv_cache_coordinator.py\<close>: one manager per group,
  one block pool for all of them. The three subclasses differ in their constructor, in the
  prefix cache lookup and in the common prefix; \<open>coordinator_class\<close> holds what each of them adds. The
  pool the managers share is a field of the coordinator and is passed to each manager in turn.
\<close>

section \<open>State and construction\<close>

datatype coordinator_class =
    NoPrefixCache
  | Unitary kv_cache_spec int int int
  | Hybrid int "(kv_cache_spec \<times> nat list) list" int

record coordinator =
  coord_config :: kv_cache_config
  coord_max_model_len :: int
  coord_caching :: bool
  coord_pool :: block_pool
  coord_eagle :: bool
  managers :: "st_manager list"
  coord_class :: coordinator_class

record coord_args =
  arg_max_model_len :: int
  arg_eagle :: bool
  arg_caching :: bool
  arg_events :: bool
  arg_int_hashes :: bool
  arg_dcp :: int
  arg_pcp :: int
  arg_hash_block_size :: int
  arg_metrics :: bool

fun init_managers :: "bool \<Rightarrow> int \<Rightarrow> int \<Rightarrow> int \<Rightarrow> kv_cache_group_spec list \<Rightarrow> block_pool \<Rightarrow> (st_manager list \<times> block_pool) result" where
  "init_managers caching dcp pcp i [] p = Inr ([], p)"
| "init_managers caching dcp pcp i (g # gs) p =
     bindE (get_manager_for_kv_cache_spec (group_spec g) caching i dcp pcp p) (\<lambda>(m, p1).
     bindE (init_managers caching dcp pcp (i + 1) gs p1) (\<lambda>(ms, p2). Inr (m # ms, p2)))"

definition coordinator_init :: "coord_args \<Rightarrow> bool \<Rightarrow> kv_cache_config \<Rightarrow> coordinator result" where
  "coordinator_init args caching cfg =
     bindE (pool_init (num_blocks cfg) caching (arg_hash_block_size args) (arg_events args) (arg_int_hashes args) (arg_metrics args)) (\<lambda>p.
     bindE (init_managers caching (arg_dcp args) (arg_pcp args) 0 (kv_cache_groups cfg) p) (\<lambda>(ms, p1).
       Inr \<lparr>coord_config = cfg, coord_max_model_len = arg_max_model_len args, coord_caching = caching, coord_pool = p1,
            coord_eagle = arg_eagle args, managers = ms, coord_class = NoPrefixCache\<rparr>))"

definition no_prefix_init :: "coord_args \<Rightarrow> kv_cache_config \<Rightarrow> coordinator result" where
  "no_prefix_init args cfg = coordinator_init args False cfg"

definition unitary_block_size :: "coord_args \<Rightarrow> kv_cache_spec \<Rightarrow> int" where
  "unitary_block_size args spec =
     (let bs = spec_block_size spec;
          bs1 = (if 1 < arg_dcp args then bs * arg_dcp args else bs)
      in if 1 < arg_pcp args then bs1 * arg_pcp args else bs1)"

definition unitary_init :: "coord_args \<Rightarrow> kv_cache_config \<Rightarrow> coordinator result" where
  "unitary_init args cfg =
     bindE (coordinator_init args (arg_caching args) cfg) (\<lambda>c.
     case kv_cache_groups cfg of
       [] \<Rightarrow> Inl IndexError
     | g # gs \<Rightarrow>
         let bs = unitary_block_size args (group_spec g)
         in bindE (assertE (\<not> arg_caching args \<or> arg_hash_block_size args = bs)) (\<lambda>_.
            bindE (assertE (gs = [])) (\<lambda>_.
              Inr (c\<lparr>coord_class := Unitary (group_spec g) bs (arg_dcp args) (arg_pcp args)\<rparr>))))"

fun add_group :: "kv_cache_spec \<Rightarrow> nat \<Rightarrow> (kv_cache_spec \<times> nat list) list \<Rightarrow> (kv_cache_spec \<times> nat list) list" where
  "add_group spec i [] = [(spec, [i])]"
| "add_group spec i ((s, ids) # rest) =
     (if s = spec then (s, ids @ [i]) # rest else (s, ids) # add_group spec i rest)"

definition split_groups :: "kv_cache_group_spec list \<Rightarrow> (kv_cache_spec \<times> nat list) list" where
  "split_groups gs = foldl (\<lambda>acc (i, g). add_group (group_spec g) i acc) [] (enumerate 0 gs)"

definition full_attention_first :: "(kv_cache_spec \<times> nat list) list \<Rightarrow> (kv_cache_spec \<times> nat list) list" where
  "full_attention_first gs = filter (\<lambda>(s, _). is_full_attention s) gs @ filter (\<lambda>(s, _). \<not> is_full_attention s) gs"

definition verify_and_split_kv_cache_groups :: "kv_cache_group_spec list \<Rightarrow> ((kv_cache_spec \<times> nat list) list \<times> int) result" where
  "verify_and_split_kv_cache_groups gs =
     (let groups = split_groups gs in
      bindE (assertE (1 < length groups)) (\<lambda>_.
        Inr (full_attention_first groups, fold (\<lambda>grp. lcm (spec_block_size (fst grp))) groups 1)))"

definition hybrid_init :: "coord_args \<Rightarrow> kv_cache_config \<Rightarrow> coordinator result" where
  "hybrid_init args cfg =
     bindE (coordinator_init args (arg_caching args) cfg) (\<lambda>c.
     bindE (assertE (\<forall>g \<in> set (kv_cache_groups cfg). spec_block_size (group_spec g) mod arg_hash_block_size args = 0)) (\<lambda>_.
     bindE (assertE (arg_dcp args = 1)) (\<lambda>_.
     bindE (assertE (arg_pcp args = 1)) (\<lambda>_.
     bindE (verify_and_split_kv_cache_groups (kv_cache_groups cfg)) (\<lambda>(groups, l).
       Inr (c\<lparr>coord_class := Hybrid (arg_hash_block_size args) groups l\<rparr>))))))"

definition get_kv_cache_coordinator :: "coord_args \<Rightarrow> kv_cache_config \<Rightarrow> coordinator result" where
  "get_kv_cache_coordinator args cfg =
     (if \<not> arg_caching args then no_prefix_init args cfg
      else if length (kv_cache_groups cfg) = 1 then unitary_init args cfg
      else hybrid_init args cfg)"

section \<open>Operations on every manager\<close>

text \<open>The loop over the managers; \<open>x\<close> is what the loop body accumulates.\<close>

fun for_managers :: "(nat \<Rightarrow> st_manager \<Rightarrow> block_pool \<Rightarrow> 'x \<Rightarrow> (st_manager \<times> block_pool \<times> 'x) result) \<Rightarrow>
    nat \<Rightarrow> st_manager list \<Rightarrow> block_pool \<Rightarrow> 'x \<Rightarrow> (st_manager list \<times> block_pool \<times> 'x) result" where
  "for_managers f i [] p x = Inr ([], p, x)"
| "for_managers f i (m # ms) p x =
     bindE (f i m p x) (\<lambda>(m1, p1, x1).
     bindE (for_managers f (Suc i) ms p1 x1) (\<lambda>(ms1, p2, x2). Inr (m1 # ms1, p2, x2)))"

definition with_managers :: "(nat \<Rightarrow> st_manager \<Rightarrow> block_pool \<Rightarrow> 'x \<Rightarrow> (st_manager \<times> block_pool \<times> 'x) result) \<Rightarrow>
    'x \<Rightarrow> coordinator \<Rightarrow> ('x \<times> coordinator) result" where
  "with_managers f x c =
     bindE (for_managers f 0 (managers c) (coord_pool c) x) (\<lambda>(ms, p, x1). Inr (x1, c\<lparr>managers := ms, coord_pool := p\<rparr>))"

abbreviation is_cross_attention :: "st_manager \<Rightarrow> bool" where
  "is_cross_attention m \<equiv> (case mgr_spec m of CrossAttentionSpec a \<Rightarrow> True | _ \<Rightarrow> False)"

definition count_step :: "string \<Rightarrow> int \<Rightarrow> bref list list \<Rightarrow> int \<Rightarrow> int \<Rightarrow> int \<Rightarrow>
    nat \<Rightarrow> st_manager \<Rightarrow> block_pool \<Rightarrow> int \<Rightarrow> (st_manager \<times> block_pool \<times> int) result" where
  "count_step rid tokens computed num_encoder total_computed tokens_main i m p n =
     bindE (if is_cross_attention m then get_num_blocks_to_allocate m p rid num_encoder [] 0 num_encoder
            else bindE (py_nth computed (int i)) (\<lambda>bs. get_num_blocks_to_allocate m p rid tokens bs total_computed tokens_main))
       (\<lambda>(k, m1). Inr (m1, p, n + k))"

definition coord_num_blocks_to_allocate ::
    "coordinator \<Rightarrow> string \<Rightarrow> int \<Rightarrow> bref list list \<Rightarrow> int \<Rightarrow> int \<Rightarrow> int \<Rightarrow> (int \<times> coordinator) result" where
  "coord_num_blocks_to_allocate c rid tokens computed num_encoder total_computed tokens_main =
     with_managers (count_step rid tokens computed num_encoder total_computed tokens_main) 0 c"

definition computed_step :: "string \<Rightarrow> bref list list \<Rightarrow> int \<Rightarrow> int \<Rightarrow>
    nat \<Rightarrow> st_manager \<Rightarrow> block_pool \<Rightarrow> unit \<Rightarrow> (st_manager \<times> block_pool \<times> unit) result" where
  "computed_step rid computed num_local num_external i m p u =
     bindE (py_nth computed (int i)) (\<lambda>bs.
     bindE (allocate_new_computed_blocks m p rid bs num_local num_external) (\<lambda>(m1, p1). Inr (m1, p1, u)))"

definition coord_allocate_new_computed :: "coordinator \<Rightarrow> string \<Rightarrow> bref list list \<Rightarrow> int \<Rightarrow> int \<Rightarrow> (unit \<times> coordinator) result" where
  "coord_allocate_new_computed c rid computed num_local num_external =
     with_managers (computed_step rid computed num_local num_external) () c"

definition new_step :: "string \<Rightarrow> int \<Rightarrow> int \<Rightarrow> int \<Rightarrow>
    nat \<Rightarrow> st_manager \<Rightarrow> block_pool \<Rightarrow> bref list list \<Rightarrow> (st_manager \<times> block_pool \<times> bref list list) result" where
  "new_step rid tokens tokens_main num_encoder i m p acc =
     bindE (allocate_new_blocks m p rid (if is_cross_attention m then num_encoder else tokens) tokens_main) (\<lambda>(bs, m1, p1).
       Inr (m1, p1, acc @ [bs]))"

definition coord_allocate_new_blocks :: "coordinator \<Rightarrow> string \<Rightarrow> int \<Rightarrow> int \<Rightarrow> int \<Rightarrow> (bref list list \<times> coordinator) result" where
  "coord_allocate_new_blocks c rid tokens tokens_main num_encoder =
     with_managers (new_step rid tokens tokens_main num_encoder) [] c"

definition cache_step_of :: "(bytes \<Rightarrow> bytes) \<Rightarrow> int \<Rightarrow>
    nat \<Rightarrow> st_manager \<Rightarrow> block_pool \<Rightarrow> request \<Rightarrow> (st_manager \<times> block_pool \<times> request) result" where
  "cache_step_of sha256 tokens i m p r = mgr_cache_blocks sha256 m p r tokens"

definition coord_cache_blocks :: "(bytes \<Rightarrow> bytes) \<Rightarrow> coordinator \<Rightarrow> request \<Rightarrow> int \<Rightarrow> (request \<times> coordinator) result" where
  "coord_cache_blocks sha256 c r tokens = with_managers (cache_step_of sha256 tokens) r c"

definition free_step :: "string \<Rightarrow> nat \<Rightarrow> st_manager \<Rightarrow> block_pool \<Rightarrow> unit \<Rightarrow> (st_manager \<times> block_pool \<times> unit) result" where
  "free_step rid i m p u = bindE (mgr_free m p rid) (\<lambda>(m1, p1). Inr (m1, p1, u))"

definition coord_free :: "coordinator \<Rightarrow> string \<Rightarrow> (unit \<times> coordinator) result" where
  "coord_free c rid = with_managers (free_step rid) () c"

definition skipped_step :: "string \<Rightarrow> int \<Rightarrow> nat \<Rightarrow> st_manager \<Rightarrow> block_pool \<Rightarrow> unit \<Rightarrow> (st_manager \<times> block_pool \<times> unit) result" where
  "skipped_step rid total_computed i m p u = bindE (mgr_remove_skipped m p rid total_computed) (\<lambda>(m1, p1). Inr (m1, p1, u))"

definition coord_remove_skipped :: "coordinator \<Rightarrow> string \<Rightarrow> int \<Rightarrow> (unit \<times> coordinator) result" where
  "coord_remove_skipped c rid total_computed = with_managers (skipped_step rid total_computed) () c"

definition prefix_step :: "string \<Rightarrow> nat \<Rightarrow> st_manager \<Rightarrow> block_pool \<Rightarrow> int list \<Rightarrow> (st_manager \<times> block_pool \<times> int list) result" where
  "prefix_step rid i m p acc = (let (n, m1) = mgr_common_prefix m p rid in Inr (m1, p, acc @ [n]))"

definition coord_common_prefix :: "coordinator \<Rightarrow> string \<Rightarrow> (int list \<times> coordinator) result" where
  "coord_common_prefix c rid =
     (if coord_class c = NoPrefixCache then Inr (map (\<lambda>_. 0) (managers c), c)
      else with_managers (prefix_step rid) [] c)"

definition coord_get_blocks :: "coordinator \<Rightarrow> string \<Rightarrow> bref list list" where
  "coord_get_blocks c rid = map (\<lambda>m. req_blocks m rid) (managers c)"

definition coord_new_step_starts :: "coordinator \<Rightarrow> coordinator" where
  "coord_new_step_starts c = c\<lparr>managers := map mgr_new_step_starts (managers c)\<rparr>"

section \<open>Prefix cache lookup over all groups\<close>

definition group_hashes :: "int \<Rightarrow> bytes list \<Rightarrow> kv_cache_spec \<Rightarrow> hash_list result" where
  "group_hashes hbs hashes spec =
     (if spec_block_size spec = hbs then Inr (Plain hashes)
      else bindE (hlv_init hashes hbs (spec_block_size spec)) (\<lambda>v. Inr (View v)))"

definition store_hits :: "nat list \<Rightarrow> bref list list \<Rightarrow> bref list option list \<Rightarrow> bref list option list" where
  "store_hits ids cols hits = foldl (\<lambda>h (g, c). h[g := Some c]) hits (zip ids cols)"

definition group_hit :: "block_pool \<Rightarrow> int \<Rightarrow> bytes list \<Rightarrow> bool \<Rightarrow> int \<Rightarrow> kv_cache_spec \<times> nat list \<Rightarrow>
    int \<times> bref list option list \<Rightarrow> (int \<times> bref list option list) result" where
  "group_hit p hbs hashes eagle l grp st =
     (let (spec, ids) = grp; (cur, hits) = st in
      if is_full_attention spec \<and> hits ! hd ids \<noteq> None
      then Inr (cur div spec_block_size spec * spec_block_size spec, hits)
      else bindE (group_hashes hbs hashes spec) (\<lambda>hl.
           bindE (find_longest_cache_hit p hl cur (map int ids) spec eagle l 1 1) (\<lambda>cols.
           case cols of
             [] \<Rightarrow> Inl IndexError
           | c # _ \<Rightarrow> Inr (int (length c) * spec_block_size spec, store_hits ids cols hits))))"

partial_function (option) hybrid_loop :: "block_pool \<Rightarrow> int \<Rightarrow> bytes list \<Rightarrow> bool \<Rightarrow> int \<Rightarrow> (kv_cache_spec \<times> nat list) list \<Rightarrow> bool \<Rightarrow>
    int \<Rightarrow> bref list option list \<Rightarrow> (bref list option list \<times> int) result option" where
  "hybrid_loop p hbs hashes eagle l groups simple hit_length hits =
     (case foldE (group_hit p hbs hashes eagle l) groups (hit_length, hits) of
        Inl e \<Rightarrow> Some (Inl e)
      | Inr (cur, hits1) \<Rightarrow>
          if hit_length \<le> cur then Some (Inr (hits1, hit_length))
          else if simple then Some (Inr (hits1, cur))
          else hybrid_loop p hbs hashes eagle l groups simple cur hits1)"

declare hybrid_loop.simps [code]

definition truncate_full :: "(kv_cache_spec \<times> nat list) list \<Rightarrow> int \<Rightarrow> bref list option list \<Rightarrow> bref list option list" where
  "truncate_full groups hit_length hits =
     (case groups of
        [] \<Rightarrow> hits
      | (spec, ids) # _ \<Rightarrow>
          if is_full_attention spec
          then foldl (\<lambda>h g. h[g := map_option (\<lambda>bs. py_slice bs 0 (hit_length div spec_block_size spec)) (h ! g)]) hits ids
          else hits)"

definition hybrid_find :: "block_pool \<Rightarrow> int \<Rightarrow> bytes list \<Rightarrow> bool \<Rightarrow> int \<Rightarrow> (kv_cache_spec \<times> nat list) list \<Rightarrow> nat \<Rightarrow> int \<Rightarrow>
    (bref list list \<times> int) result option" where
  "hybrid_find p hbs hashes eagle l groups n max_length =
     (let simple = (length groups = 2 \<and> is_full_attention (fst (hd groups))) in
      map_option (\<lambda>r. bindE r (\<lambda>(hits, hit_length).
          Inr (map (\<lambda>h. case h of None \<Rightarrow> [] | Some bs \<Rightarrow> bs) (truncate_full groups hit_length hits), hit_length)))
        (hybrid_loop p hbs hashes eagle l groups simple max_length (replicate n None)))"

definition unitary_find :: "block_pool \<Rightarrow> bytes list \<Rightarrow> bool \<Rightarrow> kv_cache_spec \<Rightarrow> int \<Rightarrow> int \<Rightarrow> int \<Rightarrow> int \<Rightarrow> (bref list list \<times> int) result" where
  "unitary_find p hashes eagle spec bs dcp pcp max_length =
     bindE (find_longest_cache_hit p (Plain hashes) max_length [0] spec eagle bs dcp pcp) (\<lambda>cols.
     case cols of [] \<Rightarrow> Inl IndexError | c # _ \<Rightarrow> Inr (cols, int (length c) * bs))"

definition coord_find_longest_cache_hit :: "coordinator \<Rightarrow> bytes list \<Rightarrow> int \<Rightarrow> (bref list list \<times> int) result option" where
  "coord_find_longest_cache_hit c hashes max_length =
     (case coord_class c of
        NoPrefixCache \<Rightarrow> Some (Inr (map (\<lambda>_. []) (managers c), 0))
      | Unitary spec bs dcp pcp \<Rightarrow> Some (unitary_find (coord_pool c) hashes (coord_eagle c) spec bs dcp pcp max_length)
      | Hybrid hbs groups l \<Rightarrow>
          hybrid_find (coord_pool c) hbs hashes (coord_eagle c) l groups (length (kv_cache_groups (coord_config c))) max_length)"

end
