(* ===== verification/Coordinator_Runs.thy ===== *)
theory Coordinator_Runs
  imports Coordinator
begin

text \<open>
  The invariant of the coordinator: the references the pool counts are the occurrences of a block
  in the tables of all managers together. \<open>manager_loop\<close> is the contract of a loop body that runs
  over the managers; every operation of the coordinator is an instance.
\<close>

section \<open>All managers\<close>

definition all_refs :: "st_manager list \<Rightarrow> nat \<Rightarrow> nat" where
  "all_refs ms i = (\<Sum>m\<leftarrow>ms. table_refs m i)"

lemma all_refs_simps [simp]: "all_refs [] i = 0" "all_refs (m # ms) i = table_refs m i + all_refs ms i"
  by (simp_all add: all_refs_def)

definition part_ok :: "block_pool \<Rightarrow> st_manager \<Rightarrow> bool" where
  "part_ok p m \<longleftrightarrow> tables_ok p m \<and> states_ok m \<and> 0 < mgr_block_size m \<and> window_ok (mgr_spec m)"

definition all_ok :: "(nat \<Rightarrow> nat) \<Rightarrow> st_manager list \<Rightarrow> block_pool \<Rightarrow> bool" where
  "all_ok others ms p \<longleftrightarrow> pool_holds p (\<lambda>i. others i + all_refs ms i) \<and> (\<forall>m \<in> set ms. part_ok p m)"

lemma part_ok_config: "same_config p p' \<Longrightarrow> part_ok p' m = part_ok p m"
  by (simp add: part_ok_def tables_ok_def list_ok_config[of p p'])

lemma mgr_ok_iff: "mgr_ok others m p \<longleftrightarrow> pool_holds p (\<lambda>i. others i + table_refs m i) \<and> part_ok p m"
  by (auto simp: mgr_ok_def mgr_inv_def part_ok_def)

lemma all_ok_Cons:
  "all_ok others (m # ms) p \<longleftrightarrow> mgr_ok (\<lambda>i. others i + all_refs ms i) m p \<and> (\<forall>m \<in> set ms. part_ok p m)"
  by (simp add: all_ok_def mgr_ok_iff ac_simps)

lemma all_ok_Cons':
  "all_ok others (m # ms) p \<longleftrightarrow> all_ok (\<lambda>i. others i + table_refs m i) ms p \<and> part_ok p m"
  by (auto simp: all_ok_def ac_simps)

lemma all_ok_next:
  assumes "all_ok others (m # ms) p" "mgr_ok (\<lambda>i. others i + all_refs ms i) m' p'" "same_config p p'"
  shows "all_ok (\<lambda>i. others i + table_refs m' i) ms p'"
  using assms part_ok_config[OF assms(3)] by (simp add: all_ok_Cons all_ok_def mgr_ok_iff ac_simps)

locale manager_loop =
  fixes f :: "nat \<Rightarrow> st_manager \<Rightarrow> block_pool \<Rightarrow> 'x \<Rightarrow> (st_manager \<times> block_pool \<times> 'x) result"
    and pre :: "nat \<Rightarrow> st_manager \<Rightarrow> block_pool \<Rightarrow> bool"
    and acc :: "'x \<Rightarrow> bool"
    and rel :: "st_manager \<Rightarrow> st_manager \<Rightarrow> bool"
  assumes step: "mgr_ok others m p \<Longrightarrow> pre i m p \<Longrightarrow> acc x \<Longrightarrow> f i m p x = Inr (m', p', x') \<Longrightarrow>
      mgr_ok others m' p' \<and> same_config p p' \<and> rel m m' \<and> acc x'"
    and pre_config: "same_config p p' \<Longrightarrow> pre i m p \<Longrightarrow> pre i m p'"
begin

lemma loop:
  assumes "all_ok others ms p" "\<forall>j < length ms. pre (i + j) (ms ! j) p" "acc x" "for_managers f i ms p x = Inr (ms', p', x')"
  shows "all_ok others ms' p' \<and> same_config p p' \<and> list_all2 rel ms ms' \<and> acc x'"
  using assms
proof (induction ms arbitrary: others i p x ms' p' x')
  case Nil
  then show ?case by simp
next
  case (Cons m ms)
  from Cons.prems(4) obtain m1 p1 x1 ms1 where f: "f i m p x = Inr (m1, p1, x1)"
    and r: "for_managers f (Suc i) ms p1 x1 = Inr (ms1, p', x')" and ms': "ms' = m1 # ms1"
    by (auto simp: bindE_Inr_iff)
  have "mgr_ok (\<lambda>i. others i + all_refs ms i) m p" using Cons.prems(1) by (simp add: all_ok_Cons)
  moreover have "pre i m p" using Cons.prems(2) by fastforce
  ultimately have s: "mgr_ok (\<lambda>i. others i + all_refs ms i) m1 p1" "same_config p p1" "rel m m1" "acc x1"
    using step[OF _ _ Cons.prems(3) f] by blast+
  note a = all_ok_next[OF Cons.prems(1) s(1,2)]
  have "\<forall>j < length ms. pre (Suc i + j) (ms ! j) p1" using Cons.prems(2) pre_config[OF s(2)] by fastforce
  from Cons.IH[OF a this s(4) r] have h: "all_ok (\<lambda>i. others i + table_refs m1 i) ms1 p'" "same_config p1 p'"
    "list_all2 rel ms ms1" "acc x'" by blast+
  have "part_ok p' m1" using s(1) part_ok_config[OF h(2)] by (simp add: mgr_ok_iff)
  then show ?case using h s ms' same_config_trans[OF s(2) h(2)] by (simp add: all_ok_Cons')
qed

end

section \<open>The coordinator\<close>

definition coord_inv :: "coordinator \<Rightarrow> bool" where
  "coord_inv c \<longleftrightarrow> all_ok (\<lambda>i. 0) (managers c) (coord_pool c) \<and> enable_caching (coord_pool c) = coord_caching c"

text \<open>What an operation for one request leaves alone.\<close>

definition coord_frame :: "string \<Rightarrow> coordinator \<Rightarrow> coordinator \<Rightarrow> bool" where
  "coord_frame rid c c' \<longleftrightarrow> list_all2 (keeps_others rid) (managers c) (managers c') \<and> same_config (coord_pool c) (coord_pool c') \<and>
     coord_config c' = coord_config c \<and> coord_max_model_len c' = coord_max_model_len c \<and> coord_caching c' = coord_caching c \<and>
     coord_eagle c' = coord_eagle c \<and> coord_class c' = coord_class c"

lemma coord_frame_refl [simp]: "coord_frame rid c c"
  by (simp add: coord_frame_def list_all2_refl same_config_def)

lemma coord_frame_trans:
  assumes "coord_frame rid c c'" "coord_frame rid c' c''"
  shows "coord_frame rid c c''"
proof -
  have "list_all2 (keeps_others rid) (managers c) (managers c'')"
    by (rule list_all2_trans[OF keeps_others_trans]) (use assms in \<open>auto simp: coord_frame_def\<close>)
  then show ?thesis using assms by (simp add: coord_frame_def same_config_def)
qed

locale request_loop = manager_loop f pre acc "keeps_others rid"
  for f :: "nat \<Rightarrow> st_manager \<Rightarrow> block_pool \<Rightarrow> 'x \<Rightarrow> (st_manager \<times> block_pool \<times> 'x) result" and pre acc rid
begin

lemma with_managers_inv:
  assumes "coord_inv c" "\<forall>j < length (managers c). pre j (managers c ! j) (coord_pool c)" "acc x"
    "with_managers f x c = Inr (x', c')"
  shows "coord_inv c' \<and> coord_frame rid c c' \<and> acc x'"
proof -
  from assms(4) obtain ms p where r: "for_managers f 0 (managers c) (coord_pool c) x = Inr (ms, p, x')"
    and c': "c' = c\<lparr>managers := ms, coord_pool := p\<rparr>" by (auto simp: with_managers_def bindE_Inr_iff)
  have "all_ok (\<lambda>i. 0) (managers c) (coord_pool c)" "\<forall>j < length (managers c). pre (0 + j) (managers c ! j) (coord_pool c)"
    using assms(1,2) by (simp_all add: coord_inv_def)
  from loop[OF this assms(3) r] show ?thesis using assms(1) by (auto simp: coord_inv_def coord_frame_def c' same_config_def)
qed

end

text \<open>A loop whose body cannot fail reaches the last manager.\<close>

locale total_loop = manager_loop f pre acc rel
  for f :: "nat \<Rightarrow> st_manager \<Rightarrow> block_pool \<Rightarrow> 'x \<Rightarrow> (st_manager \<times> block_pool \<times> 'x) result" and pre acc rel +
  assumes returns: "mgr_ok others m p \<Longrightarrow> pre i m p \<Longrightarrow> acc x \<Longrightarrow> \<exists>r. f i m p x = Inr r"
begin

lemma loop_returns:
  assumes "all_ok others ms p" "\<forall>j < length ms. pre (i + j) (ms ! j) p" "acc x"
  shows "\<exists>r. for_managers f i ms p x = Inr r"
  using assms
proof (induction ms arbitrary: others i p x)
  case (Cons m ms)
  have ok: "mgr_ok (\<lambda>i. others i + all_refs ms i) m p" using Cons.prems(1) by (simp add: all_ok_Cons)
  have pre: "pre i m p" using Cons.prems(2) by fastforce
  obtain m1 p1 x1 where f: "f i m p x = Inr (m1, p1, x1)" using returns[OF ok pre Cons.prems(3)] by auto
  have s: "mgr_ok (\<lambda>i. others i + all_refs ms i) m1 p1" "same_config p p1" "acc x1"
    using step[OF ok pre Cons.prems(3) f] by blast+
  have "\<forall>j < length ms. pre (Suc i + j) (ms ! j) p1" using Cons.prems(2) pre_config[OF s(2)] by fastforce
  from Cons.IH[OF all_ok_next[OF Cons.prems(1) s(1,2)] this s(3)] f show ?case by auto
qed simp

lemma with_managers_returns:
  assumes "coord_inv c" "\<forall>j < length (managers c). pre j (managers c ! j) (coord_pool c)" "acc x"
  obtains x' c' where "with_managers f x c = Inr (x', c')" "list_all2 rel (managers c) (managers c')" "acc x'"
proof -
  have all: "all_ok (\<lambda>i. 0) (managers c) (coord_pool c)" "\<forall>j < length (managers c). pre (0 + j) (managers c ! j) (coord_pool c)"
    using assms(1,2) by (simp_all add: coord_inv_def)
  obtain ms p x' where r: "for_managers f 0 (managers c) (coord_pool c) x = Inr (ms, p, x')"
    using loop_returns[OF all assms(3)] by auto
  from loop[OF all assms(3) r] show thesis
    using that[of x' "c\<lparr>managers := ms, coord_pool := p\<rparr>"] r by (simp add: with_managers_def)
qed

end

section \<open>Instances\<close>

lemma py_nth_int: "py_nth xs (int i) = Inr x \<Longrightarrow> i < length xs \<and> x = xs ! i"
  by (simp add: py_nth_def split: if_split_asm)

interpretation skipped: request_loop "skipped_step rid n" "\<lambda>_ _ _. True" "\<lambda>_. True" rid for rid n
proof unfold_locales
  fix others m p i x m' p' x'
  assume "mgr_ok others m p" "skipped_step rid n i m p x = Inr (m', p', x')"
  then show "mgr_ok others m' p' \<and> same_config p p' \<and> keeps_others rid m m' \<and> True"
    using mgr_remove_skipped_ok[of others m p rid n m' p'] by (auto simp: skipped_step_def bindE_Inr_iff releases_def)
qed simp

interpretation counted: request_loop "count_step rid tokens computed enc tc tm" "\<lambda>_ _ _. True" "\<lambda>_. True" rid
  for rid tokens computed enc tc tm
proof unfold_locales
  fix others m p i x m' p' x'
  assume ok: "mgr_ok others m p" and "count_step rid tokens computed enc tc tm i m p x = Inr (m', p', x')"
  then obtain t bs c main n where "get_num_blocks_to_allocate m p rid t bs c main = Inr (n, m')" and "p' = p"
    by (auto simp: count_step_def bindE_Inr_iff split: if_split_asm)
  from get_num_blocks_frame[OF this(1)] this(2) have "m' = m \<or> m' = ensure_req rid m" "p' = p" by simp_all
  then show "mgr_ok others m' p' \<and> same_config p p' \<and> keeps_others rid m m' \<and> True" using ok ensure_req_ok by auto
qed simp

definition computed_ok :: "bref list list \<Rightarrow> int \<Rightarrow> int \<Rightarrow> nat \<Rightarrow> st_manager \<Rightarrow> block_pool \<Rightarrow> bool" where
  "computed_ok computed num_local num_external i m p \<longleftrightarrow>
     (i < length computed \<longrightarrow> list_ok p (computed ! i) \<and> int (length (computed ! i)) * mgr_block_size m \<le> num_local) \<and> 0 \<le> num_external"

interpretation computed: request_loop "computed_step rid computed nl ne" "computed_ok computed nl ne" "\<lambda>_. True" rid
  for rid computed nl ne
proof unfold_locales
  fix others m p i x m' p' x'
  assume ok: "mgr_ok others m p" and c: "computed_ok computed nl ne i m p" and r: "computed_step rid computed nl ne i m p x = Inr (m', p', x')"
  then obtain bs where bs: "py_nth computed (int i) = Inr bs" "allocate_new_computed_blocks m p rid bs nl ne = Inr (m', p')"
    by (auto simp: computed_step_def bindE_Inr_iff)
  have l: "list_ok p bs" "0 \<le> ne" "int (length bs) * mgr_block_size m \<le> nl" using c py_nth_int[OF bs(1)] by (simp_all add: computed_ok_def)
  from allocate_new_computed_blocks_ok[OF ok l bs(2)]
  show "mgr_ok others m' p' \<and> same_config p p' \<and> keeps_others rid m m' \<and> True" by simp
qed (simp add: computed_ok_def list_ok_config)

interpretation new: request_loop "new_step rid tokens tm enc" "\<lambda>_ _ _. 0 \<le> tm" "\<lambda>_. True" rid for rid tokens tm enc
proof unfold_locales
  fix others m p i x m' p' x'
  assume ok: "mgr_ok others m p" and t: "0 \<le> tm" and r: "new_step rid tokens tm enc i m p x = Inr (m', p', x')"
  then obtain t' bs where "allocate_new_blocks m p rid t' tm = Inr (bs, m', p')" by (auto simp: new_step_def bindE_Inr_iff)
  from allocate_new_blocks_ok[OF ok t this]
  show "mgr_ok others m' p' \<and> same_config p p' \<and> keeps_others rid m m' \<and> True" by simp
qed

interpretation freed: request_loop "free_step rid" "\<lambda>_ _ _. True" "\<lambda>_. True" rid for rid
proof unfold_locales
  fix others m p i x m' p' x'
  assume ok: "mgr_ok others m p" and r: "free_step rid i m p x = Inr (m', p', x')"
  show "mgr_ok others m' p' \<and> same_config p p' \<and> keeps_others rid m m' \<and> True"
    by (rule mgr_free_ok[OF ok, of rid]) (use r in \<open>auto simp: free_step_def\<close>)
qed simp

interpretation freed_all: total_loop "free_step rid" "\<lambda>_ _ _. True" "\<lambda>_. True"
  "\<lambda>m m'. req_to_blocks m' = ddel rid (req_to_blocks m)" for rid
proof unfold_locales
  fix others m p i x m' p' x'
  assume ok: "mgr_ok others m p" and r: "free_step rid i m p x = Inr (m', p', x')"
  show "mgr_ok others m' p' \<and> same_config p p' \<and> req_to_blocks m' = ddel rid (req_to_blocks m) \<and> True"
    by (rule mgr_free_ok[OF ok, of rid]) (use r in \<open>auto simp: free_step_def\<close>)
next
  fix others m p and i :: nat and x
  assume ok: "mgr_ok others m p"
  show "\<exists>r. free_step rid i m p x = Inr r" by (rule mgr_free_ok[OF ok, of rid]) (simp add: free_step_def)
qed simp

interpretation skipped_all: total_loop "skipped_step rid n" "\<lambda>_ m _. \<not> align_mode m" "\<lambda>_. True"
  "\<lambda>m m'. length (req_blocks m' rid) = length (req_blocks m rid) \<and> num_cached_block m' = num_cached_block m" for rid n
proof unfold_locales
  fix others m p i x m' p' x'
  assume "mgr_ok others m p" "skipped_step rid n i m p x = Inr (m', p', x')"
  then show "mgr_ok others m' p' \<and> same_config p p' \<and>
      (length (req_blocks m' rid) = length (req_blocks m rid) \<and> num_cached_block m' = num_cached_block m) \<and> True"
    using mgr_remove_skipped_ok[of others m p rid n m' p'] by (auto simp: skipped_step_def bindE_Inr_iff releases_def)
next
  fix others m p and i :: nat and x
  assume ok: "mgr_ok others m p" and mode: "\<not> align_mode m"
  show "\<exists>r. skipped_step rid n i m p x = Inr r"
    by (rule mgr_remove_skipped_returns[OF mgr_okD(1)[OF ok] mode, of rid n]) (simp add: skipped_step_def)
qed simp

interpretation prefix: request_loop "prefix_step rid" "\<lambda>_ _ _. True" "\<lambda>_. True" rid for rid
proof unfold_locales
  fix others m p i x m' p' x'
  assume ok: "mgr_ok others m p" and "prefix_step rid i m p x = Inr (m', p', x')"
  then have "m' = m \<or> m' = ensure_req rid m" "p' = p" by (auto simp: prefix_step_def mgr_common_prefix_def Let_def split: if_split_asm)
  then show "mgr_ok others m' p' \<and> same_config p p' \<and> keeps_others rid m m' \<and> True" using ok ensure_req_ok by auto
qed simp

text \<open>Caching may fill the memo of embedding hashes of a request and leaves the rest of it alone.\<close>

lemma event_extra_keys_frame: "event_extra_keys sha256 p blocks bs is k r = Inr (kss, r') \<Longrightarrow> \<exists>d. r' = r\<lparr>prompt_embeds_hashes := d\<rparr>"
proof (induction "is" arbitrary: k r kss)
  case Nil
  then have "r' = r\<lparr>prompt_embeds_hashes := prompt_embeds_hashes r\<rparr>" by simp
  then show ?case by (rule exI)
next
  case (Cons i "is")
  from Cons.prems obtain b where r: "(if is_null (blk p b) then event_extra_keys sha256 p blocks bs is k r
       else bindE (generate_block_hash_extra_keys sha256 r (i * bs) (i * bs + bs) k) (\<lambda>(ks, mm_idx', r').
            bindE (event_extra_keys sha256 p blocks bs is mm_idx' r') (\<lambda>(kss, r''). Inr (ks # kss, r'')))) = Inr (kss, r')"
    unfolding event_extra_keys.simps by (elim bindE_InrE)
  show ?case
  proof (cases "is_null (blk p b)")
    case True
    then show ?thesis using r Cons.IH by simp
  next
    case False
    then obtain ks j r1 kss1 where g: "generate_block_hash_extra_keys sha256 r (i * bs) (i * bs + bs) k = Inr (ks, j, r1)"
      "event_extra_keys sha256 p blocks bs is j r1 = Inr (kss1, r')" using r by (auto simp: bindE_Inr_iff)
    have "\<exists>d. r1 = r\<lparr>prompt_embeds_hashes := d\<rparr>" by (rule exI, rule generate_extra_keys_frame[OF g(1)])
    then obtain d where d: "r1 = r\<lparr>prompt_embeds_hashes := d\<rparr>" by blast
    obtain d' where "r' = r1\<lparr>prompt_embeds_hashes := d'\<rparr>" using Cons.IH[OF g(2)] by blast
    then have "r' = r\<lparr>prompt_embeds_hashes := d'\<rparr>" using d by simp
    then show ?thesis by blast
  qed
qed

lemma cache_full_blocks_frame:
  assumes "cache_full_blocks sha256 r blocks a b bs g p = Inr (p', r')"
  shows "\<exists>d. r' = r\<lparr>prompt_embeds_hashes := d\<rparr>"
proof -
  have "r' = r \<or> (\<exists>q hl nh e. stored_event sha256 q r blocks a b bs hl nh = Inr (e, r'))"
    using assms unfolding cache_full_blocks_def by (auto simp: bindE_Inr_iff split: if_split_asm)
  then consider "r' = r" | q hl nh e where "stored_event sha256 q r blocks a b bs hl nh = Inr (e, r')" by blast
  then show ?thesis
  proof cases
    case 1
    then have "r' = r\<lparr>prompt_embeds_hashes := prompt_embeds_hashes r\<rparr>" by simp
    then show ?thesis by (rule exI)
  next
    case 2
    then obtain kss where "event_extra_keys sha256 q blocks bs [a..b - 1] 0 r = Inr (kss, r')"
      unfolding stored_event_def by (elim bindE_InrE) (auto simp: bindE_Inr_iff)
    then show ?thesis by (rule event_extra_keys_frame)
  qed
qed

lemma mgr_cache_blocks_request:
  assumes "mgr_cache_blocks sha256 m p r tokens = Inr (m', p', r')"
  shows "\<exists>d. r' = r\<lparr>prompt_embeds_hashes := d\<rparr>"
proof -
  have "\<exists>m1 p1. base_cache_blocks sha256 m p r tokens = Inr (m1, p1, r')"
    using assms by (auto simp: mgr_cache_blocks_def mamba_cache_blocks_def Let_def bindE_Inr_iff
        split: kv_cache_spec.split_asm if_split_asm)
  then have "r' = r \<or> (\<exists>bs a b c g q. cache_full_blocks sha256 r bs a b c g p = Inr (q, r'))"
    by (auto simp: base_cache_blocks_def Let_def bindE_Inr_iff split: if_split_asm)
  moreover have "r = r\<lparr>prompt_embeds_hashes := prompt_embeds_hashes r\<rparr>" by simp
  ultimately show ?thesis using cache_full_blocks_frame by (metis (no_types))
qed

interpretation cached: request_loop "cache_step_of sha256 tokens" "\<lambda>_ _ p. enable_caching p"
    "\<lambda>r'. \<exists>d. r' = r\<lparr>prompt_embeds_hashes := d\<rparr>" "request_id r" for sha256 tokens r
proof unfold_locales
  fix others m p i x m' p' x'
  assume ok: "mgr_ok others m p" and e: "enable_caching p" and x: "\<exists>d. x = r\<lparr>prompt_embeds_hashes := d\<rparr>"
    and c: "cache_step_of sha256 tokens i m p x = Inr (m', p', x')"
  from c have c: "mgr_cache_blocks sha256 m p x tokens = Inr (m', p', x')" by (simp add: cache_step_of_def)
  obtain d d' where "x = r\<lparr>prompt_embeds_hashes := d\<rparr>" "x' = x\<lparr>prompt_embeds_hashes := d'\<rparr>"
    using x mgr_cache_blocks_request[OF c] by blast
  then have "x' = r\<lparr>prompt_embeds_hashes := d'\<rparr>" "request_id x = request_id r" by simp_all
  then show "mgr_ok others m' p' \<and> same_config p p' \<and> keeps_others (request_id r) m m' \<and> (\<exists>d. x' = r\<lparr>prompt_embeds_hashes := d\<rparr>)"
    using mgr_cache_blocks_ok[OF ok e c] by auto
qed (simp add: same_config_def)

end
