(* ===== verification/Coordinator_Hits.thy ===== *)
theory Coordinator_Hits
  imports Coordinator_Runs
begin

text \<open>
  The prefix cache lookup over several cache groups, \<open>HybridKVCacheCoordinator.find_longest_cache_hit\<close>:
  the iteration ends, and its result is a hit of the same number of tokens in every group.
\<close>

section \<open>The hits of one group of equal specifications\<close>

definition group_ok :: "block_pool \<Rightarrow> int \<Rightarrow> bytes list \<Rightarrow> kv_cache_spec \<times> nat list \<Rightarrow> int \<Rightarrow> bref list option list \<Rightarrow> bool" where
  "group_ok p hbs hashes grp len hits \<longleftrightarrow>
     (\<exists>hl cols n. group_hashes hbs hashes (fst grp) = Inr hl \<and> map ((!) hits) (snd grp) = map Some cols \<and>
        (if is_full_attention (fst grp)
         then hit_columns p hl (map int (snd grp)) 0 n cols \<and> len \<le> int n * spec_block_size (fst grp)
         else hit_columns p hl (map int (snd grp)) (nat (skipped_tokens (fst grp) len div spec_block_size (fst grp))) n cols \<and>
              int n * spec_block_size (fst grp) = len))"

definition group_wf :: "bool \<Rightarrow> int \<Rightarrow> nat \<Rightarrow> kv_cache_spec \<times> nat list \<Rightarrow> bool" where
  "group_wf eagle l n grp \<longleftrightarrow>
     0 < spec_block_size (fst grp) \<and> spec_block_size (fst grp) dvd l \<and> lookup_supported eagle l (fst grp) \<and>
     snd grp \<noteq> [] \<and> distinct (snd grp) \<and> (\<forall>g \<in> set (snd grp). g < n) \<and> int n < 2 ^ 32"

lemma store_hits_other: "g \<notin> set ids \<Longrightarrow> store_hits ids cols hits ! g = hits ! g"
  and length_store_hits [simp]: "length (store_hits ids cols hits) = length hits"
proof -
  show "g \<notin> set ids \<Longrightarrow> store_hits ids cols hits ! g = hits ! g"
    by (induction ids arbitrary: cols hits) (auto simp: store_hits_def zip_Cons1 split: list.split)
  show "length (store_hits ids cols hits) = length hits"
    by (induction ids arbitrary: cols hits) (auto simp: store_hits_def zip_Cons1 split: list.split)
qed

lemma store_hits_same:
  "distinct ids \<Longrightarrow> length cols = length ids \<Longrightarrow> \<forall>g \<in> set ids. g < length hits \<Longrightarrow>
   map ((!) (store_hits ids cols hits)) ids = map Some cols"
proof (induction ids arbitrary: cols hits)
  case (Cons g ids)
  then obtain c cs where cols: "cols = c # cs" "length cs = length ids" by (cases cols) auto
  have s: "store_hits (g # ids) cols hits = store_hits ids cs (hits[g := Some c])" by (simp add: store_hits_def cols)
  have "map ((!) (store_hits ids cs (hits[g := Some c]))) ids = map Some cs"
    using Cons.prems cols by (intro Cons.IH) simp_all
  moreover have "store_hits ids cs (hits[g := Some c]) ! g = Some c" using Cons.prems store_hits_other[of g ids cs] by simp
  ultimately show ?case using s by (simp add: cols)
qed simp

lemma group_ok_cong:
  "group_ok p hbs hashes grp len hits \<Longrightarrow> \<forall>g \<in> set (snd grp). hits' ! g = hits ! g \<Longrightarrow> group_ok p hbs hashes grp len hits'"
proof -
  assume "\<forall>g \<in> set (snd grp). hits' ! g = hits ! g"
  then have "map ((!) hits') (snd grp) = map ((!) hits) (snd grp)" by simp
  then show "group_ok p hbs hashes grp len hits \<Longrightarrow> group_ok p hbs hashes grp len hits'" unfolding group_ok_def by (simp only:)
qed

lemma group_ok_shorter:
  "is_full_attention (fst grp) \<Longrightarrow> group_ok p hbs hashes grp len hits \<Longrightarrow> len' \<le> len \<Longrightarrow> group_ok p hbs hashes grp len' hits"
  unfolding group_ok_def by (auto intro: order_trans)

lemma group_hit_cases:
  assumes "group_hit p hbs hashes eagle l (spec, ids) (cur, hits) = Inr (cur', hits')"
  obtains (kept) "is_full_attention spec" "hits ! hd ids \<noteq> None" "cur' = cur div spec_block_size spec * spec_block_size spec" "hits' = hits"
  | (found) hl c cs where "\<not> (is_full_attention spec \<and> hits ! hd ids \<noteq> None)" "group_hashes hbs hashes spec = Inr hl"
      "find_longest_cache_hit p hl cur (map int ids) spec eagle l 1 1 = Inr (c # cs)"
      "cur' = int (length c) * spec_block_size spec" "hits' = store_hits ids (c # cs) hits"
proof (cases "is_full_attention spec \<and> hits ! hd ids \<noteq> None")
  case True
  then have "cur' = cur div spec_block_size spec * spec_block_size spec" "hits' = hits" using assms by (simp_all add: group_hit_def)
  with True show thesis by (intro kept) simp_all
next
  case False
  from assms False obtain hl cols where hl: "group_hashes hbs hashes spec = Inr hl"
    and f: "find_longest_cache_hit p hl cur (map int ids) spec eagle l 1 1 = Inr cols"
    and r: "(case cols of [] \<Rightarrow> Inl IndexError | c # _ \<Rightarrow> Inr (int (length c) * spec_block_size spec, store_hits ids cols hits)) = Inr (cur', hits')"
    by (auto simp: group_hit_def bindE_Inr_iff)
  show thesis
  proof (cases cols)
    case (Cons c cs)
    then show thesis using found[OF False hl f[unfolded Cons]] r by simp
  qed (use r in simp)
qed

lemma group_hit_ok:
  assumes pool: "pool_run p held" and wf: "group_wf eagle l n grp" and len: "0 \<le> cur" "length hits = n"
    and cached: "is_full_attention (fst grp) \<Longrightarrow> hits ! hd (snd grp) \<noteq> None \<Longrightarrow>
      l dvd cur \<and> (\<exists>len \<ge> cur. group_ok p hbs hashes grp len hits)"
    and res: "group_hit p hbs hashes eagle l grp (cur, hits) = Inr (cur', hits')"
  shows "0 \<le> cur' \<and> cur' \<le> cur \<and> l dvd cur' \<and> group_ok p hbs hashes grp cur' hits' \<and> length hits' = n \<and>
    (\<forall>g. g \<notin> set (snd grp) \<longrightarrow> hits' ! g = hits ! g)"
proof -
  obtain spec ids where grp: "grp = (spec, ids)" by (cases grp)
  let ?bs = "spec_block_size spec"
  note w = wf[unfolded group_wf_def grp fst_conv snd_conv]
  from res[unfolded grp] show ?thesis
  proof (cases rule: group_hit_cases)
    case kept
    then obtain k where k: "l dvd cur" "cur \<le> k" "group_ok p hbs hashes grp k hits" using cached grp by auto
    have "?bs dvd cur" using w k(1) by (metis dvd_trans)
    then have "cur' = cur" using kept(3) by simp
    then show ?thesis using k group_ok_shorter[of grp p hbs hashes k hits cur] kept(1,4) len grp by simp
  next
    case (found hl c cs)
    note hl = found(2) and c = found(3) and r = found(4,5)
    have g: "groups_valid (map int ids)" using w by (auto simp: groups_valid_def)
    have bs: "hit_block_size spec 1 1 = ?bs" by (simp add: hit_block_size_def)
    have "hit_sound p hl (map int ids) spec ?bs cur l (c # cs)"
      using find_longest_cache_hit_sound[OF pool g _ len(1) _ c] w by (simp add: bs)
    then obtain k where k: "hit_columns p hl (map int ids) (nat (skipped_tokens spec (int k * ?bs) div ?bs)) k (c # cs)"
      "int k * ?bs \<le> cur" "l dvd int k * ?bs" unfolding hit_sound_def by blast
    have "length c = k" by (rule hit_columns_hd[OF k(1)])
    then have cur': "cur' = int k * ?bs" using r(1) by simp
    have "length (c # cs) = length ids" using list_all2_lengthD[OF k(1)] by simp
    then have m: "map ((!) hits') ids = map Some (c # cs)" unfolding r(2) using w len(2) by (intro store_hits_same) auto
    have "skipped_tokens spec x = 0" if "is_full_attention spec" for x using that by (cases spec) auto
    then have "group_ok p hbs hashes grp cur' hits'"
      unfolding group_ok_def grp fst_conv snd_conv
      by (intro exI[of _ hl] exI[of _ "c # cs"] exI[of _ k]) (use hl m k(1) cur' in auto)
    then show ?thesis using k(2,3) cur' r(2) store_hits_other[of _ ids] w len(2) by (simp add: grp)
  qed
qed

section \<open>One pass over all groups\<close>

definition cached_ok :: "block_pool \<Rightarrow> int \<Rightarrow> bytes list \<Rightarrow> int \<Rightarrow> (kv_cache_spec \<times> nat list) list \<Rightarrow> int \<Rightarrow> bref list option list \<Rightarrow> bool" where
  "cached_ok p hbs hashes l gs cur hits \<longleftrightarrow>
     (\<forall>grp \<in> set gs. is_full_attention (fst grp) \<longrightarrow> hits ! hd (snd grp) \<noteq> None \<longrightarrow>
        l dvd cur \<and> (\<exists>len \<ge> cur. group_ok p hbs hashes grp len hits))"

lemma cached_ok_next:
  assumes "cached_ok p hbs hashes l gs cur hits" "cur' \<le> cur" "l dvd cur'"
    and same: "\<forall>grp \<in> set gs. snd grp \<noteq> [] \<and> (\<forall>g \<in> set (snd grp). hits' ! g = hits ! g)"
  shows "cached_ok p hbs hashes l gs cur' hits'"
  unfolding cached_ok_def
proof (intro ballI impI conjI assms(3))
  fix grp assume grp: "grp \<in> set gs" "is_full_attention (fst grp)" "hits' ! hd (snd grp) \<noteq> None"
  have eq: "\<forall>g \<in> set (snd grp). hits' ! g = hits ! g" and "hd (snd grp) \<in> set (snd grp)" using same grp(1) by auto
  then have "hits ! hd (snd grp) \<noteq> None" using grp(3) by simp
  then obtain len where "cur \<le> len" "group_ok p hbs hashes grp len hits" using assms(1) grp unfolding cached_ok_def by blast
  then show "\<exists>len \<ge> cur'. group_ok p hbs hashes grp len hits'" using group_ok_cong[OF _ eq] assms(2) by (meson order_trans)
qed

lemma pass_ok:
  assumes pool: "pool_run p held" and wf: "\<forall>grp \<in> set gs. group_wf eagle l n grp" "distinct (concat (map snd gs))"
    and cur: "0 \<le> cur" "length hits = n" "cached_ok p hbs hashes l gs cur hits"
    and res: "foldE (group_hit p hbs hashes eagle l) gs (cur, hits) = Inr (cur', hits')"
  shows "0 \<le> cur' \<and> cur' \<le> cur \<and> length hits' = n \<and>
    (gs \<noteq> [] \<longrightarrow> l dvd cur' \<and> group_ok p hbs hashes (last gs) cur' hits') \<and>
    (\<forall>grp \<in> set gs. \<exists>len. cur' \<le> len \<and> len \<le> cur \<and> group_ok p hbs hashes grp len hits') \<and>
    (\<forall>g. g \<notin> set (concat (map snd gs)) \<longrightarrow> hits' ! g = hits ! g)"
  using wf cur res
proof (induction gs arbitrary: cur hits)
  case (Cons grp gs)
  from Cons.prems(6) obtain cur1 hits1 where h: "group_hit p hbs hashes eagle l grp (cur, hits) = Inr (cur1, hits1)"
    and r: "foldE (group_hit p hbs hashes eagle l) gs (cur1, hits1) = Inr (cur', hits')" by (auto simp: bindE_Inr_iff)
  have w: "group_wf eagle l n grp" using Cons.prems(1) by simp
  have g: "0 \<le> cur1" "cur1 \<le> cur" "l dvd cur1" "group_ok p hbs hashes grp cur1 hits1" "length hits1 = n"
    "\<forall>g. g \<notin> set (snd grp) \<longrightarrow> hits1 ! g = hits ! g"
    using group_hit_ok[OF pool w Cons.prems(3,4) _ h] Cons.prems(5) by (auto simp: cached_ok_def)
  have dis: "set (snd grp) \<inter> set (concat (map snd gs)) = {}" "distinct (concat (map snd gs))" using Cons.prems(2) by auto
  have "\<forall>q \<in> set gs. snd q \<noteq> [] \<and> (\<forall>g \<in> set (snd q). hits1 ! g = hits ! g)"
    using Cons.prems(1) g(6) dis(1) by (auto simp: group_wf_def)
  with Cons.prems(5) have "cached_ok p hbs hashes l gs cur1 hits1"
    by (intro cached_ok_next[OF _ g(2,3)]) (auto simp: cached_ok_def)
  from Cons.IH[OF _ dis(2) g(1,5) this r] Cons.prems(1)
  have i: "0 \<le> cur'" "cur' \<le> cur1" "length hits' = n" "gs \<noteq> [] \<longrightarrow> l dvd cur' \<and> group_ok p hbs hashes (last gs) cur' hits'"
    "\<forall>grp \<in> set gs. \<exists>len. cur' \<le> len \<and> len \<le> cur1 \<and> group_ok p hbs hashes grp len hits'"
    "\<forall>g. g \<notin> set (concat (map snd gs)) \<longrightarrow> hits' ! g = hits1 ! g" by auto
  have ok: "group_ok p hbs hashes grp cur1 hits'"
    by (rule group_ok_cong[OF g(4)]) (use i(6) dis(1) in auto)
  have last: "l dvd cur' \<and> group_ok p hbs hashes (last (grp # gs)) cur' hits'"
  proof (cases "gs = []")
    case True
    then have "cur' = cur1" using r by simp
    then show ?thesis using ok g(3) True by simp
  qed (use i(4) in simp)
  have "\<exists>len. cur' \<le> len \<and> len \<le> cur \<and> group_ok p hbs hashes q len hits'" if "q \<in> set (grp # gs)" for q
  proof (cases "q = grp")
    case True
    then show ?thesis using ok i(2) g(2) by blast
  next
    case False
    then show ?thesis using i(5) g(2) that by (metis order_trans set_ConsD)
  qed
  then show ?case using i g last by auto
qed simp

section \<open>The iteration\<close>

text \<open>
  Every pass that does not end the iteration shortens the candidate, which is never negative. When
  the iteration ends, all groups have accepted the same length.
\<close>

lemma group_hit_nonneg:
  "group_hit p hbs hashes eagle l grp (cur, hits) = Inr (cur', hits') \<Longrightarrow> 0 \<le> cur \<Longrightarrow> 0 < spec_block_size (fst grp) \<Longrightarrow> 0 \<le> cur'"
  by (cases grp) (auto simp: pos_imp_zdiv_nonneg_iff elim!: group_hit_cases)

lemma pass_nonneg:
  "foldE (group_hit p hbs hashes eagle l) gs (cur, hits) = Inr (cur', hits') \<Longrightarrow> 0 \<le> cur \<Longrightarrow>
   \<forall>grp \<in> set gs. 0 < spec_block_size (fst grp) \<Longrightarrow> 0 \<le> cur'"
proof (induction gs arbitrary: cur hits)
  case (Cons grp gs)
  then show ?case using group_hit_nonneg[of p hbs hashes eagle l grp cur hits] by (fastforce simp: bindE_Inr_iff)
qed simp

lemma hybrid_loop_returns:
  assumes "\<forall>grp \<in> set gs. 0 < spec_block_size (fst grp)" "0 \<le> h"
  shows "\<exists>r. hybrid_loop p hbs hashes eagle l gs simple h hits = Some r"
  using assms(2)
proof (induction "nat h" arbitrary: h hits rule: less_induct)
  case less
  show ?case
  proof (cases "foldE (group_hit p hbs hashes eagle l) gs (h, hits)")
    case (Inl e)
    then show ?thesis by (subst hybrid_loop.simps) simp
  next
    case (Inr x)
    then obtain cur hits1 where x: "foldE (group_hit p hbs hashes eagle l) gs (h, hits) = Inr (cur, hits1)" by (cases x) auto
    have "0 \<le> cur" by (rule pass_nonneg[OF x less.prems assms(1)])
    then have "\<exists>r. hybrid_loop p hbs hashes eagle l gs simple cur hits1 = Some r" if "cur < h"
      using less.hyps[of cur hits1] that by simp
    then show ?thesis by (subst hybrid_loop.simps) (auto simp: x)
  qed
qed

definition groups_wf :: "bool \<Rightarrow> int \<Rightarrow> nat \<Rightarrow> (kv_cache_spec \<times> nat list) list \<Rightarrow> bool" where
  "groups_wf eagle l n gs \<longleftrightarrow> gs \<noteq> [] \<and> (\<forall>grp \<in> set gs. group_wf eagle l n grp) \<and> distinct (concat (map snd gs))"

lemma hybrid_loop_ok:
  assumes pool: "pool_run p held" and wf: "groups_wf eagle l n gs"
    and simple: "simple \<longrightarrow> length gs = 2 \<and> is_full_attention (fst (hd gs))"
    and h: "0 \<le> h" "length hits = n" "cached_ok p hbs hashes l gs h hits"
    and res: "hybrid_loop p hbs hashes eagle l gs simple h hits = Some (Inr (hits', h'))"
  shows "0 \<le> h' \<and> h' \<le> h \<and> l dvd h' \<and> length hits' = n \<and> (\<forall>grp \<in> set gs. group_ok p hbs hashes grp h' hits')"
  using h res
proof (induction "nat h" arbitrary: h hits rule: less_induct)
  case less
  note w = wf[unfolded groups_wf_def]
  note u = trans[OF hybrid_loop.simps[symmetric] less.prems(4)]
  obtain y where y: "foldE (group_hit p hbs hashes eagle l) gs (h, hits) = Inr y"
    using u by (cases "foldE (group_hit p hbs hashes eagle l) gs (h, hits)") simp_all
  obtain cur hits1 where x: "foldE (group_hit p hbs hashes eagle l) gs (h, hits) = Inr (cur, hits1)" using y by (cases y) simp
  have ps: "0 \<le> cur" "cur \<le> h" "length hits1 = n" "l dvd cur" "group_ok p hbs hashes (last gs) cur hits1"
    "\<forall>grp \<in> set gs. \<exists>len. cur \<le> len \<and> len \<le> h \<and> group_ok p hbs hashes grp len hits1"
    using pass_ok[OF pool _ _ less.prems(1-3) x] w by simp_all
  have r: "(if h \<le> cur then Some (Inr (hits1, h)) else if simple then Some (Inr (hits1, cur))
      else hybrid_loop p hbs hashes eagle l gs simple cur hits1) = Some (Inr (hits', h'))"
    using u unfolding x by simp
  consider (accepted) "h \<le> cur" | (once) "cur < h" simple | (again) "cur < h" "\<not> simple" by (meson not_le)
  then show ?case
  proof cases
    case accepted
    then have eq: "cur = h" "hits' = hits1" "h' = h" using r ps(2) by simp_all
    have "group_ok p hbs hashes grp h hits1" if g: "grp \<in> set gs" for grp
    proof -
      obtain len where "cur \<le> len" "len \<le> h" "group_ok p hbs hashes grp len hits1" using ps(6)[rule_format, OF g] by blast
      moreover have "len = h" using calculation(1,2) eq(1) by simp
      ultimately show ?thesis by simp
    qed
    then show ?thesis using ps eq by simp
  next
    case once
    then have eq: "hits' = hits1" "h' = cur" using r by simp_all
    obtain a b where gs: "gs = [a, b]" using simple once(2) by (auto simp: length_Suc_conv numeral_2_eq_2)
    then have "is_full_attention (fst a)" using simple once(2) by simp
    moreover obtain len where len: "cur \<le> len" "group_ok p hbs hashes a len hits1" using ps(6)[rule_format, of a] gs by auto
    ultimately have "group_ok p hbs hashes a cur hits1" using group_ok_shorter[OF _ len(2,1)] by simp
    then show ?thesis using ps once(1) eq gs by simp
  next
    case again
    have c: "cached_ok p hbs hashes l gs cur hits1" unfolding cached_ok_def
    proof (intro ballI impI conjI ps(4))
      fix grp assume "grp \<in> set gs"
      from ps(6)[rule_format, OF this] show "\<exists>len \<ge> cur. group_ok p hbs hashes grp len hits1" by blast
    qed
    have n: "nat cur < nat h" using again(1) ps(1) by simp
    have "hybrid_loop p hbs hashes eagle l gs simple cur hits1 = Some (Inr (hits', h'))" using r again by simp
    from less.hyps[OF n ps(1,3) c this] show ?thesis using ps(2) by simp
  qed
qed

section \<open>The result\<close>

text \<open>The blocks of one cache group for a hit of \<open>len\<close> tokens.\<close>

definition group_hit_sound :: "block_pool \<Rightarrow> int \<Rightarrow> bytes list \<Rightarrow> kv_cache_spec \<Rightarrow> int \<Rightarrow> bref list \<Rightarrow> int \<Rightarrow> bool" where
  "group_hit_sound p hbs hashes spec len col g \<longleftrightarrow>
     spec_block_size spec dvd len \<and>
     (\<exists>hl. group_hashes hbs hashes spec = Inr hl \<and>
        hit_column p hl (nat (skipped_tokens spec len div spec_block_size spec)) (nat (len div spec_block_size spec)) col g)"

lemma truncate_nth:
  "distinct ids \<Longrightarrow> \<forall>g \<in> set ids. g < length hits \<Longrightarrow>
   foldl (\<lambda>h g. h[g := map_option f (h ! g)]) hits ids ! k = (if k \<in> set ids then map_option f (hits ! k) else hits ! k)"
  by (induction ids arbitrary: hits) (auto simp: nth_list_update)

lemma length_truncate: "length (foldl (\<lambda>h g. h[g := map_option f (h ! g)]) hits ids) = length hits"
  by (induction ids arbitrary: hits) auto

lemma group_ok_column:
  assumes "group_ok p hbs hashes (spec, ids) len hits" "g \<in> set ids" "spec_block_size spec dvd len" "0 < spec_block_size spec" "0 \<le> len"
  shows "\<exists>c. hits ! g = Some c \<and>
    group_hit_sound p hbs hashes spec len (if is_full_attention spec then py_slice c 0 (len div spec_block_size spec) else c) (int g)"
proof -
  let ?bs = "spec_block_size spec"
  obtain hl cols k where hl: "group_hashes hbs hashes spec = Inr hl" "map ((!) hits) ids = map Some cols"
    and c: "if is_full_attention spec then hit_columns p hl (map int ids) 0 k cols \<and> len \<le> int k * ?bs
         else hit_columns p hl (map int ids) (nat (skipped_tokens spec len div ?bs)) k cols \<and> int k * ?bs = len"
    using assms(1) unfolding group_ok_def fst_conv snd_conv by blast
  obtain j where j: "j < length ids" "ids ! j = g" using assms(2) by (auto simp: in_set_conv_nth)
  have "length cols = length ids" using arg_cong[OF hl(2), of length] by simp
  moreover have "hits ! g = map Some cols ! j" using arg_cong[OF hl(2), of "\<lambda>x. x ! j"] j by simp
  ultimately have hit: "hits ! g = Some (cols ! j)" using j(1) by simp
  show ?thesis
  proof (cases "is_full_attention spec")
    case True
    then have "hit_column p hl 0 k (cols ! j) (int g)" "len \<le> int k * ?bs" using c j by (auto simp: list_all2_conv_all_nth)
    moreover have "nat (len div ?bs) \<le> k" using calculation(2) assms(3,4) by (auto elim!: dvdE simp: mult.commute)
    moreover have "skipped_tokens spec len = 0" using True by (cases spec) auto
    ultimately have "hit_column p hl (nat (skipped_tokens spec len div ?bs)) (nat (len div ?bs)) (py_slice (cols ! j) 0 (len div ?bs)) (int g)"
      using assms(4,5) by (auto simp: hit_column_def pos_imp_zdiv_nonneg_iff min_def)
    then show ?thesis using hl(1) assms(3) True hit unfolding group_hit_sound_def by auto
  next
    case False
    then have "hit_column p hl (nat (skipped_tokens spec len div ?bs)) k (cols ! j) (int g)" "int k * ?bs = len"
      using c j by (auto simp: list_all2_conv_all_nth)
    moreover have "nat (len div ?bs) = k" using calculation(2) assms(4) by auto
    ultimately show ?thesis using hl(1) assms(3) False hit unfolding group_hit_sound_def by auto
  qed
qed

lemma hybrid_find_sound:
  assumes pool: "pool_run p held" and wf: "groups_wf eagle l n gs" and one: "\<forall>grp \<in> set (tl gs). \<not> is_full_attention (fst grp)"
    and max: "0 \<le> max_length" and res: "hybrid_find p hbs hashes eagle l gs n max_length = Some (Inr (cols, h))"
  shows "0 \<le> h \<and> h \<le> max_length \<and> l dvd h \<and> length cols = n \<and>
    (\<forall>(spec, ids) \<in> set gs. \<forall>g \<in> set ids. group_hit_sound p hbs hashes spec h (cols ! g) (int g))"
proof -
  let ?simple = "length gs = 2 \<and> is_full_attention (fst (hd gs))"
  let ?col = "\<lambda>h. case h of None \<Rightarrow> [] | Some bs \<Rightarrow> bs"
  from res obtain hits where loop: "hybrid_loop p hbs hashes eagle l gs ?simple max_length (replicate n None) = Some (Inr (hits, h))"
    and cols: "cols = map ?col (truncate_full gs h hits)"
    unfolding hybrid_find_def Let_def by (auto simp: bindE_Inr_iff)
  have w: "gs \<noteq> []" "\<forall>grp \<in> set gs. group_wf eagle l n grp" "distinct (concat (map snd gs))" using wf by (simp_all add: groups_wf_def)
  have "(replicate n None :: bref list option list) ! hd (snd grp) = None" if "grp \<in> set gs" for grp
    using w(2) that by (auto simp: group_wf_def)
  then have "cached_ok p hbs hashes l gs max_length (replicate n None)" unfolding cached_ok_def by (metis (no_types))
  from hybrid_loop_ok[OF pool wf _ max _ this loop] have h: "0 \<le> h" "h \<le> max_length" "l dvd h" "length hits = n"
    "\<forall>grp \<in> set gs. group_ok p hbs hashes grp h hits" by simp_all
  obtain spec0 ids0 rest where gs: "gs = (spec0, ids0) # rest" using w(1) by (cases gs) auto
  have t: "truncate_full gs h hits ! g = (if is_full_attention spec0 \<and> g \<in> set ids0
      then map_option (\<lambda>bs. py_slice bs 0 (h div spec_block_size spec0)) (hits ! g) else hits ! g)" for g
    using w(2) h(4) by (auto simp: truncate_full_def gs truncate_nth group_wf_def)
  have len: "length (truncate_full gs h hits) = n" using h(4) by (simp add: truncate_full_def gs length_truncate)
  have "group_hit_sound p hbs hashes spec h (cols ! g) (int g)" if grp: "(spec, ids) \<in> set gs" "g \<in> set ids" for spec ids g
  proof -
    have wg: "spec_block_size spec dvd h" "0 < spec_block_size spec" "g < n"
      using w(2) grp dvd_trans[OF _ h(3), of "spec_block_size spec"] by (fastforce simp: group_wf_def)+
    obtain c where c: "hits ! g = Some c" "group_hit_sound p hbs hashes spec h
        (if is_full_attention spec then py_slice c 0 (h div spec_block_size spec) else c) (int g)"
      using group_ok_column[OF _ grp(2) wg(1,2) h(1)] h(5) grp(1) by blast
    have col: "cols ! g = ?col (truncate_full gs h hits ! g)" using cols len wg(3) by simp
    show ?thesis
    proof (cases "(spec, ids) = (spec0, ids0)")
      case True
      then show ?thesis using c grp(2) unfolding col t by (auto split: if_splits)
    next
      case False
      then have r: "(spec, ids) \<in> set rest" using grp(1) gs by auto
      then have "g \<in> set (concat (map snd rest))" using grp(2) by force
      then have "g \<notin> set ids0" using w(3) gs by auto
      moreover have "\<not> is_full_attention spec" using one r gs by auto
      ultimately show ?thesis using c unfolding col t by simp
    qed
  qed
  then show ?thesis using h len cols by auto
qed

section \<open>Groups of equal specifications\<close>

definition split_ok :: "kv_cache_group_spec list \<Rightarrow> (kv_cache_spec \<times> nat list) list \<Rightarrow> bool" where
  "split_ok gs groups \<longleftrightarrow> distinct (concat (map snd groups)) \<and> set (concat (map snd groups)) = {..<length gs} \<and>
     (\<forall>(spec, ids) \<in> set groups. ids \<noteq> [] \<and> (\<forall>g \<in> set ids. group_spec (gs ! g) = spec))"

lemma split_okD:
  assumes "split_ok gs groups"
  shows "distinct (concat (map snd groups))" "g < length gs \<Longrightarrow> \<exists>spec ids. (spec, ids) \<in> set groups \<and> g \<in> set ids"
    "(spec, ids) \<in> set groups \<Longrightarrow> ids \<noteq> [] \<and> distinct ids"
    "(spec, ids) \<in> set groups \<Longrightarrow> g \<in> set ids \<Longrightarrow> g < length gs \<and> group_spec (gs ! g) = spec"
proof -
  have s: "distinct (concat (map snd groups))" "set (concat (map snd groups)) = {..<length gs}"
    "\<forall>(spec, ids) \<in> set groups. ids \<noteq> [] \<and> (\<forall>g \<in> set ids. group_spec (gs ! g) = spec)"
    using assms unfolding split_ok_def by blast+
  show "distinct (concat (map snd groups))" by (rule s(1))
  show "\<exists>spec ids. (spec, ids) \<in> set groups \<and> g \<in> set ids" if "g < length gs"
  proof -
    have "g \<in> set (concat (map snd groups))" unfolding s(2) using that by simp
    then show ?thesis by fastforce
  qed
  show "ids \<noteq> [] \<and> distinct ids" if "(spec, ids) \<in> set groups" using s(1,3) that by (auto simp: distinct_concat_iff)
  show "g < length gs \<and> group_spec (gs ! g) = spec" if "(spec, ids) \<in> set groups" "g \<in> set ids"
  proof -
    have "g \<in> set (concat (map snd groups))" using that by force
    then show ?thesis unfolding s(2) using s(3) that by blast
  qed
qed

lemma set_add_group: "set (concat (map snd (add_group spec i acc))) = insert i (set (concat (map snd acc)))"
  by (induction spec i acc rule: add_group.induct) auto

lemma distinct_add_group:
  "distinct (concat (map snd acc)) \<Longrightarrow> i \<notin> set (concat (map snd acc)) \<Longrightarrow> distinct (concat (map snd (add_group spec i acc)))"
proof (induction spec i acc rule: add_group.induct)
  case (2 spec i s ids rest)
  have "set (concat (map snd (add_group spec i rest))) = insert i (set (concat (map snd rest)))" by (rule set_add_group)
  then show ?case using 2 by auto
qed simp

lemma add_group_specs:
  "(s, ids) \<in> set (add_group spec i acc) \<Longrightarrow> \<forall>(s, ids) \<in> set acc. ids \<noteq> [] \<and> (\<forall>g \<in> set ids. f g = s) \<Longrightarrow> f i = spec \<Longrightarrow>
   ids \<noteq> [] \<and> (\<forall>g \<in> set ids. f g = s)"
  by (induction spec i acc rule: add_group.induct) (auto split: if_split_asm)

lemma split_groups_ok: "split_ok gs (split_groups gs)"
proof (induction gs rule: rev_induct)
  case Nil
  then show ?case by (simp add: split_groups_def split_ok_def)
next
  case (snoc x gs)
  let ?n = "length gs"
  have eq: "split_groups (gs @ [x]) = add_group (group_spec x) ?n (split_groups gs)"
    by (simp add: split_groups_def enumerate_append_eq)
  note i = snoc.IH[unfolded split_ok_def]
  have "\<forall>(s, ids) \<in> set (split_groups gs). ids \<noteq> [] \<and> (\<forall>g \<in> set ids. group_spec ((gs @ [x]) ! g) = s)"
  proof (intro ballI, clarify)
    fix s ids assume s: "(s, ids) \<in> set (split_groups gs)"
    then have "set ids \<subseteq> {..<?n}" using i by force
    then show "ids \<noteq> [] \<and> (\<forall>g \<in> set ids. group_spec ((gs @ [x]) ! g) = s)" using i s by (auto simp: nth_append)
  qed
  from add_group_specs[OF _ this, of _ _ "group_spec x" ?n]
  have "ids \<noteq> [] \<and> (\<forall>g \<in> set ids. group_spec ((gs @ [x]) ! g) = s)" if "(s, ids) \<in> set (split_groups (gs @ [x]))" for s ids
    using that unfolding eq by simp
  then have "\<forall>(s, ids) \<in> set (split_groups (gs @ [x])). ids \<noteq> [] \<and> (\<forall>g \<in> set ids. group_spec ((gs @ [x]) ! g) = s)"
    by blast
  moreover have "distinct (concat (map snd (split_groups (gs @ [x]))))" unfolding eq using i by (intro distinct_add_group) auto
  moreover have "set (concat (map snd (split_groups (gs @ [x])))) = {..<length (gs @ [x])}"
    unfolding eq set_add_group using i by auto
  ultimately show ?case unfolding split_ok_def by blast
qed

lemma full_attention_first_ok: "split_ok gs groups \<Longrightarrow> split_ok gs (full_attention_first groups)"
proof -
  let ?P = "\<lambda>(s, _). is_full_attention s"
  have "full_attention_first groups = filter ?P groups @ filter (\<lambda>x. \<not> ?P x) groups"
    by (simp add: full_attention_first_def split_def)
  then have m: "mset (full_attention_first groups) = mset groups" by simp
  have c: "mset (concat (map snd (full_attention_first groups))) = mset (concat (map snd groups))"
    unfolding mset_concat sum_mset_sum_list[symmetric] by (simp add: m)
  show "split_ok gs groups \<Longrightarrow> split_ok gs (full_attention_first groups)"
    unfolding split_ok_def mset_eq_imp_distinct_iff[OF c] mset_eq_setD[OF c] mset_eq_setD[OF m] .
qed

section \<open>Well-formed coordinators\<close>

definition class_wf :: "coordinator \<Rightarrow> bool" where
  "class_wf c \<longleftrightarrow>
     (case coord_class c of
        NoPrefixCache \<Rightarrow> \<not> coord_caching c
      | Unitary spec bs dcp pcp \<Rightarrow> coord_caching c \<and>
          (\<exists>m. managers c = [m] \<and> mgr_spec m = spec \<and> mgr_block_size m = bs) \<and>
          hash_block_size (coord_pool c) = bs \<and> hit_block_size spec dcp pcp = bs
      | Hybrid hbs groups l \<Rightarrow> coord_caching c \<and> groups \<noteq> [] \<and> hash_block_size (coord_pool c) = hbs \<and>
          split_ok (kv_cache_groups (coord_config c)) groups \<and> (\<forall>grp \<in> set groups. spec_block_size (fst grp) dvd l) \<and>
          (\<forall>m \<in> set (managers c). mgr_block_size m = spec_block_size (mgr_spec m)))"

definition coord_wf :: "coordinator \<Rightarrow> bool" where
  "coord_wf c \<longleftrightarrow> class_wf c \<and> length (managers c) = length (kv_cache_groups (coord_config c)) \<and> int (length (managers c)) < 2 ^ 32 \<and>
     (\<forall>g < length (managers c). kv_cache_group_id (managers c ! g) = int g \<and> mgr_caching (managers c ! g) = coord_caching c \<and>
        mgr_spec (managers c ! g) = group_spec (kv_cache_groups (coord_config c) ! g))"

lemma coord_wf_frame:
  assumes "coord_wf c" "coord_frame rid c c'"
  shows "coord_wf c'"
proof -
  have l: "length (managers c') = length (managers c)" "\<forall>g < length (managers c). keeps_others rid (managers c ! g) (managers c' ! g)"
    using assms(2) by (auto simp: coord_frame_def list_all2_conv_all_nth)
  have all: "(\<forall>m \<in> set (managers c). mgr_block_size m = spec_block_size (mgr_spec m)) \<Longrightarrow>
      (\<forall>m \<in> set (managers c'). mgr_block_size m = spec_block_size (mgr_spec m))"
    using l by (auto simp: all_set_conv_all_nth keeps_others_def)
  have one: "(\<exists>m. managers c = [m] \<and> mgr_spec m = spec \<and> mgr_block_size m = bs) \<Longrightarrow>
      (\<exists>m. managers c' = [m] \<and> mgr_spec m = spec \<and> mgr_block_size m = bs)" for spec bs
    using assms(2) by (auto simp: coord_frame_def list_all2_Cons1 keeps_others_def)
  have same: "coord_class c' = coord_class c" "coord_caching c' = coord_caching c" "coord_config c' = coord_config c"
    "hash_block_size (coord_pool c') = hash_block_size (coord_pool c)"
    using assms(2) by (simp_all add: coord_frame_def same_config_def)
  have wf: "class_wf c" using assms(1) by (simp add: coord_wf_def)
  have "class_wf c'"
  proof (cases "coord_class c")
    case (Unitary spec bs dcp pcp)
    show ?thesis using wf one unfolding class_wf_def same Unitary coordinator_class.case by blast
  next
    case (Hybrid hbs groups l)
    show ?thesis using wf all unfolding class_wf_def same Hybrid coordinator_class.case by blast
  qed (use wf same in \<open>simp add: class_wf_def\<close>)
  then show ?thesis using assms l by (simp add: coord_wf_def coord_frame_def keeps_others_def)
qed

text \<open>
  The lookup is right for the specifications single groups are looked up rightly for, and when at
  most one specification is full attention.
\<close>

definition coord_supported :: "coordinator \<Rightarrow> bool" where
  "coord_supported c \<longleftrightarrow>
     (case coord_class c of
        NoPrefixCache \<Rightarrow> True
      | Unitary spec bs dcp pcp \<Rightarrow> lookup_supported (coord_eagle c) bs spec
      | Hybrid hbs groups l \<Rightarrow> (\<forall>grp \<in> set groups. lookup_supported (coord_eagle c) l (fst grp)) \<and>
          (\<forall>grp \<in> set (tl groups). \<not> is_full_attention (fst grp)))"

definition hash_list_for :: "block_pool \<Rightarrow> st_manager \<Rightarrow> bytes list \<Rightarrow> hash_list result" where
  "hash_list_for p m hashes =
     (if mgr_block_size m = hash_block_size p then Inr (Plain hashes)
      else bindE (hlv_init hashes (hash_block_size p) (mgr_block_size m)) (\<lambda>v. Inr (View v)))"

definition manager_hit_sound :: "block_pool \<Rightarrow> bytes list \<Rightarrow> int \<Rightarrow> st_manager \<Rightarrow> bref list \<Rightarrow> bool" where
  "manager_hit_sound p hashes len m col \<longleftrightarrow> mgr_block_size m dvd len \<and>
     (\<exists>hl. hash_list_for p m hashes = Inr hl \<and>
        hit_column p hl (nat (skipped_tokens (mgr_spec m) len div mgr_block_size m)) (nat (len div mgr_block_size m)) col
          (kv_cache_group_id m))"

lemma coord_inv_run: "coord_inv c \<Longrightarrow> \<exists>held. pool_run (coord_pool c) held"
  using pool_holds_run unfolding coord_inv_def all_ok_def by blast

lemma unitary_find_sound:
  assumes pool: "pool_run p held" and bs: "0 < bs" "hit_block_size spec dcp pcp = bs" and ok: "lookup_supported eagle bs spec"
    and max: "0 \<le> max_length" and res: "unitary_find p hashes eagle spec bs dcp pcp max_length = Inr (cols, len)"
  shows "0 \<le> len \<and> len \<le> max_length \<and> bs dvd len \<and>
    (\<exists>col. cols = [col] \<and> hit_column p (Plain hashes) (nat (skipped_tokens spec len div bs)) (nat (len div bs)) col 0)"
proof -
  from res obtain c cs where f: "find_longest_cache_hit p (Plain hashes) max_length [0] spec eagle bs dcp pcp = Inr (c # cs)"
    and r: "cols = c # cs" "len = int (length c) * bs"
    unfolding unitary_find_def by (elim bindE_InrE) (auto split: list.split_asm)
  have g: "groups_valid [0]" by (simp add: groups_valid_def)
  have "hit_sound p (Plain hashes) [0] spec bs max_length bs (c # cs)"
    using find_longest_cache_hit_sound[OF pool g _ max ok f] bs by simp
  then obtain k where k: "hit_columns p (Plain hashes) [0] (nat (skipped_tokens spec (int k * bs) div bs)) k (c # cs)"
    "int k * bs \<le> max_length" unfolding hit_sound_def by blast
  have "length c = k" by (rule hit_columns_hd[OF k(1)])
  then have len: "len = int k * bs" "nat (len div bs) = k" using r bs(1) by simp_all
  have "cs = []" "hit_column p (Plain hashes) (nat (skipped_tokens spec len div bs)) k c 0" using k(1) len(1) by simp_all
  then show ?thesis using r(1) len bs(1) k(2) by simp
qed

lemma coord_find_sound:
  assumes inv: "coord_inv c" and wf: "coord_wf c" and ok: "coord_supported c" and caching: "coord_caching c" and max: "0 \<le> max_length"
    and res: "coord_find_longest_cache_hit c hashes max_length = Some (Inr (cols, len))"
  shows "0 \<le> len \<and> len \<le> max_length \<and> list_all2 (manager_hit_sound (coord_pool c) hashes len) (managers c) cols"
proof -
  obtain held where pool: "pool_run (coord_pool c) held" using coord_inv_run[OF inv] by blast
  have pos: "\<forall>m \<in> set (managers c). 0 < mgr_block_size m" using inv by (simp add: coord_inv_def all_ok_def part_ok_def)
  show ?thesis
  proof (cases "coord_class c")
    case NoPrefixCache
    then show ?thesis using wf caching by (simp add: coord_wf_def class_wf_def)
  next
    case (Unitary spec bs dcp pcp)
    then obtain m where m: "managers c = [m]" "mgr_spec m = spec" "mgr_block_size m = bs" "hash_block_size (coord_pool c) = bs"
      "hit_block_size spec dcp pcp = bs" using wf by (auto simp: coord_wf_def class_wf_def)
    have "\<forall>g < length (managers c). kv_cache_group_id (managers c ! g) = int g" using wf by (simp add: coord_wf_def)
    then have id: "kv_cache_group_id m = 0" using m(1) by simp
    have bs: "0 < bs" using pos m(1,3) by simp
    have r: "unitary_find (coord_pool c) hashes (coord_eagle c) spec bs dcp pcp max_length = Inr (cols, len)"
      using res Unitary by (simp add: coord_find_longest_cache_hit_def)
    have s: "lookup_supported (coord_eagle c) bs spec" using ok Unitary by (simp add: coord_supported_def)
    from unitary_find_sound[OF pool bs m(5) s max r] show ?thesis
      using m id by (auto simp: manager_hit_sound_def hash_list_for_def)
  next
    case (Hybrid hbs groups l)
    let ?n = "length (kv_cache_groups (coord_config c))"
    have w: "groups \<noteq> []" "hash_block_size (coord_pool c) = hbs" "split_ok (kv_cache_groups (coord_config c)) groups"
      "\<forall>grp \<in> set groups. spec_block_size (fst grp) dvd l" "\<forall>m \<in> set (managers c). mgr_block_size m = spec_block_size (mgr_spec m)"
      "length (managers c) = ?n" "int ?n < 2 ^ 32"
      "\<forall>g < ?n. kv_cache_group_id (managers c ! g) = int g \<and> mgr_spec (managers c ! g) = group_spec (kv_cache_groups (coord_config c) ! g)"
      using wf Hybrid by (auto simp: coord_wf_def class_wf_def)
    have spec: "mgr_spec (managers c ! g) = spec \<and> g < ?n" if "(spec, ids) \<in> set groups" "g \<in> set ids" for spec ids g
      using split_okD(4)[OF w(3) that] w(8) by simp
    have "group_wf (coord_eagle c) l ?n grp" if grp: "grp \<in> set groups" for grp
    proof -
      obtain spec ids where g: "grp = (spec, ids)" by (cases grp)
      have ids: "ids \<noteq> []" "distinct ids" using split_okD(3)[OF w(3)] grp g by simp_all
      then have "mgr_spec (managers c ! hd ids) = spec" "managers c ! hd ids \<in> set (managers c)"
        using spec[OF grp[unfolded g], of "hd ids"] w(6) by simp_all
      then have "0 < spec_block_size spec" using pos w(5) by fastforce
      then show ?thesis using w(4,7) grp g ids ok Hybrid spec[OF grp[unfolded g]] by (auto simp: group_wf_def coord_supported_def)
    qed
    then have gw: "groups_wf (coord_eagle c) l ?n groups" using w(1) split_okD(1)[OF w(3)] by (simp add: groups_wf_def)
    have one: "\<forall>grp \<in> set (tl groups). \<not> is_full_attention (fst grp)" using ok Hybrid by (simp add: coord_supported_def)
    have r: "hybrid_find (coord_pool c) hbs hashes (coord_eagle c) l groups ?n max_length = Some (Inr (cols, len))"
      using res Hybrid by (simp add: coord_find_longest_cache_hit_def)
    from hybrid_find_sound[OF pool gw one max r] have h: "0 \<le> len" "len \<le> max_length" "length cols = ?n"
      and col: "\<And>spec ids g. (spec, ids) \<in> set groups \<Longrightarrow> g \<in> set ids \<Longrightarrow> group_hit_sound (coord_pool c) hbs hashes spec len (cols ! g) (int g)"
      by auto
    have "manager_hit_sound (coord_pool c) hashes len (managers c ! g) (cols ! g)" if g: "g < ?n" for g
    proof -
      obtain spec ids where i: "(spec, ids) \<in> set groups" "g \<in> set ids" using split_okD(2)[OF w(3) g] by blast
      have m: "managers c ! g \<in> set (managers c)" using g w(6) by simp
      have "mgr_spec (managers c ! g) = spec" "mgr_block_size (managers c ! g) = spec_block_size spec" "kv_cache_group_id (managers c ! g) = int g"
        using spec[OF i] w(5,8) m g by auto
      then show ?thesis using col[OF i] w(2) by (simp only: manager_hit_sound_def group_hit_sound_def hash_list_for_def group_hashes_def)
    qed
    then show ?thesis using h w(6) by (simp add: list_all2_conv_all_nth)
  qed
qed

section \<open>Construction\<close>

text \<open>
  The configurations a coordinator is built for: positive block and window sizes, world sizes of at
  least one, and no attention sinks, whose manager takes blocks out of the pool without a reference.
\<close>

definition group_config_ok :: "kv_cache_spec \<Rightarrow> bool" where
  "group_config_ok spec \<longleftrightarrow> 0 < spec_block_size spec \<and> window_ok spec \<and>
     (case spec of SinkFullAttentionSpec a f sink \<Rightarrow> False | MambaSpec f \<Rightarrow> 0 \<le> num_speculative_blocks f | _ \<Rightarrow> True)"

definition config_ok :: "coord_args \<Rightarrow> kv_cache_config \<Rightarrow> bool" where
  "config_ok args cfg \<longleftrightarrow> 1 \<le> arg_dcp args \<and> 1 \<le> arg_pcp args \<and> int (length (kv_cache_groups cfg)) < 2 ^ 32 \<and>
     (\<forall>g \<in> set (kv_cache_groups cfg). group_config_ok (group_spec g))"

lemma init_managers_result:
  "init_managers caching dcp pcp i gs p = Inr (ms, p') \<Longrightarrow> \<forall>g \<in> set gs. group_config_ok (group_spec g) \<Longrightarrow>
   p' = p \<and> length ms = length gs \<and> (\<forall>j < length gs. ms ! j = manager_init (group_spec (gs ! j)) caching (i + int j) dcp pcp)"
proof (induction gs arbitrary: i ms)
  case (Cons g gs)
  from Cons.prems(1) obtain m p1 ms1 where m: "get_manager_for_kv_cache_spec (group_spec g) caching i dcp pcp p = Inr (m, p1)"
    and r: "init_managers caching dcp pcp (i + 1) gs p1 = Inr (ms1, p')" and ms: "ms = m # ms1" by (auto simp: bindE_Inr_iff)
  have eq: "m = manager_init (group_spec g) caching i dcp pcp" "p1 = p"
    using m Cons.prems(2) by (auto simp: get_manager_for_kv_cache_spec_def Let_def group_config_ok_def split: kv_cache_spec.split_asm)
  have h: "p' = p" "length ms1 = length gs" "\<forall>j < length gs. ms1 ! j = manager_init (group_spec (gs ! j)) caching (i + 1 + int j) dcp pcp"
    using Cons.IH[OF r[unfolded eq]] Cons.prems(2) by simp_all
  have "ms ! j = manager_init (group_spec ((g # gs) ! j)) caching (i + int j) dcp pcp" if "j < length (g # gs)" for j
    using that h(3) eq(1) ms by (cases j) (simp_all add: ac_simps)
  then show ?case using h ms by simp
qed simp

lemma manager_init_part:
  assumes "group_config_ok spec" "1 \<le> dcp" "1 \<le> pcp"
  shows "part_ok p (manager_init spec caching i dcp pcp)" "table_refs (manager_init spec caching i dcp pcp) k = 0"
proof -
  have "0 < dcp * pcp" using assms(2,3) by simp
  then have "0 < mgr_block_size (manager_init spec caching i dcp pcp)" using assms(1) by (simp add: manager_init_def group_config_ok_def)
  then show "part_ok p (manager_init spec caching i dcp pcp)"
    using assms(1) by (auto simp: part_ok_def manager_init_def tables_ok_def req_blocks_def states_ok_def group_config_ok_def)
  show "table_refs (manager_init spec caching i dcp pcp) k = 0" by (simp add: manager_init_def table_refs_def)
qed

lemma coordinator_init_result:
  assumes ok: "config_ok args cfg" and res: "coordinator_init args caching cfg = Inr c"
  shows "coord_inv c" "coord_config c = cfg" "coord_caching c = caching" "coord_class c = NoPrefixCache"
    "length (managers c) = length (kv_cache_groups cfg)" "hash_block_size (coord_pool c) = arg_hash_block_size args"
    "\<forall>j < length (managers c). managers c ! j = manager_init (group_spec (kv_cache_groups cfg ! j)) caching (int j) (arg_dcp args) (arg_pcp args)"
proof -
  from res obtain p ms p1 where p: "pool_init (num_blocks cfg) caching (arg_hash_block_size args) (arg_events args) (arg_int_hashes args) (arg_metrics args) = Inr p"
    and m: "init_managers caching (arg_dcp args) (arg_pcp args) 0 (kv_cache_groups cfg) p = Inr (ms, p1)"
    and c: "c = \<lparr>coord_config = cfg, coord_max_model_len = arg_max_model_len args, coord_caching = caching, coord_pool = p1,
            coord_eagle = arg_eagle args, managers = ms, coord_class = NoPrefixCache\<rparr>"
    by (auto simp: coordinator_init_def bindE_Inr_iff)
  have g: "\<forall>g \<in> set (kv_cache_groups cfg). group_config_ok (group_spec g)" "1 \<le> arg_dcp args" "1 \<le> arg_pcp args"
    using ok by (simp_all add: config_ok_def)
  note i = init_managers_result[OF m g(1)]
  have e: "enable_caching p = caching" "hash_block_size p = arg_hash_block_size args"
    using p by (auto simp: pool_init_def bindE_Inr_iff Let_def)
  have ms: "\<forall>m \<in> set ms. part_ok p m \<and> (\<forall>k. table_refs m k = 0)"
    using i g manager_init_part by (auto simp: all_set_conv_all_nth)
  then have "all_refs ms k = 0" for k by (simp add: all_refs_def sum_list_nonneg_eq_0_iff)
  then have "all_ok (\<lambda>i. 0) ms p" using pool_holds_init[OF p] ms by (simp add: all_ok_def)
  then show "coord_inv c" using i e c by (simp add: coord_inv_def)
  show "coord_config c = cfg" "coord_caching c = caching" "coord_class c = NoPrefixCache" using c by simp_all
  show "length (managers c) = length (kv_cache_groups cfg)" "hash_block_size (coord_pool c) = arg_hash_block_size args"
    using i e c by simp_all
  show "\<forall>j < length (managers c). managers c ! j = manager_init (group_spec (kv_cache_groups cfg ! j)) caching (int j) (arg_dcp args) (arg_pcp args)"
    using i c by simp
qed

lemma dvd_fold_lcm: "(d :: int) dvd l \<Longrightarrow> d dvd fold (\<lambda>grp. lcm (spec_block_size (fst grp))) gs l"
proof (induction gs arbitrary: l)
  case (Cons g gs)
  have "d dvd lcm (spec_block_size (fst g)) l" using Cons.prems by (rule dvd_lcmI2)
  from Cons.IH[OF this] show ?case by (simp only: fold_Cons o_apply)
qed simp

lemma lcm_dvd_fold: "grp \<in> set groups \<Longrightarrow> spec_block_size (fst grp) dvd fold (\<lambda>grp. lcm (spec_block_size (fst grp))) groups l"
proof (induction groups arbitrary: l)
  case (Cons g gs)
  show ?case
  proof (cases "grp = g")
    case True
    have "spec_block_size (fst grp) dvd lcm (spec_block_size (fst g)) l" unfolding True by (rule dvd_lcm1)
    from dvd_fold_lcm[OF this] show ?thesis by (simp only: fold_Cons o_apply)
  next
    case False
    then have "grp \<in> set gs" using Cons.prems by simp
    from Cons.IH[OF this] show ?thesis by (simp only: fold_Cons o_apply)
  qed
qed simp

lemma coordinator_class_cases:
  assumes "get_kv_cache_coordinator args cfg = Inr c"
  obtains c0 where "coordinator_init args (arg_caching args) cfg = Inr c0" "c = c0" "\<not> arg_caching args"
  | c0 g where "coordinator_init args (arg_caching args) cfg = Inr c0" "arg_caching args" "kv_cache_groups cfg = [g]"
      "arg_hash_block_size args = unitary_block_size args (group_spec g)"
      "c = c0\<lparr>coord_class := Unitary (group_spec g) (unitary_block_size args (group_spec g)) (arg_dcp args) (arg_pcp args)\<rparr>"
  | c0 groups l where "coordinator_init args (arg_caching args) cfg = Inr c0" "arg_caching args" "arg_dcp args = 1" "arg_pcp args = 1"
      "verify_and_split_kv_cache_groups (kv_cache_groups cfg) = Inr (groups, l)"
      "c = c0\<lparr>coord_class := Hybrid (arg_hash_block_size args) groups l\<rparr>"
proof -
  consider (none) "\<not> arg_caching args" "no_prefix_init args cfg = Inr c"
    | (unitary) "arg_caching args" "unitary_init args cfg = Inr c" | (hybrid) "arg_caching args" "hybrid_init args cfg = Inr c"
    using assms by (auto simp: get_kv_cache_coordinator_def split: if_split_asm)
  then show thesis
  proof cases
    case none
    then show thesis using that(1)[of c] by (simp add: no_prefix_init_def)
  next
    case unitary
    from unitary(2) obtain c0 where c0: "coordinator_init args (arg_caching args) cfg = Inr c0"
      and r: "(case kv_cache_groups cfg of [] \<Rightarrow> Inl IndexError
       | g # gs \<Rightarrow> let bs = unitary_block_size args (group_spec g)
         in bindE (assertE (\<not> arg_caching args \<or> arg_hash_block_size args = bs)) (\<lambda>_.
            bindE (assertE (gs = [])) (\<lambda>_.
              Inr (c0\<lparr>coord_class := Unitary (group_spec g) bs (arg_dcp args) (arg_pcp args)\<rparr>)))) = Inr c"
      unfolding unitary_init_def by (elim bindE_InrE)
    obtain g gs where g: "kv_cache_groups cfg = g # gs" using r by (cases "kv_cache_groups cfg") simp_all
    have "arg_hash_block_size args = unitary_block_size args (group_spec g)" "gs = []"
      "c = c0\<lparr>coord_class := Unitary (group_spec g) (unitary_block_size args (group_spec g)) (arg_dcp args) (arg_pcp args)\<rparr>"
      using r unitary(1) by (simp_all add: g Let_def bindE_Inr_iff)
    then show thesis using that(2)[OF c0 unitary(1), of g] g by simp
  next
    case hybrid
    from hybrid(2) obtain c0 groups l where "coordinator_init args (arg_caching args) cfg = Inr c0" "arg_dcp args = 1" "arg_pcp args = 1"
      "verify_and_split_kv_cache_groups (kv_cache_groups cfg) = Inr (groups, l)"
      "c = c0\<lparr>coord_class := Hybrid (arg_hash_block_size args) groups l\<rparr>"
      unfolding hybrid_init_def by (elim bindE_InrE) (auto simp: bindE_Inr_iff)
    then show thesis using hybrid(1) by (intro that(3))
  qed
qed

lemma coord_inv_class [simp]: "coord_inv (c\<lparr>coord_class := cls\<rparr>) = coord_inv c"
  by (simp add: coord_inv_def)

lemma coordinator_built:
  assumes ok: "config_ok args cfg" and res: "get_kv_cache_coordinator args cfg = Inr c"
  shows "coord_inv c" "coord_wf c" "\<forall>m \<in> set (managers c). req_to_blocks m = []"
    "coord_caching c = arg_caching args" "coord_config c = cfg"
proof -
  obtain c0 where c0: "coordinator_init args (arg_caching args) cfg = Inr c0" and eq: "c = c0\<lparr>coord_class := coord_class c\<rparr>"
    by (rule coordinator_class_cases[OF res]) simp_all
  note i = coordinator_init_result[OF ok c0]
  let ?init = "\<lambda>j. manager_init (group_spec (kv_cache_groups cfg ! j)) (arg_caching args) (int j) (arg_dcp args) (arg_pcp args)"
  have c: "managers c = managers c0" "coord_config c = cfg" "coord_caching c = arg_caching args" "coord_pool c = coord_pool c0"
    by (subst eq, simp add: i)+
  have ms: "\<forall>j < length (managers c). managers c ! j = ?init j" "length (managers c) = length (kv_cache_groups cfg)"
    using i(5,7) c(1) by simp_all
  show "coord_caching c = arg_caching args" "coord_config c = cfg" by (rule c)+
  show "coord_inv c" by (subst eq) (simp add: i(1))
  show "\<forall>m \<in> set (managers c). req_to_blocks m = []" using ms(1) by (auto simp: all_set_conv_all_nth manager_init_def)
  have "class_wf c"
  proof (rule coordinator_class_cases[OF res])
    fix c1 assume a: "coordinator_init args (arg_caching args) cfg = Inr c1" "c = c1" "\<not> arg_caching args"
    then show "class_wf c" using coordinator_init_result(4)[OF ok a(1)] c(3) by (simp add: class_wf_def)
  next
    fix c1 g assume a: "coordinator_init args (arg_caching args) cfg = Inr c1" "arg_caching args" "kv_cache_groups cfg = [g]"
      "arg_hash_block_size args = unitary_block_size args (group_spec g)"
      "c = c1\<lparr>coord_class := Unitary (group_spec g) (unitary_block_size args (group_spec g)) (arg_dcp args) (arg_pcp args)\<rparr>"
    have "1 \<le> arg_dcp args" "1 \<le> arg_pcp args" using ok by (simp_all add: config_ok_def)
    then have bs: "unitary_block_size args (group_spec g) = hit_block_size (group_spec g) (arg_dcp args) (arg_pcp args)"
      by (cases "arg_dcp args = 1"; cases "arg_pcp args = 1") (simp_all add: unitary_block_size_def hit_block_size_def less_1_mult)
    have "length (managers c) = 1" "managers c ! 0 = ?init 0" using ms a(3) by simp_all
    then have m: "managers c = [?init 0]" by (simp add: length_Suc_conv One_nat_def) auto
    have f: "mgr_spec (?init 0) = group_spec g" "mgr_block_size (?init 0) = unitary_block_size args (group_spec g)"
      using a(3) unfolding bs by (simp_all add: manager_init_def hit_block_size_def)
    have cls: "coord_class c = Unitary (group_spec g) (unitary_block_size args (group_spec g)) (arg_dcp args) (arg_pcp args)"
      using a(5) by simp
    show "class_wf c" unfolding class_wf_def cls coordinator_class.case c(3,4) i(6)
      by (intro conjI exI[of _ "?init 0"]) (use a(2) m f bs a(4) in \<open>simp_all only:\<close>)
  next
    fix c1 groups l assume a: "coordinator_init args (arg_caching args) cfg = Inr c1" "arg_caching args" "arg_dcp args = 1" "arg_pcp args = 1"
      "verify_and_split_kv_cache_groups (kv_cache_groups cfg) = Inr (groups, l)"
      "c = c1\<lparr>coord_class := Hybrid (arg_hash_block_size args) groups l\<rparr>"
    have g: "groups = full_attention_first (split_groups (kv_cache_groups cfg))" "1 < length (split_groups (kv_cache_groups cfg))"
      "l = fold (\<lambda>grp. lcm (spec_block_size (fst grp))) (split_groups (kv_cache_groups cfg)) 1"
      using a(5) by (auto simp: verify_and_split_kv_cache_groups_def Let_def bindE_Inr_iff)
    have set: "set groups = set (split_groups (kv_cache_groups cfg))" unfolding g(1) full_attention_first_def by auto
    have "split_ok (kv_cache_groups cfg) groups" unfolding g(1) by (rule full_attention_first_ok[OF split_groups_ok])
    moreover have "\<forall>grp \<in> set groups. spec_block_size (fst grp) dvd l" unfolding set g(3) using lcm_dvd_fold by blast
    moreover have "groups \<noteq> []" using set g(2) by (metis gr_implies_not0 list.size(3) set_empty)
    moreover have "\<forall>m \<in> set (managers c). mgr_block_size m = spec_block_size (mgr_spec m)"
      using ms(1) a(3,4) by (auto simp: all_set_conv_all_nth manager_init_def)
    ultimately show "class_wf c" using a(2,6) c i(6) by (simp add: class_wf_def)
  qed
  then show "coord_wf c" using ms c ok by (simp add: coord_wf_def manager_init_def config_ok_def)
qed

section \<open>Hits have no repeated block\<close>

definition hash_positions :: "hash_list \<Rightarrow> bool" where
  "hash_positions hl \<longleftrightarrow> (\<forall>i j h. hl_get hl (int i) = Inr h \<longrightarrow> hl_get hl (int j) = Inr h \<longrightarrow> i = j)"

lemma distinct_filter_nth:
  "(\<And>i j. i < length xs \<Longrightarrow> j < length xs \<Longrightarrow> P (xs ! i) \<Longrightarrow> xs ! i = xs ! j \<Longrightarrow> i = j) \<Longrightarrow> distinct (filter P xs)"
proof (induction xs)
  case (Cons x xs)
  have "distinct (filter P xs)"
  proof (rule Cons.IH)
    fix i j assume "i < length xs" "j < length xs" "P (xs ! i)" "xs ! i = xs ! j"
    then show "i = j" using Cons.prems[of "Suc i" "Suc j"] by simp
  qed
  moreover have "x \<notin> set xs" if "P x"
  proof
    assume "x \<in> set xs"
    then obtain j where "j < length xs" "xs ! j = x" by (auto simp: in_set_conv_nth)
    then show False using Cons.prems[of 0 "Suc j"] that by simp
  qed
  ultimately show ?case by simp
qed simp

lemma hit_column_list_ok:
  assumes c: "hit_column p hl a n col g" and null: "null_block p = Blk 0" and pos: "hash_positions hl"
  shows "list_ok p col"
  unfolding list_ok_iff
proof
  show "\<forall>b \<in> set col. \<exists>i. b = Blk i \<and> (i = 0 \<or> in_pool p i)"
    using c null unfolding hit_column_def is_hit_def by (fastforce simp: in_set_conv_nth)
  show "distinct (real col)"
  proof (rule distinct_filter_nth)
    fix i j assume ij: "i < length col" "j < length col" "col ! i \<noteq> Blk 0" "col ! i = col ! j"
    then have "is_hit p hl g i (col ! i)" "is_hit p hl g j (col ! j)" using c null unfolding hit_column_def by metis+
    then obtain h h' where "hl_get hl (int i) = Inr h" "hl_get hl (int j) = Inr h'" "group_key h g = group_key h' g"
      using ij(4) unfolding is_hit_def by auto
    moreover have "h = h'" using calculation(3) by (simp add: group_key_def)
    ultimately show "i = j" using pos unfolding hash_positions_def by blast
  qed
qed

end
