(* ===== verification/KV_Manager.thy ===== *)
theory KV_Manager
  imports Coordinator_Hits
begin

text \<open>
  The KV cache manager, \<open>vllm/v1/core/kv_cache_manager.py\<close>, the interface between the scheduler and the
  coordinator, with the prefix cache statistics of \<open>vllm/v1/metrics/stats.py\<close>. The one empty
  \<open>KVCacheBlocks\<close> object the manager shares is \<open>Shared_Empty\<close>: \<open>allocate_slots\<close> tests for its identity. A
  lookup that does not return is \<open>None\<close>.
\<close>

section \<open>Blocks of a request\<close>

datatype kv_cache_blocks = Shared_Empty nat | KVCacheBlocks "bref list list"

fun blocks_of :: "kv_cache_blocks \<Rightarrow> bref list list" where
  "blocks_of (Shared_Empty n) = replicate n []"
| "blocks_of (KVCacheBlocks bs) = bs"

definition kvb_add :: "kv_cache_blocks \<Rightarrow> kv_cache_blocks \<Rightarrow> kv_cache_blocks" where
  "kvb_add a b = KVCacheBlocks (map2 (@) (blocks_of a) (blocks_of b))"

definition kvb_get_block_ids :: "block_pool \<Rightarrow> bool \<Rightarrow> kv_cache_blocks \<Rightarrow> int list list option" where
  "kvb_get_block_ids p allow_none b =
     (if allow_none \<and> (\<forall>g \<in> set (blocks_of b). g = []) then None else Some (map (map (bid_of p)) (blocks_of b)))"

definition get_unhashed_block_ids :: "block_pool \<Rightarrow> kv_cache_blocks \<Rightarrow> int list result" where
  "get_unhashed_block_ids p b =
     (case blocks_of b of
        [g] \<Rightarrow> Inr (map (bid_of p) (filter (\<lambda>x. block_hash (blk p x) = None) g))
      | _ \<Rightarrow> Inl AssertionError)"

definition get_unhashed_block_ids_all_groups :: "block_pool \<Rightarrow> kv_cache_blocks \<Rightarrow> int list list" where
  "get_unhashed_block_ids_all_groups p b =
     map (\<lambda>g. map (bid_of p) (filter (\<lambda>x. block_hash (blk p x) = None \<and> \<not> is_null (blk p x)) g)) (blocks_of b)"

definition kvb_new_empty :: "kv_cache_blocks \<Rightarrow> kv_cache_blocks" where
  "kvb_new_empty b = KVCacheBlocks (map (\<lambda>_. []) (blocks_of b))"

section \<open>Statistics\<close>

record prefix_cache_stats =
  stat_reset :: bool
  stat_requests :: int
  stat_queries :: int
  stat_hits :: int
  preempted_requests :: int
  preempted_queries :: int
  preempted_hits :: int

definition new_stats :: prefix_cache_stats where
  "new_stats = \<lparr>stat_reset = False, stat_requests = 0, stat_queries = 0, stat_hits = 0,
     preempted_requests = 0, preempted_queries = 0, preempted_hits = 0\<rparr>"

definition stats_record :: "int \<Rightarrow> int \<Rightarrow> bool \<Rightarrow> prefix_cache_stats \<Rightarrow> prefix_cache_stats" where
  "stats_record tokens hits preempted s =
     (if preempted
      then s\<lparr>preempted_requests := preempted_requests s + 1, preempted_queries := preempted_queries s + tokens,
             preempted_hits := preempted_hits s + hits\<rparr>
      else s\<lparr>stat_requests := stat_requests s + 1, stat_queries := stat_queries s + tokens, stat_hits := stat_hits s + hits\<rparr>)"

section \<open>The manager\<close>

record kv_manager =
  kvm_max_model_len :: int
  kvm_caching :: bool
  kvm_log_stats :: bool
  kvm_stats :: "prefix_cache_stats option"
  kvm_coord :: coordinator
  num_kv_cache_groups :: nat

abbreviation kvm_pool :: "kv_manager \<Rightarrow> block_pool" where
  "kvm_pool k \<equiv> coord_pool (kvm_coord k)"

definition kv_manager_init :: "coord_args \<Rightarrow> bool \<Rightarrow> kv_cache_config \<Rightarrow> kv_manager result" where
  "kv_manager_init args log_stats cfg =
     bindE (get_kv_cache_coordinator args cfg) (\<lambda>c.
       Inr \<lparr>kvm_max_model_len = arg_max_model_len args, kvm_caching = arg_caching args, kvm_log_stats = log_stats,
            kvm_stats = (if log_stats then Some new_stats else None), kvm_coord = c,
            num_kv_cache_groups = length (kv_cache_groups cfg)\<rparr>)"

definition kvm_usage :: "kv_manager \<Rightarrow> rat" where
  "kvm_usage k = get_usage (kvm_pool k)"

definition make_prefix_cache_stats :: "kv_manager \<Rightarrow> prefix_cache_stats option \<times> kv_manager" where
  "make_prefix_cache_stats k =
     (if \<not> kvm_log_stats k then (None, k) else (kvm_stats k, k\<lparr>kvm_stats := Some new_stats\<rparr>))"

definition create_kv_cache_blocks :: "kv_manager \<Rightarrow> bref list list \<Rightarrow> kv_cache_blocks" where
  "create_kv_cache_blocks k bs = (if \<exists>g \<in> set bs. g \<noteq> [] then KVCacheBlocks bs else Shared_Empty (num_kv_cache_groups k))"

definition computed_list :: "kv_manager \<Rightarrow> kv_cache_blocks option \<Rightarrow> bref list list" where
  "computed_list k new_computed =
     (case new_computed of None \<Rightarrow> replicate (num_kv_cache_groups k) [] | Some b \<Rightarrow> blocks_of b)"

definition is_shared_empty :: "kv_cache_blocks option \<Rightarrow> bool" where
  "is_shared_empty b \<longleftrightarrow> (case b of Some (KVCacheBlocks bs) \<Rightarrow> False | _ \<Rightarrow> True)"

definition record_hits :: "request \<Rightarrow> int \<Rightarrow> kv_manager \<Rightarrow> kv_manager result" where
  "record_hits r hits k =
     (if \<not> kvm_log_stats k then Inr k
      else case kvm_stats k of
        None \<Rightarrow> Inl AssertionError
      | Some s \<Rightarrow> Inr (k\<lparr>kvm_stats := Some (stats_record (num_tokens r) hits (0 < num_preemptions r) s)\<rparr>))"

definition get_computed_blocks :: "kv_manager \<Rightarrow> request \<Rightarrow> (kv_cache_blocks \<times> int \<times> kv_manager) result option" where
  "get_computed_blocks k r =
     (if \<not> kvm_caching k \<or> skip_reading_prefix_cache r then Some (Inr (Shared_Empty (num_kv_cache_groups k), 0, k))
      else map_option (\<lambda>res. bindE res (\<lambda>(cols, hits).
             bindE (record_hits r hits k) (\<lambda>k1. Inr (create_kv_cache_blocks k1 cols, hits, k1))))
           (coord_find_longest_cache_hit (kvm_coord k) (block_hashes r) (num_tokens r - 1)))"

definition can_fit_full_sequence :: "kv_manager \<Rightarrow> request \<Rightarrow> int \<Rightarrow> kv_cache_blocks option \<Rightarrow> int \<Rightarrow> int \<Rightarrow> (bool \<times> kv_manager) result" where
  "can_fit_full_sequence k r num_new_computed new_computed num_external num_encoder =
     (let num_local = num_computed_tokens r + num_new_computed;
          total_computed = min (num_local + num_external) (kvm_max_model_len k);
          full_num_tokens = min (num_tokens r) (kvm_max_model_len k)
      in bindE (coord_num_blocks_to_allocate (kvm_coord k) (request_id r) full_num_tokens (computed_list k new_computed)
                  num_encoder total_computed full_num_tokens) (\<lambda>(n, c).
         Inr (n \<le> get_num_free_blocks (coord_pool c), k\<lparr>kvm_coord := c\<rparr>)))"

section \<open>Allocation\<close>

text \<open>
  The two phases of \<open>allocate_slots\<close> after the check of the free blocks: adopting the computed blocks and
  allocating the new ones, then caching.
\<close>

definition allocate_phase :: "coordinator \<Rightarrow> string \<Rightarrow> bref list list \<Rightarrow> bool \<Rightarrow> int \<Rightarrow> int \<Rightarrow> int \<Rightarrow> int \<Rightarrow> int \<Rightarrow>
    (bref list list \<times> coordinator) result" where
  "allocate_phase c rid computed shared num_local num_external need_slot tokens_main num_encoder =
     bindE (if \<not> shared \<or> 0 < num_external
            then coord_allocate_new_computed c rid computed num_local num_external else Inr ((), c)) (\<lambda>(_, c1).
     coord_allocate_new_blocks c1 rid need_slot tokens_main num_encoder)"

definition cache_phase :: "(bytes \<Rightarrow> bytes) \<Rightarrow> kv_manager \<Rightarrow> coordinator \<Rightarrow> request \<Rightarrow> bool \<Rightarrow> int \<Rightarrow> (request \<times> coordinator) result" where
  "cache_phase sha256 k c r delay tokens =
     (if \<not> kvm_caching k \<or> delay then Inr (r, c) else coord_cache_blocks sha256 c r (min tokens (num_tokens r)))"

definition allocate_slots :: "(bytes \<Rightarrow> bytes) \<Rightarrow> kv_manager \<Rightarrow> request \<Rightarrow> int \<Rightarrow> int \<Rightarrow> kv_cache_blocks option \<Rightarrow> int \<Rightarrow> int \<Rightarrow> bool \<Rightarrow> int \<Rightarrow>
    (kv_cache_blocks option \<times> kv_manager \<times> request) result" where
  "allocate_slots sha256 k r num_new num_new_computed new_computed num_lookahead num_external delay num_encoder =
     (if num_new = 0 \<and> num_external = 0 then Inl ValueError
      else let computed = computed_list k new_computed;
               num_local = num_computed_tokens r + num_new_computed;
               total_computed = min (num_local + num_external) (kvm_max_model_len k);
               tokens_main = total_computed + num_new;
               need_slot = min (tokens_main + num_lookahead) (kvm_max_model_len k)
           in bindE (coord_remove_skipped (kvm_coord k) (request_id r) total_computed) (\<lambda>(_, c1).
              bindE (coord_num_blocks_to_allocate c1 (request_id r) need_slot computed num_encoder (num_local + num_external) tokens_main) (\<lambda>(n, c2).
              if get_num_free_blocks (coord_pool c2) < n then Inr (None, k\<lparr>kvm_coord := c2\<rparr>, r)
              else bindE (allocate_phase c2 (request_id r) computed (is_shared_empty new_computed) num_local num_external
                            need_slot tokens_main num_encoder) (\<lambda>(new, c3).
                   bindE (cache_phase sha256 k c3 r delay (total_computed + num_new)) (\<lambda>(r1, c4).
                   Inr (Some (create_kv_cache_blocks k new), k\<lparr>kvm_coord := c4\<rparr>, r1))))))"

section \<open>The other operations\<close>

definition kvm_free :: "kv_manager \<Rightarrow> request \<Rightarrow> kv_manager result" where
  "kvm_free k r = bindE (coord_free (kvm_coord k) (request_id r)) (\<lambda>(_, c). Inr (k\<lparr>kvm_coord := c\<rparr>))"

definition kvm_remove_skipped_blocks :: "kv_manager \<Rightarrow> string \<Rightarrow> int \<Rightarrow> kv_manager result" where
  "kvm_remove_skipped_blocks k rid total_computed =
     bindE (coord_remove_skipped (kvm_coord k) rid total_computed) (\<lambda>(_, c). Inr (k\<lparr>kvm_coord := c\<rparr>))"

definition kvm_evict_blocks :: "kv_manager \<Rightarrow> int list \<Rightarrow> kv_manager result" where
  "kvm_evict_blocks k ids =
     bindE (evict_blocks ids (kvm_pool k)) (\<lambda>p. Inr (k\<lparr>kvm_coord := (kvm_coord k)\<lparr>coord_pool := p\<rparr>\<rparr>))"

definition kvm_reset_prefix_cache :: "kv_manager \<Rightarrow> (bool \<times> kv_manager) result" where
  "kvm_reset_prefix_cache k =
     (case reset_prefix_cache (kvm_pool k) of (ok, p) \<Rightarrow>
      let k1 = k\<lparr>kvm_coord := (kvm_coord k)\<lparr>coord_pool := p\<rparr>\<rparr> in
      if \<not> ok then Inr (False, k1)
      else if \<not> kvm_log_stats k then Inr (True, k1)
      else case kvm_stats k of
        None \<Rightarrow> Inl AssertionError
      | Some s \<Rightarrow> Inr (True, k1\<lparr>kvm_stats := Some (s\<lparr>stat_reset := True\<rparr>)\<rparr>))"

definition kvm_num_common_prefix_blocks :: "kv_manager \<Rightarrow> string \<Rightarrow> (int list \<times> kv_manager) result" where
  "kvm_num_common_prefix_blocks k rid = bindE (coord_common_prefix (kvm_coord k) rid) (\<lambda>(ns, c). Inr (ns, k\<lparr>kvm_coord := c\<rparr>))"

definition kvm_take_events :: "kv_manager \<Rightarrow> kv_event list \<times> kv_manager" where
  "kvm_take_events k =
     (case pool_take_events (kvm_pool k) of (es, p) \<Rightarrow> (es, k\<lparr>kvm_coord := (kvm_coord k)\<lparr>coord_pool := p\<rparr>\<rparr>))"

definition kvm_get_blocks :: "kv_manager \<Rightarrow> string \<Rightarrow> kv_cache_blocks" where
  "kvm_get_blocks k rid = create_kv_cache_blocks k (coord_get_blocks (kvm_coord k) rid)"

definition kvm_get_block_ids :: "kv_manager \<Rightarrow> string \<Rightarrow> int list list option" where
  "kvm_get_block_ids k rid = kvb_get_block_ids (kvm_pool k) False (kvm_get_blocks k rid)"

definition kvm_cache_blocks :: "(bytes \<Rightarrow> bytes) \<Rightarrow> kv_manager \<Rightarrow> request \<Rightarrow> int \<Rightarrow> (kv_manager \<times> request) result" where
  "kvm_cache_blocks sha256 k r tokens =
     (if kvm_caching k
      then bindE (coord_cache_blocks sha256 (kvm_coord k) r tokens) (\<lambda>(r1, c). Inr (k\<lparr>kvm_coord := c\<rparr>, r1))
      else Inr (k, r))"

definition kvm_take_new_block_ids :: "kv_manager \<Rightarrow> int list \<times> kv_manager" where
  "kvm_take_new_block_ids k =
     (let c = kvm_coord k in
      (concat (map (\<lambda>m. fst (take_new_block_ids m)) (managers c)),
       k\<lparr>kvm_coord := c\<lparr>managers := map (\<lambda>m. snd (take_new_block_ids m)) (managers c)\<rparr>\<rparr>))"

definition kvm_new_step_starts :: "kv_manager \<Rightarrow> kv_manager" where
  "kvm_new_step_starts k = k\<lparr>kvm_coord := coord_new_step_starts (kvm_coord k)\<rparr>"

end
