(* ===== verification/KV_Manager_Runs.thy ===== *)
theory KV_Manager_Runs
  imports KV_Manager
begin

text \<open>
  Runs of the KV cache manager as the scheduler drives it: a request is admitted with the blocks the
  prefix cache lookup has just returned, extended step by step, and freed. In every run the
  block tables of the requests account for every reference the pool counts.
\<close>

section \<open>The invariant\<close>

definition kvm_inv :: "kv_manager \<Rightarrow> bool" where
  "kvm_inv k \<longleftrightarrow> coord_inv (kvm_coord k) \<and> coord_wf (kvm_coord k) \<and> coord_supported (kvm_coord k) \<and>
     kvm_caching k = coord_caching (kvm_coord k) \<and> num_kv_cache_groups k = length (managers (kvm_coord k)) \<and> 0 \<le> kvm_max_model_len k"

definition kvm_frame :: "string \<Rightarrow> kv_manager \<Rightarrow> kv_manager \<Rightarrow> bool" where
  "kvm_frame rid k k' \<longleftrightarrow> coord_frame rid (kvm_coord k) (kvm_coord k') \<and> kvm_caching k' = kvm_caching k \<and>
     num_kv_cache_groups k' = num_kv_cache_groups k \<and> kvm_max_model_len k' = kvm_max_model_len k"

lemma kvm_frame_trans: "kvm_frame rid k k' \<Longrightarrow> kvm_frame rid k' k'' \<Longrightarrow> kvm_frame rid k k''"
  using coord_frame_trans by (auto simp: kvm_frame_def)

lemma coord_supported_frame: "coord_frame rid c c' \<Longrightarrow> coord_supported c' = coord_supported c"
  by (simp add: coord_frame_def coord_supported_def split: coordinator_class.split)

lemma coord_frame_length: "coord_frame rid c c' \<Longrightarrow> length (managers c') = length (managers c)"
  by (auto simp: coord_frame_def list_all2_lengthD)

lemma kvm_inv_frame:
  assumes "kvm_inv k" "kvm_frame rid k k'" "coord_inv (kvm_coord k')"
  shows "kvm_inv k'"
proof -
  have f: "coord_frame rid (kvm_coord k) (kvm_coord k')" using assms(2) by (simp add: kvm_frame_def)
  have "coord_caching (kvm_coord k') = coord_caching (kvm_coord k)" using f by (simp add: coord_frame_def)
  moreover have "coord_wf (kvm_coord k')" using assms(1) coord_wf_frame[OF _ f] by (simp add: kvm_inv_def)
  ultimately show ?thesis
    using assms coord_supported_frame[OF f] coord_frame_length[OF f] by (simp add: kvm_inv_def kvm_frame_def)
qed

section \<open>Operations of the coordinator\<close>

abbreviation computed_fits :: "bref list list \<Rightarrow> int \<Rightarrow> int \<Rightarrow> coordinator \<Rightarrow> bool" where
  "computed_fits computed num_local num_external c \<equiv>
     \<forall>j < length (managers c). computed_ok computed num_local num_external j (managers c ! j) (coord_pool c)"

lemma computed_fits_frame:
  assumes "computed_fits computed nl ne c" "coord_frame rid c c'"
  shows "computed_fits computed nl ne c'"
proof (intro allI impI)
  fix j assume j: "j < length (managers c')"
  then have "keeps_others rid (managers c ! j) (managers c' ! j)" "j < length (managers c)" "same_config (coord_pool c) (coord_pool c')"
    using assms(2) by (auto simp: coord_frame_def list_all2_conv_all_nth)
  then show "computed_ok computed nl ne j (managers c' ! j) (coord_pool c')"
    using assms(1) by (auto simp: computed_ok_def keeps_others_def list_ok_config)
qed

lemma coord_inv_caching: "coord_inv c \<Longrightarrow> enable_caching (coord_pool c) = coord_caching c"
  by (simp add: coord_inv_def)

lemma allocate_phase_inv:
  assumes inv: "coord_inv c" and fits: "computed_fits computed nl ne c" and main: "0 \<le> tokens_main"
    and res: "allocate_phase c rid computed shared nl ne need_slot tokens_main enc = Inr (new, c')"
  shows "coord_inv c' \<and> coord_frame rid c c'"
proof -
  obtain c1 where c1: "(if \<not> shared \<or> 0 < ne then coord_allocate_new_computed c rid computed nl ne else Inr ((), c)) = Inr ((), c1)"
    and c2: "coord_allocate_new_blocks c1 rid need_slot tokens_main enc = Inr (new, c')"
    using res by (auto simp: allocate_phase_def bindE_Inr_iff)
  have i: "coord_inv c1 \<and> coord_frame rid c c1"
  proof (cases "\<not> shared \<or> 0 < ne")
    case True
    then have "with_managers (computed_step rid computed nl ne) () c = Inr ((), c1)" using c1 by (simp add: coord_allocate_new_computed_def)
    from computed.with_managers_inv[OF inv fits _ this] show ?thesis by simp
  qed (use c1 inv in simp)
  from new.with_managers_inv[OF _ _ _ c2[unfolded coord_allocate_new_blocks_def]] i main
  show ?thesis using coord_frame_trans by auto
qed

lemma cache_phase_inv:
  assumes inv: "coord_inv c" and k: "kvm_caching k = coord_caching c" and res: "cache_phase sha256 k c r delay tokens = Inr (r', c')"
  shows "coord_inv c' \<and> coord_frame (request_id r) c c' \<and> (\<exists>d. r' = r\<lparr>prompt_embeds_hashes := d\<rparr>)"
proof (cases "\<not> kvm_caching k \<or> delay")
  case True
  then have "r' = r\<lparr>prompt_embeds_hashes := prompt_embeds_hashes r\<rparr>" "c' = c" using res by (simp_all add: cache_phase_def)
  then show ?thesis using inv by (metis coord_frame_refl)
next
  case False
  then have r: "with_managers (cache_step_of sha256 (min tokens (num_tokens r))) r c = Inr (r', c')"
    using res by (simp add: cache_phase_def coord_cache_blocks_def)
  have self: "\<exists>d. r = r\<lparr>prompt_embeds_hashes := d\<rparr>" by (rule exI[of _ "prompt_embeds_hashes r"]) simp
  have "\<forall>j < length (managers c). enable_caching (coord_pool c)" using False k coord_inv_caching[OF inv] by simp
  from cached.with_managers_inv[OF inv this self r] show ?thesis by simp
qed

lemma allocate_slots_inv:
  assumes inv: "kvm_inv k" and pos: "0 \<le> num_new" "0 \<le> ext" "0 \<le> num_computed_tokens r + nc"
    and fits: "computed_fits (computed_list k b) (num_computed_tokens r + nc) ext (kvm_coord k)"
    and res: "allocate_slots sha256 k r num_new nc b look ext delay enc = Inr (res, k', r')"
  shows "kvm_inv k' \<and> kvm_frame (request_id r) k k' \<and> (\<exists>d. r' = r\<lparr>prompt_embeds_hashes := d\<rparr>)"
proof -
  let ?nl = "num_computed_tokens r + nc" and ?rid = "request_id r"
  let ?tc = "min (?nl + ext) (kvm_max_model_len k)"
  let ?main = "?tc + num_new"
  let ?need = "min (?main + look) (kvm_max_model_len k)"
  have c: "coord_inv (kvm_coord k)" "kvm_caching k = coord_caching (kvm_coord k)" "0 \<le> kvm_max_model_len k"
    using inv by (simp_all add: kvm_inv_def)
  from res obtain c1 n c2 where c1: "coord_remove_skipped (kvm_coord k) ?rid ?tc = Inr ((), c1)"
    and c2: "coord_num_blocks_to_allocate c1 ?rid ?need (computed_list k b) enc (?nl + ext) ?main = Inr (n, c2)"
    and r: "(if get_num_free_blocks (coord_pool c2) < n then Inr (None, k\<lparr>kvm_coord := c2\<rparr>, r)
       else bindE (allocate_phase c2 ?rid (computed_list k b) (is_shared_empty b) ?nl ext ?need ?main enc) (\<lambda>(new, c3).
            bindE (cache_phase sha256 k c3 r delay ?main) (\<lambda>(r1, c4).
            Inr (Some (create_kv_cache_blocks k new), k\<lparr>kvm_coord := c4\<rparr>, r1)))) = Inr (res, k', r')"
    unfolding allocate_slots_def Let_def by (auto simp: bindE_Inr_iff split: if_split_asm)
  have i1: "coord_inv c1" "coord_frame ?rid (kvm_coord k) c1"
    using skipped.with_managers_inv[OF c(1) _ _ c1[unfolded coord_remove_skipped_def]] by simp_all
  have i2: "coord_inv c2" "coord_frame ?rid c1 c2"
    using counted.with_managers_inv[OF i1(1) _ _ c2[unfolded coord_num_blocks_to_allocate_def]] by simp_all
  note f2 = coord_frame_trans[OF i1(2) i2(2)]
  have caching: "kvm_caching k = coord_caching x" if "coord_frame ?rid (kvm_coord k) x" for x
    using that c(2) by (simp add: coord_frame_def)
  have "coord_inv (kvm_coord k') \<and> kvm_frame ?rid k k' \<and> (\<exists>d. r' = r\<lparr>prompt_embeds_hashes := d\<rparr>)"
  proof (cases "get_num_free_blocks (coord_pool c2) < n")
    case True
    then have "k' = k\<lparr>kvm_coord := c2\<rparr>" "r' = r\<lparr>prompt_embeds_hashes := prompt_embeds_hashes r\<rparr>" using r by simp_all
    then show ?thesis using i2(1) f2 by (metis kv_manager.select_convs(1,2,5,6) kv_manager.surjective kv_manager.update_convs(5) kvm_frame_def)
  next
    case False
    then obtain new c3 c4 where c3: "allocate_phase c2 ?rid (computed_list k b) (is_shared_empty b) ?nl ext ?need ?main enc = Inr (new, c3)"
      and c4: "cache_phase sha256 k c3 r delay ?main = Inr (r', c4)" and k': "k' = k\<lparr>kvm_coord := c4\<rparr>"
      using r by (auto simp: bindE_Inr_iff)
    have "0 \<le> ?main" using pos c(3) by simp
    then have i3: "coord_inv c3" "coord_frame ?rid c2 c3"
      using allocate_phase_inv[OF i2(1) computed_fits_frame[OF fits f2] _ c3] by simp_all
    note f3 = coord_frame_trans[OF f2 i3(2)]
    from cache_phase_inv[OF i3(1) caching[OF f3] c4]
    show ?thesis using coord_frame_trans[OF f3] by (auto simp: k' kvm_frame_def)
  qed
  then show ?thesis using kvm_inv_frame[OF inv] by blast
qed

section \<open>The prefix cache lookup\<close>

text \<open>No two full blocks of a request have the same hash; hashes chain over the whole prefix.\<close>

definition hashes_ok :: "kv_manager \<Rightarrow> request \<Rightarrow> bool" where
  "hashes_ok k r \<longleftrightarrow> (\<forall>m \<in> set (managers (kvm_coord k)). \<forall>hl. hash_list_for (kvm_pool k) m (block_hashes r) = Inr hl \<longrightarrow> hash_positions hl)"

definition blocks_sound :: "kv_manager \<Rightarrow> request \<Rightarrow> int \<Rightarrow> bref list list \<Rightarrow> bool" where
  "blocks_sound k r n cols \<longleftrightarrow> list_all2 (manager_hit_sound (kvm_pool k) (block_hashes r) n) (managers (kvm_coord k)) cols"

lemma record_hits_frame: "record_hits r n k = Inr k' \<Longrightarrow> kvm_coord k' = kvm_coord k \<and> num_kv_cache_groups k' = num_kv_cache_groups k \<and>
    kvm_caching k' = kvm_caching k \<and> kvm_max_model_len k' = kvm_max_model_len k"
  by (auto simp: record_hits_def split: if_split_asm option.split_asm)

lemma blocks_of_create: "length bs = num_kv_cache_groups k \<Longrightarrow> blocks_of (create_kv_cache_blocks k bs) = bs"
  by (auto simp: create_kv_cache_blocks_def intro!: nth_equalityI)

lemma get_computed_blocks_inv:
  assumes inv: "kvm_inv k" and tokens: "1 \<le> num_tokens r" and res: "get_computed_blocks k r = Some (Inr (b, n, k'))"
  shows "kvm_inv k'" "kvm_coord k' = kvm_coord k" "0 \<le> n" "n < num_tokens r"
    "(b = Shared_Empty (num_kv_cache_groups k) \<and> n = 0) \<or> blocks_sound k r n (blocks_of b)" "num_kv_cache_groups k' = num_kv_cache_groups k"
proof -
  have c: "coord_inv (kvm_coord k)" "coord_wf (kvm_coord k)" "coord_supported (kvm_coord k)" "kvm_caching k = coord_caching (kvm_coord k)"
    "num_kv_cache_groups k = length (managers (kvm_coord k))" using inv by (simp_all add: kvm_inv_def)
  have all: "kvm_inv k' \<and> kvm_coord k' = kvm_coord k \<and> 0 \<le> n \<and> n < num_tokens r \<and>
    ((b = Shared_Empty (num_kv_cache_groups k) \<and> n = 0) \<or> blocks_sound k r n (blocks_of b)) \<and> num_kv_cache_groups k' = num_kv_cache_groups k"
  proof (cases "\<not> kvm_caching k \<or> skip_reading_prefix_cache r")
    case True
    then show ?thesis using res inv tokens by (auto simp: get_computed_blocks_def)
  next
    case False
    from res False obtain cols where f: "coord_find_longest_cache_hit (kvm_coord k) (block_hashes r) (num_tokens r - 1) = Some (Inr (cols, n))"
      and h: "record_hits r n k = Inr k'" and b: "b = create_kv_cache_blocks k' cols"
      by (auto simp: get_computed_blocks_def bindE_Inr_iff)
    have "coord_caching (kvm_coord k)" "0 \<le> num_tokens r - 1" using False c(4) tokens by simp_all
    from coord_find_sound[OF c(1-3) this f] have s: "0 \<le> n" "n \<le> num_tokens r - 1" "blocks_sound k r n cols"
      by (simp_all add: blocks_sound_def)
    note fr = record_hits_frame[OF h]
    have "length cols = num_kv_cache_groups k'" using s(3) c(5) fr by (simp add: blocks_sound_def list_all2_lengthD)
    then have "blocks_of b = cols" unfolding b by (rule blocks_of_create)
    then show ?thesis using s fr inv by (simp add: kvm_inv_def)
  qed
  then show "kvm_inv k'" "kvm_coord k' = kvm_coord k" "0 \<le> n" "n < num_tokens r"
    "(b = Shared_Empty (num_kv_cache_groups k) \<and> n = 0) \<or> blocks_sound k r n (blocks_of b)" "num_kv_cache_groups k' = num_kv_cache_groups k"
    by blast+
qed

lemma computed_fits_empty: "0 \<le> nl \<Longrightarrow> 0 \<le> ext \<Longrightarrow> computed_fits (replicate n []) nl ext c"
  by (simp add: computed_ok_def)

lemma blocks_sound_column:
  assumes inv: "coord_inv (kvm_coord k)" and pos: "hashes_ok k r" and n: "0 \<le> n" and b: "blocks_sound k r n cols" and j: "j < length (managers (kvm_coord k))"
  shows "list_ok (kvm_pool k) (cols ! j) \<and> int (length (cols ! j)) * mgr_block_size (managers (kvm_coord k) ! j) = n"
proof -
  let ?m = "managers (kvm_coord k) ! j"
  have m: "?m \<in> set (managers (kvm_coord k))" using j by simp
  have bs: "0 < mgr_block_size ?m" and null: "null_block (kvm_pool k) = Blk 0"
    using inv m pool_holds_facts(1) by (auto simp: coord_inv_def all_ok_def part_ok_def)
  from b j obtain hl where hl: "hash_list_for (kvm_pool k) ?m (block_hashes r) = Inr hl" "mgr_block_size ?m dvd n"
    "hit_column (kvm_pool k) hl (nat (skipped_tokens (mgr_spec ?m) n div mgr_block_size ?m)) (nat (n div mgr_block_size ?m)) (cols ! j)
       (kv_cache_group_id ?m)"
    by (auto simp: blocks_sound_def list_all2_conv_all_nth manager_hit_sound_def)
  have "hash_positions hl" using pos m hl(1) by (auto simp: hashes_ok_def)
  then have "list_ok (kvm_pool k) (cols ! j)" by (rule hit_column_list_ok[OF hl(3) null])
  moreover have "length (cols ! j) = nat (n div mgr_block_size ?m)" using hl(3) by (simp add: hit_column_def)
  ultimately show ?thesis using bs n hl(2) by (simp add: pos_imp_zdiv_nonneg_iff)
qed

lemma computed_fits_sound:
  assumes inv: "coord_inv (kvm_coord k)" and pos: "hashes_ok k r" and n: "0 \<le> n" "n \<le> nl" "0 \<le> ext" and b: "blocks_sound k r n cols"
  shows "computed_fits cols nl ext (kvm_coord k)"
  using blocks_sound_column[OF inv pos n(1) b] n by (simp add: computed_ok_def)

section \<open>Runs\<close>

inductive kvm_run :: "kv_manager \<Rightarrow> bool" where
  init: "config_ok args cfg \<Longrightarrow> 0 \<le> arg_max_model_len args \<Longrightarrow> kv_manager_init args log_stats cfg = Inr k \<Longrightarrow>
    coord_supported (kvm_coord k) \<Longrightarrow> kvm_run k"
| admit: "kvm_run k \<Longrightarrow> get_computed_blocks k r = Some (Inr (b, n, k1)) \<Longrightarrow>
    allocate_slots sha256 k1 r num_new n (Some b) look ext delay enc = Inr (res, k2, r2) \<Longrightarrow>
    hashes_ok k r \<Longrightarrow> 1 \<le> num_tokens r \<Longrightarrow> 0 \<le> num_computed_tokens r \<Longrightarrow> 0 \<le> num_new \<Longrightarrow> 0 \<le> ext \<Longrightarrow> kvm_run k2"
| extend: "kvm_run k \<Longrightarrow> allocate_slots sha256 k r num_new 0 None look ext delay enc = Inr (res, k2, r2) \<Longrightarrow>
    0 \<le> num_computed_tokens r \<Longrightarrow> 0 \<le> num_new \<Longrightarrow> 0 \<le> ext \<Longrightarrow> kvm_run k2"
| fit: "kvm_run k \<Longrightarrow> can_fit_full_sequence k r n b ext enc = Inr (ok, k1) \<Longrightarrow> kvm_run k1"
| free: "kvm_run k \<Longrightarrow> kvm_free k r = Inr k1 \<Longrightarrow> kvm_run k1"
| skip: "kvm_run k \<Longrightarrow> kvm_remove_skipped_blocks k rid n = Inr k1 \<Longrightarrow> kvm_run k1"
| cache: "kvm_run k \<Longrightarrow> kvm_cache_blocks sha256 k r n = Inr (k1, r1) \<Longrightarrow> kvm_run k1"
| evict: "kvm_run k \<Longrightarrow> kvm_evict_blocks k ids = Inr k1 \<Longrightarrow> \<forall>i \<in> set ids. 0 \<le> i \<Longrightarrow> kvm_run k1"
| reset: "kvm_run k \<Longrightarrow> kvm_reset_prefix_cache k = Inr (ok, k1) \<Longrightarrow> kvm_run k1"
| common: "kvm_run k \<Longrightarrow> kvm_num_common_prefix_blocks k rid = Inr (ns, k1) \<Longrightarrow> kvm_run k1"
| events: "kvm_run k \<Longrightarrow> kvm_take_events k = (es, k1) \<Longrightarrow> kvm_run k1"
| ids: "kvm_run k \<Longrightarrow> kvm_take_new_block_ids k = (bids, k1) \<Longrightarrow> kvm_run k1"
| stats: "kvm_run k \<Longrightarrow> make_prefix_cache_stats k = (st, k1) \<Longrightarrow> kvm_run k1"
| step_starts: "kvm_run k \<Longrightarrow> kvm_run (kvm_new_step_starts k)"

lemma kvm_init_inv:
  assumes "config_ok args cfg" "0 \<le> arg_max_model_len args" "kv_manager_init args log_stats cfg = Inr k" "coord_supported (kvm_coord k)"
  shows "kvm_inv k"
proof -
  from assms(3) obtain c where c: "get_kv_cache_coordinator args cfg = Inr c"
    and k: "k = \<lparr>kvm_max_model_len = arg_max_model_len args, kvm_caching = arg_caching args, kvm_log_stats = log_stats,
            kvm_stats = (if log_stats then Some new_stats else None), kvm_coord = c,
            num_kv_cache_groups = length (kv_cache_groups cfg)\<rparr>" by (auto simp: kv_manager_init_def bindE_Inr_iff)
  note b = coordinator_built[OF assms(1) c]
  then show ?thesis using assms(2,4) k by (simp add: kvm_inv_def coord_wf_def)
qed

text \<open>Operations that only change bookkeeping fields of the managers, or only the pool.\<close>

definition same_tables :: "st_manager \<Rightarrow> st_manager \<Rightarrow> bool" where
  "same_tables m m' \<longleftrightarrow> req_to_blocks m' = req_to_blocks m \<and> allocated_block_reqs m' = allocated_block_reqs m \<and>
     num_cached_block m' = num_cached_block m \<and> mgr_spec m' = mgr_spec m \<and> mgr_block_size m' = mgr_block_size m \<and>
     mgr_caching m' = mgr_caching m \<and> kv_cache_group_id m' = kv_cache_group_id m"

lemma same_tables_facts:
  assumes "same_tables m m'"
  shows "part_ok p m' = part_ok p m" "table_refs m' = table_refs m" "keeps_others rid m m'"
proof -
  have "req_blocks m' = req_blocks m" using assms by (simp add: same_tables_def req_blocks_def fun_eq_iff)
  then show "part_ok p m' = part_ok p m" "keeps_others rid m m'"
    using assms by (auto simp: same_tables_def part_ok_def tables_ok_def states_ok_def keeps_others_def)
  show "table_refs m' = table_refs m" using assms by (simp add: same_tables_def table_refs_def fun_eq_iff)
qed

lemma map_managers_inv:
  assumes inv: "kvm_inv k" and f: "\<And>m. same_tables m (f m)"
    and k': "k' = k\<lparr>kvm_coord := (kvm_coord k)\<lparr>managers := map f (managers (kvm_coord k))\<rparr>\<rparr>"
  shows "kvm_inv k'"
proof -
  have "all_refs (map f ms) i = all_refs ms i" for ms i
    by (induction ms) (simp_all add: same_tables_facts(2)[OF f])
  then have "coord_inv (kvm_coord k')" using inv unfolding k' kvm_inv_def
    by (auto simp: coord_inv_def all_ok_def same_tables_facts(1)[OF f])
  moreover have "kvm_frame rid k k'" for rid
    by (auto simp: k' kvm_frame_def coord_frame_def list_all2_conv_all_nth same_tables_facts(3)[OF f])
  ultimately show ?thesis using kvm_inv_frame[OF inv] by blast
qed

lemma pool_change_inv:
  assumes inv: "kvm_inv k" and p: "\<And>held. pool_holds (kvm_pool k) held \<Longrightarrow> pool_holds p held \<and> same_config (kvm_pool k) p"
    and k': "kvm_coord k' = (kvm_coord k)\<lparr>coord_pool := p\<rparr>" "kvm_caching k' = kvm_caching k"
      "num_kv_cache_groups k' = num_kv_cache_groups k" "kvm_max_model_len k' = kvm_max_model_len k"
  shows "kvm_inv k'"
proof -
  have h: "pool_holds (kvm_pool k) (\<lambda>i. 0 + all_refs (managers (kvm_coord k)) i)" "enable_caching (kvm_pool k) = coord_caching (kvm_coord k)"
    "\<forall>m \<in> set (managers (kvm_coord k)). part_ok (kvm_pool k) m"
    using inv by (simp_all add: kvm_inv_def coord_inv_def all_ok_def)
  have p': "pool_holds p (\<lambda>i. 0 + all_refs (managers (kvm_coord k)) i)" "same_config (kvm_pool k) p" using p[OF h(1)] by simp_all
  then have "coord_inv (kvm_coord k')"
    using h(2,3) part_ok_config[OF p'(2)] unfolding k' by (auto simp: coord_inv_def all_ok_def same_config_def)
  moreover have "kvm_frame rid k k'" for rid
    using p'(2) by (simp add: k' kvm_frame_def coord_frame_def list_all2_refl)
  ultimately show ?thesis using kvm_inv_frame[OF inv] by blast
qed

lemma kvm_op_inv:
  assumes inv: "kvm_inv k" and c: "coord_inv c" "coord_frame rid (kvm_coord k) c"
  shows "kvm_inv (k\<lparr>kvm_coord := c\<rparr>)"
  using kvm_inv_frame[OF inv, of rid "k\<lparr>kvm_coord := c\<rparr>"] c by (simp add: kvm_frame_def)

lemma admit_fits:
  assumes inv: "kvm_inv k" and b: "get_computed_blocks k r = Some (Inr (b, n, k1))"
    and h: "hashes_ok k r" "1 \<le> num_tokens r" "0 \<le> num_computed_tokens r" "0 \<le> ext"
  shows "kvm_inv k1" "kvm_coord k1 = kvm_coord k" "0 \<le> num_computed_tokens r + n"
    "computed_fits (computed_list k1 (Some b)) (num_computed_tokens r + n) ext (kvm_coord k1)"
proof -
  note g = get_computed_blocks_inv[OF inv h(2) b]
  have "computed_fits (blocks_of b) (num_computed_tokens r + n) ext (kvm_coord k)"
    using g(5)
  proof
    assume "blocks_sound k r n (blocks_of b)"
    then show ?thesis using inv h g(3) by (intro computed_fits_sound) (auto simp: kvm_inv_def)
  qed (use h in \<open>simp add: computed_ok_def\<close>)
  then show "kvm_inv k1" "kvm_coord k1 = kvm_coord k" "0 \<le> num_computed_tokens r + n"
    "computed_fits (computed_list k1 (Some b)) (num_computed_tokens r + n) ext (kvm_coord k1)"
    using g(1-3) h(3) by (simp_all add: computed_list_def)
qed

lemma kvm_run_inv: "kvm_run k \<Longrightarrow> kvm_inv k"
proof (induction rule: kvm_run.induct)
  case (init args cfg log_stats k)
  then show ?case by (rule kvm_init_inv)
next
  case (admit k r b n k1 sha256 num_new look ext delay enc res k2 r2)
  note f = admit_fits[OF admit.IH admit.hyps(2,4,5,6,8)]
  show ?case using allocate_slots_inv[OF f(1) admit.hyps(7,8) f(3,4) admit.hyps(3)] by blast
next
  case (extend k sha256 r num_new look ext delay enc res k2 r2)
  have "computed_fits (computed_list k None) (num_computed_tokens r + 0) ext (kvm_coord k)"
    using extend.hyps by (simp add: computed_list_def computed_ok_def)
  then show ?case using allocate_slots_inv[OF extend.IH extend.hyps(4,5) _ _ extend.hyps(2)] extend.hyps(3) by simp
next
  case (fit k r n b ext enc ok k1)
  then obtain c m t bs tc tm where c: "with_managers (count_step (request_id r) t bs enc tc tm) 0 (kvm_coord k) = Inr (m, c)"
    and k1: "k1 = k\<lparr>kvm_coord := c\<rparr>"
    by (auto simp: can_fit_full_sequence_def coord_num_blocks_to_allocate_def Let_def bindE_Inr_iff)
  have "coord_inv (kvm_coord k)" using fit.IH by (simp add: kvm_inv_def)
  from counted.with_managers_inv[OF this _ _ c] show ?case unfolding k1 using kvm_op_inv[OF fit.IH] by blast
next
  case (free k r k1)
  then obtain c where c: "with_managers (free_step (request_id r)) () (kvm_coord k) = Inr ((), c)" and k1: "k1 = k\<lparr>kvm_coord := c\<rparr>"
    by (auto simp: kvm_free_def coord_free_def bindE_Inr_iff)
  have "coord_inv (kvm_coord k)" using free.IH by (simp add: kvm_inv_def)
  from freed.with_managers_inv[OF this _ _ c] show ?case unfolding k1 using kvm_op_inv[OF free.IH] by blast
next
  case (skip k rid n k1)
  then obtain c where c: "with_managers (skipped_step rid n) () (kvm_coord k) = Inr ((), c)" and k1: "k1 = k\<lparr>kvm_coord := c\<rparr>"
    by (auto simp: kvm_remove_skipped_blocks_def coord_remove_skipped_def bindE_Inr_iff)
  have "coord_inv (kvm_coord k)" using skip.IH by (simp add: kvm_inv_def)
  from skipped.with_managers_inv[OF this _ _ c] show ?case unfolding k1 using kvm_op_inv[OF skip.IH] by blast
next
  case (cache k sha256 r n k1 r1)
  show ?case
  proof (cases "kvm_caching k")
    case True
    then obtain c where c: "with_managers (cache_step_of sha256 n) r (kvm_coord k) = Inr (r1, c)" and k1: "k1 = k\<lparr>kvm_coord := c\<rparr>"
      using cache.hyps(2) by (auto simp: kvm_cache_blocks_def coord_cache_blocks_def bindE_Inr_iff)
    have i: "coord_inv (kvm_coord k)" "\<forall>j < length (managers (kvm_coord k)). enable_caching (kvm_pool k)"
      using cache.IH True by (simp_all add: kvm_inv_def coord_inv_def)
    have self: "\<exists>d. r = r\<lparr>prompt_embeds_hashes := d\<rparr>" by (rule exI[of _ "prompt_embeds_hashes r"]) simp
    from cached.with_managers_inv[OF i self c] show ?thesis unfolding k1 using kvm_op_inv[OF cache.IH] by blast
  qed (use cache in \<open>simp add: kvm_cache_blocks_def\<close>)
next
  case (evict k ids k1)
  then obtain p where p: "evict_blocks ids (kvm_pool k) = Inr p" "k1 = k\<lparr>kvm_coord := (kvm_coord k)\<lparr>coord_pool := p\<rparr>\<rparr>"
    by (auto simp: kvm_evict_blocks_def bindE_Inr_iff)
  show ?case by (rule pool_change_inv[OF evict.IH, of p]) (use pool_holds_evict[OF _ p(1) evict.hyps(3)] p(2) in simp_all)
next
  case (reset k ok k1)
  obtain b p where p: "reset_prefix_cache (kvm_pool k) = (b, p)" by (cases "reset_prefix_cache (kvm_pool k)")
  show ?case
    by (rule pool_change_inv[OF reset.IH, of p]) (use pool_holds_reset[OF _ p] reset.hyps(2) p in
      \<open>auto simp: kvm_reset_prefix_cache_def Let_def split: if_split_asm option.split_asm\<close>)
next
  case (common k rid ns k1)
  have i: "coord_inv (kvm_coord k)" using common.IH by (simp add: kvm_inv_def)
  from common.hyps(2) obtain c where c: "coord_common_prefix (kvm_coord k) rid = Inr (ns, c)" and k1: "k1 = k\<lparr>kvm_coord := c\<rparr>"
    by (auto simp: kvm_num_common_prefix_blocks_def bindE_Inr_iff)
  then have "coord_inv c \<and> coord_frame rid (kvm_coord k) c"
    using prefix.with_managers_inv[OF i] i by (auto simp: coord_common_prefix_def split: if_split_asm)
  then show ?case unfolding k1 using kvm_op_inv[OF common.IH] by blast
next
  case (events k es k1)
  obtain l p where p: "pool_take_events (kvm_pool k) = (l, p)" by (cases "pool_take_events (kvm_pool k)")
  show ?case
    by (rule pool_change_inv[OF events.IH, of p]) (use pool_holds_events[OF _ p] events.hyps(2) p in \<open>auto simp: kvm_take_events_def\<close>)
next
  case (ids k bids k1)
  have "same_tables m (snd (take_new_block_ids m))" for m by (simp add: take_new_block_ids_def same_tables_def)
  from map_managers_inv[OF ids.IH this] show ?case using ids.hyps(2) by (auto simp: kvm_take_new_block_ids_def Let_def)
next
  case (stats k st k1)
  then have "kvm_coord k1 = kvm_coord k \<and> kvm_caching k1 = kvm_caching k \<and> num_kv_cache_groups k1 = num_kv_cache_groups k \<and> kvm_max_model_len k1 = kvm_max_model_len k"
    by (auto simp: make_prefix_cache_stats_def split: if_split_asm)
  then show ?case using stats.IH by (simp add: kvm_inv_def)
next
  case (step_starts k)
  have "same_tables m (mgr_new_step_starts m)" for m by (simp add: mgr_new_step_starts_def same_tables_def split: kv_cache_spec.split)
  from map_managers_inv[OF step_starts.IH this] show ?case by (simp add: kvm_new_step_starts_def coord_new_step_starts_def)
qed

section \<open>Consequences\<close>

lemma kvm_run_facts:
  assumes "kvm_run k"
  shows "coord_inv (kvm_coord k)" "pool_holds (kvm_pool k) (all_refs (managers (kvm_coord k)))"
    "m \<in> set (managers (kvm_coord k)) \<Longrightarrow> part_ok (kvm_pool k) m"
  using kvm_run_inv[OF assms] by (simp_all add: kvm_inv_def coord_inv_def all_ok_def)

lemma coord_find_returns:
  assumes inv: "coord_inv c" and wf: "coord_wf c" and n: "0 \<le> n"
  shows "\<exists>res. coord_find_longest_cache_hit c hashes n = Some res"
proof (cases "coord_class c")
  case (Hybrid hbs groups l)
  let ?gs = "kv_cache_groups (coord_config c)"
  have w: "split_ok ?gs groups" "\<forall>m \<in> set (managers c). mgr_block_size m = spec_block_size (mgr_spec m)"
    "length (managers c) = length ?gs" "\<forall>g < length (managers c). mgr_spec (managers c ! g) = group_spec (?gs ! g)"
    using wf Hybrid by (auto simp: coord_wf_def class_wf_def)
  have "0 < spec_block_size (fst grp)" if "grp \<in> set groups" for grp
  proof -
    obtain spec ids where grp: "grp = (spec, ids)" by (cases grp)
    with that have s: "(spec, ids) \<in> set groups" by simp
    then have "hd ids \<in> set ids" using split_okD(3)[OF w(1) s] by simp
    from split_okD(4)[OF w(1) s this] obtain g where g: "g < length ?gs" "group_spec (?gs ! g) = spec" by blast
    then have "managers c ! g \<in> set (managers c)" using w(3) by simp
    then have "0 < mgr_block_size (managers c ! g)" "mgr_block_size (managers c ! g) = spec_block_size (mgr_spec (managers c ! g))"
      using inv w(2) by (simp_all add: coord_inv_def all_ok_def part_ok_def)
    moreover have "mgr_spec (managers c ! g) = spec" using w(3,4) g by simp
    ultimately show ?thesis using grp by simp
  qed
  then have pos: "\<forall>grp \<in> set groups. 0 < spec_block_size (fst grp)" by blast
  let ?simple = "length groups = 2 \<and> is_full_attention (fst (hd groups))"
  obtain res where "hybrid_loop (coord_pool c) hbs hashes (coord_eagle c) l groups ?simple n (replicate (length ?gs) None) = Some res"
    using hybrid_loop_returns[OF pos n] by blast
  then show ?thesis by (simp add: coord_find_longest_cache_hit_def Hybrid hybrid_find_def Let_def)
qed (simp_all add: coord_find_longest_cache_hit_def)

text \<open>With statistics switched on there is always a record to add to.\<close>

lemma allocate_slots_stats:
  "allocate_slots sha256 k r num_new nc b look ext delay enc = Inr (res, k', r') \<Longrightarrow>
   kvm_stats k' = kvm_stats k \<and> kvm_log_stats k' = kvm_log_stats k"
  unfolding allocate_slots_def Let_def by (auto simp: bindE_Inr_iff split: if_split_asm)

lemma kvm_run_stats: "kvm_run k \<Longrightarrow> kvm_log_stats k \<longrightarrow> kvm_stats k \<noteq> None"
proof (induction rule: kvm_run.induct)
  case (admit k r b n k1 sha256 num_new look ext delay enc res k2 r2)
  have "kvm_log_stats k1 \<longrightarrow> kvm_stats k1 \<noteq> None" using admit.hyps(2) admit.IH
    by (auto simp: get_computed_blocks_def record_hits_def bindE_Inr_iff split: if_split_asm option.split_asm)
  then show ?case using allocate_slots_stats[OF admit.hyps(3)] by simp
next
  case (extend k sha256 r num_new look ext delay enc res k2 r2)
  then show ?case using allocate_slots_stats[OF extend.hyps(2)] by simp
next
  case (reset k ok k1)
  then show ?case by (auto simp: kvm_reset_prefix_cache_def Let_def split: prod.split_asm if_split_asm option.split_asm)
qed (auto simp: kv_manager_init_def can_fit_full_sequence_def Let_def kvm_free_def kvm_remove_skipped_blocks_def kvm_cache_blocks_def
    kvm_evict_blocks_def kvm_num_common_prefix_blocks_def kvm_take_events_def kvm_take_new_block_ids_def make_prefix_cache_stats_def
    kvm_new_step_starts_def bindE_Inr_iff split: if_split_asm prod.split_asm)

text \<open>Freeing requests never fails and removes exactly their tables.\<close>

definition has_table :: "kv_manager \<Rightarrow> string \<Rightarrow> bool" where
  "has_table k rid \<longleftrightarrow> (\<exists>m \<in> set (managers (kvm_coord k)). dget (req_to_blocks m) rid \<noteq> None)"

lemma deleted_tables:
  "list_all2 (\<lambda>m m'. req_to_blocks m' = ddel d (req_to_blocks m)) ms ms' \<Longrightarrow>
   (\<exists>m \<in> set ms'. \<exists>bs. dget (req_to_blocks m) rid = Some bs) = (rid \<noteq> d \<and> (\<exists>m \<in> set ms. \<exists>bs. dget (req_to_blocks m) rid = Some bs))"
  by (induction rule: list_all2_induct) auto

lemma kvm_free_returns:
  assumes "kvm_run k"
  obtains k' where "kvm_free k r = Inr k'" "kvm_run k'" "\<forall>rid. has_table k' rid = (rid \<noteq> request_id r \<and> has_table k rid)"
    "kvm_frame (request_id r) k k'"
proof -
  note inv = kvm_run_facts(1)[OF assms]
  obtain c where c: "with_managers (free_step (request_id r)) () (kvm_coord k) = Inr ((), c)"
    and t: "list_all2 (\<lambda>m m'. req_to_blocks m' = ddel (request_id r) (req_to_blocks m)) (managers (kvm_coord k)) (managers c)"
    by (rule freed_all.with_managers_returns[OF inv, where rid = "request_id r" and x = "()"]) auto
  let ?k = "k\<lparr>kvm_coord := c\<rparr>"
  have f: "kvm_free k r = Inr ?k" by (simp add: kvm_free_def coord_free_def c)
  have "has_table ?k rid = (rid \<noteq> request_id r \<and> has_table k rid)" for rid
    using deleted_tables[OF t] by (simp add: has_table_def)
  moreover have "kvm_frame (request_id r) k ?k" using freed.with_managers_inv[OF inv _ _ c] by (simp add: kvm_frame_def)
  ultimately show thesis using that f kvm_run.free[OF assms f] by blast
qed

lemma kvm_free_all:
  assumes "kvm_run k"
  shows "\<exists>k'. foldE (\<lambda>r k. kvm_free k r) rs k = Inr k' \<and> kvm_run k' \<and>
     (\<forall>rid. has_table k' rid = (rid \<notin> request_id ` set rs \<and> has_table k rid)) \<and> same_config (kvm_pool k) (kvm_pool k')"
  using assms
proof (induction rs arbitrary: k)
  case (Cons r rs)
  obtain k1 where k1: "kvm_free k r = Inr k1" "kvm_run k1" "\<forall>rid. has_table k1 rid = (rid \<noteq> request_id r \<and> has_table k rid)"
    "kvm_frame (request_id r) k k1" by (rule kvm_free_returns[OF Cons.prems, of r])
  have "same_config (kvm_pool k) (kvm_pool k1)" using k1(4) by (simp add: kvm_frame_def coord_frame_def)
  then show ?case using Cons.IH[OF k1(2)] k1(1,3) same_config_trans by fastforce
qed (simp add: same_config_def)

lemma no_tables_no_refs:
  assumes "\<forall>rid. \<not> has_table k rid"
  shows "all_refs (managers (kvm_coord k)) i = 0"
proof -
  have "table_refs m i = 0" if "m \<in> set (managers (kvm_coord k))" for m
  proof -
    have none: "rid \<notin> set (dkeys (req_to_blocks m))" for rid
      using assms that dget_None_iff[of "req_to_blocks m" rid] by (simp add: has_table_def)
    have "set (dkeys (req_to_blocks m)) = {}" by (rule equals0I) (rule notE[OF none])
    then have "req_to_blocks m = []" by simp
    then show ?thesis by (simp add: table_refs_def)
  qed
  then show ?thesis by (simp add: all_refs_def)
qed

lemma reset_succeeds:
  assumes "pool_holds p (\<lambda>i. 0)"
  shows "\<exists>p'. reset_prefix_cache p = (True, p')"
proof -
  obtain held q where q: "run_inv p held q" "\<forall>i > 0. 0 = held i" by (rule pool_holds_inv[OF assms])
  note inv = run_invD(1)[OF q(1)]
  have "int (length q) = num_gpu_blocks p - 1"
    using pool_inv_num_free[OF inv] pool_holds_free[OF assms] card_in_pool[OF pool_invD(1)[OF inv]] by simp
  then show ?thesis using reset_prefix_cache_inv[OF inv] by auto
qed

end
