(* ===== verification/KV_Allocation.thy ===== *)
theory KV_Allocation
  imports KV_Manager_Runs
begin

text \<open>
  Allocation after the check of the free blocks. \<open>get_num_blocks_to_allocate\<close> counts the blocks of every
  group beforehand; when the pool has as many, neither adopting the computed blocks nor allocating the new
  ones raises, and the tables of the request afterwards cover the tokens that need slots.
\<close>

section \<open>One manager\<close>

definition slot_tokens :: "st_manager \<Rightarrow> int \<Rightarrow> int" where
  "slot_tokens m tokens =
     (case mgr_spec m of
        MambaSpec f \<Rightarrow> if 0 < num_speculative_blocks f then tokens + mgr_block_size m * num_speculative_blocks f else tokens
      | _ \<Rightarrow> tokens)"

definition plain_manager :: "st_manager \<Rightarrow> bool" where
  "plain_manager m \<longleftrightarrow> \<not> align_mode m \<and> \<not> is_cross_attention m \<and>
     (case mgr_spec m of MambaSpec f \<Rightarrow> mamba_block_size f = mgr_block_size m | _ \<Rightarrow> True)"

definition skipped_blocks :: "int \<Rightarrow> st_manager \<Rightarrow> int" where
  "skipped_blocks total_computed m = get_num_skipped_tokens m total_computed div mgr_block_size m"

abbreviation mamba_manager :: "st_manager \<Rightarrow> bool" where
  "mamba_manager m \<equiv> (case mgr_spec m of MambaSpec f \<Rightarrow> True | _ \<Rightarrow> False)"

text \<open>
  A request is either new to the manager, or running and brings no computed blocks; when the computed
  blocks are not adopted, its table reaches at least up to the skipped blocks.
\<close>

definition request_ready :: "string \<Rightarrow> bref list list \<Rightarrow> bool \<Rightarrow> int \<Rightarrow> nat \<Rightarrow> st_manager \<Rightarrow> bool" where
  "request_ready rid computed shared total_computed j m \<longleftrightarrow> plain_manager m \<and> j < length computed \<and> (mgr_caching m \<or> computed ! j = []) \<and>
     (if dget (num_cached_block m) rid \<noteq> None then computed ! j = []
      else if shared then computed ! j = [] \<and> skipped_blocks total_computed m \<le> int (length (req_blocks m rid))
      else req_blocks m rid = [])"

definition adopted_length :: "string \<Rightarrow> bref list list \<Rightarrow> bool \<Rightarrow> int \<Rightarrow> nat \<Rightarrow> st_manager \<Rightarrow> nat" where
  "adopted_length rid computed shared total_computed j m =
     (if dget (num_cached_block m) rid \<noteq> None \<or> shared then length (req_blocks m rid)
      else max (nat (skipped_blocks total_computed m)) (length (computed ! j)))"

definition missing_blocks :: "int \<Rightarrow> st_manager \<Rightarrow> nat \<Rightarrow> int" where
  "missing_blocks tokens m n = max 0 (cdiv (slot_tokens m tokens) (mgr_block_size m) - int n)"

abbreviation revived_blocks :: "block_pool \<Rightarrow> bref list list \<Rightarrow> int \<Rightarrow> nat \<Rightarrow> st_manager \<Rightarrow> int" where
  "revived_blocks p computed total_computed j m \<equiv> get_num_evictable_blocks p (drop (nat (skipped_blocks total_computed m)) (computed ! j))"

lemma evictable_nonneg [simp]: "0 \<le> get_num_evictable_blocks p bs" "get_num_evictable_blocks p [] = 0"
  by (simp_all add: get_num_evictable_blocks_def)

lemma base_count_ready:
  assumes "request_ready rid computed shared total_computed j m"
  shows "base_num_blocks_to_allocate m p rid (slot_tokens m tokens) (computed ! j) total_computed =
    Inr (missing_blocks tokens m (adopted_length rid computed shared total_computed j m) + revived_blocks p computed total_computed j m)"
proof -
  let ?s = "skipped_blocks total_computed m"
  consider (running) "dget (num_cached_block m) rid \<noteq> None" "computed ! j = []"
    | (shared) "dget (num_cached_block m) rid = None" shared "computed ! j = []" "?s \<le> int (length (req_blocks m rid))"
    | (new) "dget (num_cached_block m) rid = None" "\<not> shared" "req_blocks m rid = []"
    using assms by (auto simp: request_ready_def split: if_split_asm)
  then show ?thesis
  proof cases
    case running
    then show ?thesis by (simp add: base_num_blocks_to_allocate_def Let_def missing_blocks_def adopted_length_def max.commute)
  next
    case shared
    then have "max ?s (int (length (req_blocks m rid))) = int (length (req_blocks m rid))" by simp
    then show ?thesis using shared
      by (simp add: base_num_blocks_to_allocate_def Let_def missing_blocks_def adopted_length_def max.commute flip: skipped_blocks_def)
  next
    case new
    have "int (max (nat ?s) (length (computed ! j))) = max ?s (int (length (computed ! j)))" "nat (max 0 ?s) = nat ?s" by auto
    then show ?thesis using new
      by (simp add: base_num_blocks_to_allocate_def Let_def missing_blocks_def adopted_length_def max.commute flip: skipped_blocks_def)
  qed
qed

lemma count_ready:
  assumes r: "request_ready rid computed shared total_computed j m"
  shows "\<exists>n. count_step rid tokens computed enc total_computed main j m p x = Inr (m, p, x + n) \<and> (n = num_gpu_blocks p + 1 \<and> mamba_manager m \<or>
    n = missing_blocks tokens m (adopted_length rid computed shared total_computed j m) + revived_blocks p computed total_computed j m)"
proof -
  have pl: "\<not> align_mode m" "\<not> is_cross_attention m" and j: "j < length computed"
    using r by (simp_all add: request_ready_def plain_manager_def)
  have nth: "py_nth computed (int j) = Inr (computed ! j)" using j by (simp add: py_nth_def)
  note b = base_count_ready[OF r, of p tokens]
  show ?thesis
  proof (cases "\<exists>f. mgr_spec m = MambaSpec f")
    case True
    then obtain f where f: "mgr_spec m = MambaSpec f" by blast
    then have "mamba_block_size f = mgr_block_size m" "mamba_cache_mode f \<noteq> ''align''"
      using r pl by (simp_all add: request_ready_def plain_manager_def align_mode_def)
    then show ?thesis using b f nth
      by (auto simp: count_step_def get_num_blocks_to_allocate_def mamba_num_blocks_to_allocate_def slot_tokens_def)
  next
    case False
    then have "slot_tokens m tokens = tokens" "get_num_blocks_to_allocate m p rid tokens (computed ! j) total_computed main =
        bindE (base_num_blocks_to_allocate m p rid tokens (computed ! j) total_computed) (\<lambda>n. Inr (n, m))"
      by (auto simp: slot_tokens_def get_num_blocks_to_allocate_def split: kv_cache_spec.split)
    then show ?thesis using b nth pl(2) by (simp add: count_step_def)
  qed
qed

section \<open>All managers\<close>

definition all_missing :: "string \<Rightarrow> int \<Rightarrow> bref list list \<Rightarrow> bool \<Rightarrow> int \<Rightarrow> nat \<Rightarrow> st_manager list \<Rightarrow> int" where
  "all_missing rid tokens computed shared total_computed i ms =
     (\<Sum>(j, m)\<leftarrow>enumerate i ms. missing_blocks tokens m (adopted_length rid computed shared total_computed j m))"

definition all_revived :: "block_pool \<Rightarrow> bref list list \<Rightarrow> int \<Rightarrow> nat \<Rightarrow> st_manager list \<Rightarrow> int" where
  "all_revived p computed total_computed i ms = (\<Sum>(j, m)\<leftarrow>enumerate i ms. revived_blocks p computed total_computed j m)"

lemma all_missing_simps [simp]:
  "all_missing rid tokens computed shared total_computed i [] = 0"
  "all_missing rid tokens computed shared total_computed i (m # ms) =
     missing_blocks tokens m (adopted_length rid computed shared total_computed i m) +
     all_missing rid tokens computed shared total_computed (Suc i) ms"
  by (simp_all add: all_missing_def)

lemma all_revived_simps [simp]:
  "all_revived p computed total_computed i [] = 0"
  "all_revived p computed total_computed i (m # ms) =
     revived_blocks p computed total_computed i m + all_revived p computed total_computed (Suc i) ms"
  by (simp_all add: all_revived_def)

lemma missing_nonneg [simp]: "0 \<le> missing_blocks tokens m n" "0 \<le> all_missing rid tokens computed shared total_computed i ms"
proof -
  show "0 \<le> missing_blocks tokens m n" for m n by (simp add: missing_blocks_def)
  then show "0 \<le> all_missing rid tokens computed shared total_computed i ms" by (induction ms arbitrary: i) simp_all
qed

lemma revived_nonneg [simp]: "0 \<le> all_revived p computed total_computed i ms"
  by (induction ms arbitrary: i) simp_all

abbreviation ready_from :: "string \<Rightarrow> bref list list \<Rightarrow> bool \<Rightarrow> int \<Rightarrow> nat \<Rightarrow> st_manager list \<Rightarrow> bool" where
  "ready_from rid computed shared total_computed i ms \<equiv>
     \<forall>j < length ms. request_ready rid computed shared total_computed (i + j) (ms ! j)"

lemma ready_from_Cons:
  "ready_from rid computed shared total_computed i (m # ms) \<longleftrightarrow>
   request_ready rid computed shared total_computed i m \<and> ready_from rid computed shared total_computed (Suc i) ms"
  by (auto simp: All_less_Suc2)

lemma count_loop:
  assumes "ready_from rid computed shared total_computed i ms" "0 \<le> num_gpu_blocks p"
  shows "\<exists>n. for_managers (count_step rid tokens computed enc total_computed main) i ms p x = Inr (ms, p, x + n) \<and> 0 \<le> n \<and>
    (num_gpu_blocks p < n \<and> (\<exists>m \<in> set ms. mamba_manager m) \<or> n = all_missing rid tokens computed shared total_computed i ms + all_revived p computed total_computed i ms)"
  using assms(1)
proof (induction ms arbitrary: i x)
  case (Cons m ms)
  note r = Cons.prems[unfolded ready_from_Cons]
  obtain n where n: "count_step rid tokens computed enc total_computed main i m p x = Inr (m, p, x + n)"
    "n = num_gpu_blocks p + 1 \<and> mamba_manager m \<or> n = missing_blocks tokens m (adopted_length rid computed shared total_computed i m) +
       revived_blocks p computed total_computed i m" using count_ready[OF r[THEN conjunct1]] by blast
  obtain k where k: "for_managers (count_step rid tokens computed enc total_computed main) (Suc i) ms p (x + n) = Inr (ms, p, x + n + k)"
    "0 \<le> k" "num_gpu_blocks p < k \<and> (\<exists>m \<in> set ms. mamba_manager m) \<or>
      k = all_missing rid tokens computed shared total_computed (Suc i) ms + all_revived p computed total_computed (Suc i) ms"
    using Cons.IH[OF r[THEN conjunct2], of "x + n"] by blast
  have "0 \<le> n" using n(2) assms(2) by (auto intro: add_nonneg_nonneg)
  then have sum: "0 \<le> n + k" "num_gpu_blocks p < n + k \<and> (\<exists>m \<in> set (m # ms). mamba_manager m) \<or> n + k =
      all_missing rid tokens computed shared total_computed i (m # ms) + all_revived p computed total_computed i (m # ms)"
    using n(2) k(2,3) unfolding all_missing_simps all_revived_simps list.set by (linarith, simp only: insert_iff bex_simps) linarith
  have "for_managers (count_step rid tokens computed enc total_computed main) i (m # ms) p x = Inr (m # ms, p, x + (n + k))"
    using n(1) k(1) by (simp add: add.assoc)
  then show ?case using sum by blast
qed simp

text \<open>Adopting computed blocks only adds references, so no block becomes evictable by it.\<close>

lemma evictable_mono:
  assumes p: "pool_holds p held" "pool_holds p' held'" "\<forall>i > 0. held i \<le> held' i" and l: "list_ok p bs"
  shows "get_num_evictable_blocks p' bs \<le> get_num_evictable_blocks p bs"
proof -
  obtain "is" where bs: "bs = map Blk is" using l by (auto simp: list_ok_def)
  have "length (filter (\<lambda>i. i \<noteq> 0 \<and> held' i = 0) is) \<le> length (filter (\<lambda>i. i \<noteq> 0 \<and> held i = 0) is)"
    using p(3) by (induction "is") (auto, metis le_zero_eq not_less_zero)
  then show ?thesis unfolding bs evictable_count[OF p(1)] evictable_count[OF p(2)] by simp
qed

lemma all_revived_mono:
  assumes p: "pool_holds p held" "pool_holds p' held'" "\<forall>i > 0. held i \<le> held' i"
    and l: "\<forall>j < length ms. list_ok p (computed ! (i + j))"
  shows "all_revived p' computed total_computed i ms \<le> all_revived p computed total_computed i ms"
  using l
proof (induction ms arbitrary: i)
  case (Cons m ms)
  then have "list_ok p (computed ! i)" "\<forall>j < length ms. list_ok p (computed ! (Suc i + j))" by (auto simp: All_less_Suc2)
  then show ?case using Cons.IH[of "Suc i"] evictable_mono[OF p list_ok_drop] by (simp add: add_mono)
qed simp

lemma computed_ready:
  assumes ok: "mgr_ok others m p" and r: "request_ready rid computed False nl j m" and c: "computed_ok computed nl 0 j m p"
  obtains m' p' where "computed_step rid computed nl 0 j m p () = Inr (m', p', ())" "mgr_ok others m' p'" "same_config p p'"
    "keeps_others rid m m'" "length (req_blocks m' rid) = adopted_length rid computed False nl j m"
    "get_num_free_blocks p - revived_blocks p computed nl j m \<le> get_num_free_blocks p'" "\<forall>i. table_refs m i \<le> table_refs m' i"
proof -
  have j: "j < length computed" and x: "\<not> is_cross_attention m" and bs: "0 < mgr_block_size m"
    using r ok by (auto simp: request_ready_def plain_manager_def mgr_ok_def)
  have l: "list_ok p (computed ! j)" "int (length (computed ! j)) * mgr_block_size m \<le> nl" using c j by (simp_all add: computed_ok_def)
  have a: "dget (num_cached_block m) rid \<noteq> None \<Longrightarrow> computed ! j = []" "dget (num_cached_block m) rid = None \<Longrightarrow> req_blocks m rid = []"
    "mgr_caching m \<or> computed ! j = []" using r by (auto simp: request_ready_def split: if_split_asm)
  obtain m' p' where b: "base_allocate_new_computed m p rid (computed ! j) nl 0 = Inr (m', p')" "same_config p p'" "keeps_others rid m m'"
    "get_num_free_blocks p - get_num_evictable_blocks p (drop (nat (get_num_skipped_tokens m nl div mgr_block_size m)) (computed ! j))
       \<le> get_num_free_blocks p'"
    "length (req_blocks m' rid) = (if dget (num_cached_block m) rid = None
       then max (nat (get_num_skipped_tokens m nl div mgr_block_size m)) (length (computed ! j)) else length (req_blocks m rid))"
    "\<forall>i. table_refs m i \<le> table_refs m' i"
    by (rule base_allocate_new_computed_returns[OF mgr_okD(1)[OF ok] l(1) bs a])
  have e: "allocate_new_computed_blocks m p rid (computed ! j) nl 0 = Inr (m', p')"
    using b(1) x by (auto simp: allocate_new_computed_blocks_def split: kv_cache_spec.split)
  have s: "computed_step rid computed nl 0 j m p () = Inr (m', p', ())" using e j by (simp add: computed_step_def py_nth_def)
  have "mgr_ok others m' p'" using allocate_new_computed_blocks_ok[OF ok l(1) _ l(2) e] by simp
  then show thesis using that[OF s] b(2-6) by (simp add: adopted_length_def skipped_blocks_def)
qed

lemma keeps_others_plain: "keeps_others rid m m' \<Longrightarrow> plain_manager m' = plain_manager m"
  by (simp add: keeps_others_def plain_manager_def align_mode_def split: kv_cache_spec.split)

lemma keeps_others_missing: "keeps_others rid m m' \<Longrightarrow> missing_blocks tokens m' n = missing_blocks tokens m n"
  by (simp add: keeps_others_def missing_blocks_def slot_tokens_def split: kv_cache_spec.split)

lemma computed_loop:
  assumes "all_ok others ms p" "ready_from rid computed False nl i ms" "\<forall>j < length ms. computed_ok computed nl 0 (i + j) (ms ! j) p"
  shows "\<exists>ms' p'. for_managers (computed_step rid computed nl 0) i ms p () = Inr (ms', p', ()) \<and>
    get_num_free_blocks p - all_revived p computed nl i ms \<le> get_num_free_blocks p' \<and> list_all2 (keeps_others rid) ms ms' \<and>
    (\<Sum>m\<leftarrow>ms'. missing_blocks tokens m (length (req_blocks m rid))) = all_missing rid tokens computed False nl i ms"
  using assms
proof (induction ms arbitrary: others i p)
  case (Cons m ms)
  note r = Cons.prems(2)[unfolded ready_from_Cons]
  have c: "computed_ok computed nl 0 i m p" "\<forall>j < length ms. computed_ok computed nl 0 (Suc i + j) (ms ! j) p"
    using Cons.prems(3) by (auto simp: All_less_Suc2)
  have ok: "mgr_ok (\<lambda>i. others i + all_refs ms i) m p" using Cons.prems(1) by (simp add: all_ok_Cons)
  obtain m1 p1 where s: "computed_step rid computed nl 0 i m p () = Inr (m1, p1, ())" "mgr_ok (\<lambda>i. others i + all_refs ms i) m1 p1"
    "same_config p p1" "keeps_others rid m m1" "length (req_blocks m1 rid) = adopted_length rid computed False nl i m"
    "get_num_free_blocks p - revived_blocks p computed nl i m \<le> get_num_free_blocks p1" "\<forall>i. table_refs m i \<le> table_refs m1 i"
    by (rule computed_ready[OF ok r[THEN conjunct1] c(1)])
  have c1: "\<forall>j < length ms. computed_ok computed nl 0 (Suc i + j) (ms ! j) p1"
    using c(2) list_ok_config[OF s(3)] by (simp add: computed_ok_def)
  obtain ms' p' where h: "for_managers (computed_step rid computed nl 0) (Suc i) ms p1 () = Inr (ms', p', ())"
    "get_num_free_blocks p1 - all_revived p1 computed nl (Suc i) ms \<le> get_num_free_blocks p'" "list_all2 (keeps_others rid) ms ms'"
    "(\<Sum>m\<leftarrow>ms'. missing_blocks tokens m (length (req_blocks m rid))) = all_missing rid tokens computed False nl (Suc i) ms"
    using Cons.IH[OF all_ok_next[OF Cons.prems(1) s(2,3)] r[THEN conjunct2] c1] by blast
  have l: "\<forall>j < length ms. list_ok p (computed ! (Suc i + j))"
    using c(2) r[THEN conjunct2] by (simp add: computed_ok_def request_ready_def)
  have "all_revived p1 computed nl (Suc i) ms \<le> all_revived p computed nl (Suc i) ms"
    using all_revived_mono[OF _ _ _ l] ok s(2,7) by (auto simp: mgr_ok_iff)
  then have f: "get_num_free_blocks p - all_revived p computed nl i (m # ms) \<le> get_num_free_blocks p'"
    using h(2) s(6) unfolding all_revived_simps by linarith
  have "for_managers (computed_step rid computed nl 0) i (m # ms) p () = Inr (m1 # ms', p', ())" using s(1) h(1) by simp
  moreover have "(\<Sum>m\<leftarrow>m1 # ms'. missing_blocks tokens m (length (req_blocks m rid))) =
      all_missing rid tokens computed False nl i (m # ms)" using h(4) s(5) keeps_others_missing[OF s(4)] by simp
  moreover have "list_all2 (keeps_others rid) (m # ms) (m1 # ms')" using s(4) h(3) by simp
  ultimately show ?case using f by blast
qed simp

lemma new_ready:
  assumes ok: "mgr_ok others m p" and pl: "plain_manager m" and main: "0 \<le> main"
    and free: "missing_blocks tokens m (length (req_blocks m rid)) \<le> get_num_free_blocks p"
  obtains bs m' p' where "new_step rid tokens main enc j m p acc = Inr (m', p', acc @ [bs])" "mgr_ok others m' p'" "same_config p p'"
    "keeps_others rid m m'" "get_num_free_blocks p' = get_num_free_blocks p - missing_blocks tokens m (length (req_blocks m rid))"
    "cdiv (slot_tokens m tokens) (mgr_block_size m) \<le> int (length (req_blocks m' rid))"
proof -
  let ?t = "slot_tokens m tokens"
  have n: "cdiv ?t (mgr_block_size m) - int (length (req_blocks m rid)) \<le> get_num_free_blocks p"
    using free by (simp add: missing_blocks_def)
  obtain bs m' p' where b: "base_allocate_new_blocks m p rid ?t = Inr (bs, m', p')"
    "get_num_free_blocks p' = get_num_free_blocks p - max 0 (cdiv ?t (mgr_block_size m) - int (length (req_blocks m rid)))"
    "req_blocks m' rid = req_blocks m rid @ bs" "int (length bs) = max 0 (cdiv ?t (mgr_block_size m) - int (length (req_blocks m rid)))"
    by (rule base_allocate_new_blocks_inv[OF mgr_okD(1)[OF ok] n])
  have "allocate_new_blocks m p rid tokens main = Inr (bs, m', p')"
    using b(1) pl by (auto simp: allocate_new_blocks_def plain_manager_def align_mode_def slot_tokens_def split: kv_cache_spec.split)
  moreover have "\<not> is_cross_attention m" using pl by (simp add: plain_manager_def)
  ultimately have s: "allocate_new_blocks m p rid tokens main = Inr (bs, m', p')" "new_step rid tokens main enc j m p acc = Inr (m', p', acc @ [bs])"
    by (simp_all add: new_step_def)
  show thesis using that[OF s(2)] allocate_new_blocks_ok[OF ok main s(1)] b(2-4) by (simp add: missing_blocks_def)
qed

lemma new_loop:
  assumes "all_ok others ms p" "\<forall>m \<in> set ms. plain_manager m" "0 \<le> main"
    "(\<Sum>m\<leftarrow>ms. missing_blocks tokens m (length (req_blocks m rid))) \<le> get_num_free_blocks p"
  shows "\<exists>ms' p' acc'. for_managers (new_step rid tokens main enc) i ms p acc = Inr (ms', p', acc') \<and>
    list_all2 (\<lambda>m m'. keeps_others rid m m' \<and> cdiv (slot_tokens m tokens) (mgr_block_size m) \<le> int (length (req_blocks m' rid))) ms ms'"
  using assms
proof (induction ms arbitrary: others i p acc)
  case (Cons m ms)
  have ok: "mgr_ok (\<lambda>i. others i + all_refs ms i) m p" using Cons.prems(1) by (simp add: all_ok_Cons)
  have pos: "0 \<le> (\<Sum>m\<leftarrow>ms. missing_blocks tokens m (length (req_blocks m rid)))" by (rule sum_list_nonneg) auto
  then have f: "missing_blocks tokens m (length (req_blocks m rid)) \<le> get_num_free_blocks p" "plain_manager m"
    using Cons.prems(2,4) by auto
  obtain bs m1 p1 where s: "new_step rid tokens main enc i m p acc = Inr (m1, p1, acc @ [bs])" "mgr_ok (\<lambda>i. others i + all_refs ms i) m1 p1"
    "same_config p p1" "keeps_others rid m m1"
    "get_num_free_blocks p1 = get_num_free_blocks p - missing_blocks tokens m (length (req_blocks m rid))"
    "cdiv (slot_tokens m tokens) (mgr_block_size m) \<le> int (length (req_blocks m1 rid))"
    by (rule new_ready[OF ok f(2) Cons.prems(3) f(1)])
  have "(\<Sum>m\<leftarrow>ms. missing_blocks tokens m (length (req_blocks m rid))) \<le> get_num_free_blocks p1" using Cons.prems(4) s(5) by simp
  with Cons.IH[OF all_ok_next[OF Cons.prems(1) s(2,3)] _ Cons.prems(3), of "Suc i" "acc @ [bs]"] Cons.prems(2)
  show ?case using s(1,4,6) by fastforce
qed simp

section \<open>The coordinator and the manager\<close>

abbreviation coord_ready :: "string \<Rightarrow> bref list list \<Rightarrow> bool \<Rightarrow> int \<Rightarrow> coordinator \<Rightarrow> bool" where
  "coord_ready rid computed shared total_computed c \<equiv> ready_from rid computed shared total_computed 0 (managers c)"

definition blocks_needed :: "coordinator \<Rightarrow> string \<Rightarrow> int \<Rightarrow> bref list list \<Rightarrow> bool \<Rightarrow> int \<Rightarrow> int" where
  "blocks_needed c rid tokens computed shared total_computed =
     all_missing rid tokens computed shared total_computed 0 (managers c) + all_revived (coord_pool c) computed total_computed 0 (managers c)"

definition covers :: "coordinator \<Rightarrow> string \<Rightarrow> int \<Rightarrow> bool" where
  "covers c rid tokens \<longleftrightarrow> (\<forall>m \<in> set (managers c). tokens \<le> int (length (req_blocks m rid)) * mgr_block_size m)"

lemma slot_tokens_ge: "0 < mgr_block_size m \<Longrightarrow> tokens \<le> slot_tokens m tokens"
  by (simp add: slot_tokens_def split: kv_cache_spec.split)

lemma new_blocks_return:
  assumes inv: "coord_inv c" and pl: "\<forall>m \<in> set (managers c). plain_manager m" and main: "0 \<le> main"
    and free: "(\<Sum>m\<leftarrow>managers c. missing_blocks tokens m (length (req_blocks m rid))) \<le> get_num_free_blocks (coord_pool c)"
  shows "\<exists>new c'. coord_allocate_new_blocks c rid tokens main enc = Inr (new, c') \<and> covers c' rid tokens"
proof -
  have ok: "all_ok (\<lambda>i. 0) (managers c) (coord_pool c)" using inv by (simp add: coord_inv_def)
  obtain ms p new where r: "for_managers (new_step rid tokens main enc) 0 (managers c) (coord_pool c) [] = Inr (ms, p, new)"
    and l: "list_all2 (\<lambda>m m'. keeps_others rid m m' \<and> cdiv (slot_tokens m tokens) (mgr_block_size m) \<le> int (length (req_blocks m' rid)))
      (managers c) ms" using new_loop[OF ok pl main free] by blast
  have "tokens \<le> int (length (req_blocks (ms ! j) rid)) * mgr_block_size (ms ! j)" if j: "j < length ms" for j
  proof -
    let ?m = "managers c ! j"
    have m: "?m \<in> set (managers c)" "keeps_others rid ?m (ms ! j)" "cdiv (slot_tokens ?m tokens) (mgr_block_size ?m) \<le> int (length (req_blocks (ms ! j) rid))"
      using l j by (auto simp: list_all2_conv_all_nth)
    have bs: "0 < mgr_block_size ?m" using ok m(1) by (simp add: all_ok_def part_ok_def)
    show ?thesis using cdiv_le_iff[OF bs] m(3) slot_tokens_ge[OF bs, of tokens] m(2) by (simp add: keeps_others_def)
  qed
  then have "covers (c\<lparr>managers := ms, coord_pool := p\<rparr>) rid tokens" by (auto simp: covers_def in_set_conv_nth)
  then show ?thesis using r by (simp add: coord_allocate_new_blocks_def with_managers_def)
qed

lemma allocate_phase_returns:
  assumes inv: "coord_inv c" and ready: "coord_ready rid computed shared nl c" and fits: "computed_fits computed nl 0 c" and main: "0 \<le> main"
    and free: "blocks_needed c rid tokens computed shared nl \<le> get_num_free_blocks (coord_pool c)"
  shows "\<exists>new c'. allocate_phase c rid computed shared nl 0 tokens main enc = Inr (new, c') \<and> covers c' rid tokens"
proof (cases shared)
  case True
  have pl: "\<forall>m \<in> set (managers c). plain_manager m" using ready by (auto simp: request_ready_def in_set_conv_nth)
  have "(\<Sum>m\<leftarrow>ms. missing_blocks tokens m (length (req_blocks m rid))) = all_missing rid tokens computed True nl i ms" for ms i
    by (induction ms arbitrary: i) (simp_all add: adopted_length_def)
  from this[of "managers c" 0]
  have "(\<Sum>m\<leftarrow>managers c. missing_blocks tokens m (length (req_blocks m rid))) \<le> get_num_free_blocks (coord_pool c)"
    using free revived_nonneg[of "coord_pool c" computed nl 0 "managers c"] unfolding blocks_needed_def by (simp only: True)
  then show ?thesis using new_blocks_return[OF inv pl main] True by (simp add: allocate_phase_def)
next
  case False
  have ok: "all_ok (\<lambda>i. 0) (managers c) (coord_pool c)" using inv by (simp add: coord_inv_def)
  have ready': "ready_from rid computed False nl 0 (managers c)" using ready False by simp
  have fits': "\<forall>j < length (managers c). computed_ok computed nl 0 (0 + j) (managers c ! j) (coord_pool c)" using fits by simp
  obtain ms p where r: "for_managers (computed_step rid computed nl 0) 0 (managers c) (coord_pool c) () = Inr (ms, p, ())"
    "get_num_free_blocks (coord_pool c) - all_revived (coord_pool c) computed nl 0 (managers c) \<le> get_num_free_blocks p"
    "list_all2 (keeps_others rid) (managers c) ms"
    "(\<Sum>m\<leftarrow>ms. missing_blocks tokens m (length (req_blocks m rid))) = all_missing rid tokens computed False nl 0 (managers c)"
    using computed_loop[OF ok ready' fits', of tokens] by blast
  let ?c = "c\<lparr>managers := ms, coord_pool := p\<rparr>"
  have c1: "with_managers (computed_step rid computed nl 0) () c = Inr ((), ?c)" using r(1) by (simp add: with_managers_def)
  have i: "coord_inv ?c" using computed.with_managers_inv[OF inv fits _ c1] by simp
  have "plain_manager (ms ! j)" if "j < length ms" for j
    using r(3) ready that keeps_others_plain[of rid "managers c ! j" "ms ! j"] by (simp add: list_all2_conv_all_nth request_ready_def)
  then have "\<forall>m \<in> set ms. plain_manager m" by (auto simp: in_set_conv_nth)
  moreover have "(\<Sum>m\<leftarrow>ms. missing_blocks tokens m (length (req_blocks m rid))) \<le> get_num_free_blocks p"
    using r(2,4) free False unfolding blocks_needed_def by simp
  ultimately show ?thesis using new_blocks_return[OF i _ main] c1 False by (simp add: allocate_phase_def coord_allocate_new_computed_def)
qed

lemma free_below_size:
  assumes "pool_holds p held"
  shows "get_num_free_blocks p < num_gpu_blocks p" "0 < num_gpu_blocks p"
proof -
  obtain held' q where q: "run_inv p held' q" by (rule pool_holds_inv[OF assms])
  show n: "0 < num_gpu_blocks p" by (rule pool_invD(1)[OF run_invD(1)[OF q]])
  have "finite {i. in_pool p i}" by (rule finite_subset[of _ "{..<nat (num_gpu_blocks p)}"]) (auto simp: in_pool_def)
  then have "card {i. in_pool p i \<and> held i = 0} \<le> card {i. in_pool p i}" by (rule card_mono) auto
  then show "get_num_free_blocks p < num_gpu_blocks p" using pool_holds_free[OF assms] card_in_pool[OF n] by simp
qed

lemma skipped_ready:
  assumes "coord_ready rid computed shared nl c" "coord_frame rid c c'"
    "list_all2 (\<lambda>m m'. length (req_blocks m' rid) = length (req_blocks m rid) \<and> num_cached_block m' = num_cached_block m) (managers c) (managers c')"
  shows "coord_ready rid computed shared nl c'"
proof (intro allI impI)
  fix j assume j: "j < length (managers c')"
  let ?m = "managers c ! j" and ?m' = "managers c' ! j"
  have a: "request_ready rid computed shared nl j ?m" "keeps_others rid ?m ?m'" "length (req_blocks ?m' rid) = length (req_blocks ?m rid)"
    "num_cached_block ?m' = num_cached_block ?m" using assms j by (auto simp: coord_frame_def list_all2_conv_all_nth)
  moreover have "skipped_blocks nl ?m' = skipped_blocks nl ?m" "mgr_caching ?m' = mgr_caching ?m"
    using a(2) by (simp_all add: skipped_blocks_def keeps_others_def)
  moreover have "req_blocks ?m' rid = [] \<longleftrightarrow> req_blocks ?m rid = []" using a(3) by (simp flip: length_0_conv)
  ultimately show "request_ready rid computed shared nl (0 + j) ?m'"
    using keeps_others_plain[OF a(2)] by (simp add: request_ready_def)
qed

lemma allocate_slots_returns:
  fixes k r nc num_new look b
  defines "nl \<equiv> num_computed_tokens r + nc"
  defines "tc \<equiv> min nl (kvm_max_model_len k)"
  defines "need \<equiv> min (tc + num_new + look) (kvm_max_model_len k)"
  assumes inv: "kvm_inv k" and ready: "coord_ready (request_id r) (computed_list k b) (is_shared_empty b) nl (kvm_coord k)"
    and fits: "computed_fits (computed_list k b) nl 0 (kvm_coord k)" and n: "0 < num_new" "0 \<le> nl" and d: "delay \<or> \<not> kvm_caching k"
  shows "\<exists>b' k' c. allocate_slots sha256 k r num_new nc b look 0 delay enc = Inr (b', k', r) \<and>
    coord_remove_skipped (kvm_coord k) (request_id r) tc = Inr ((), c) \<and>
    (case b' of
       None \<Rightarrow> (\<exists>m \<in> set (managers c). mamba_manager m) \<or>
         get_num_free_blocks (coord_pool c) < blocks_needed c (request_id r) need (computed_list k b) (is_shared_empty b) nl
     | Some _ \<Rightarrow> covers (kvm_coord k') (request_id r) need)"
proof -
  let ?rid = "request_id r" and ?comp = "computed_list k b" and ?sh = "is_shared_empty b"
  have c: "coord_inv (kvm_coord k)" "0 \<le> kvm_max_model_len k" using inv by (simp_all add: kvm_inv_def)
  have mode: "\<forall>j < length (managers (kvm_coord k)). \<not> align_mode (managers (kvm_coord k) ! j)"
    using ready by (simp add: request_ready_def plain_manager_def)
  obtain c1 where c1: "with_managers (skipped_step ?rid tc) () (kvm_coord k) = Inr ((), c1)"
    and l: "list_all2 (\<lambda>m m'. length (req_blocks m' ?rid) = length (req_blocks m ?rid) \<and> num_cached_block m' = num_cached_block m)
      (managers (kvm_coord k)) (managers c1)"
    by (rule skipped_all.with_managers_returns[OF c(1) mode, where x = "()"]) auto
  have i1: "coord_inv c1" "coord_frame ?rid (kvm_coord k) c1" using skipped.with_managers_inv[OF c(1) _ _ c1] by simp_all
  note r1 = skipped_ready[OF ready i1(2) l] and f1 = computed_fits_frame[OF fits i1(2)]
  have h: "pool_holds (coord_pool c1) (\<lambda>i. 0 + all_refs (managers c1) i)" using i1(1) by (simp add: coord_inv_def all_ok_def)
  obtain cnt where cnt: "for_managers (count_step ?rid need ?comp enc nl (tc + num_new)) 0 (managers c1) (coord_pool c1) 0 =
      Inr (managers c1, coord_pool c1, 0 + cnt)"
    "num_gpu_blocks (coord_pool c1) < cnt \<and> (\<exists>m \<in> set (managers c1). mamba_manager m) \<or> cnt = blocks_needed c1 ?rid need ?comp ?sh nl"
    using count_loop[OF r1, of "coord_pool c1" need enc "tc + num_new" 0] free_below_size(2)[OF h] unfolding blocks_needed_def by auto
  have c2: "coord_num_blocks_to_allocate c1 ?rid need ?comp enc nl (tc + num_new) = Inr (cnt, c1)"
    using cnt(1) by (simp add: coord_num_blocks_to_allocate_def with_managers_def)
  have skip: "coord_remove_skipped (kvm_coord k) ?rid tc = Inr ((), c1)" using c1 by (simp add: coord_remove_skipped_def)
  note eq = allocate_slots_def Let_def nl_def[symmetric] add_0_right tc_def[symmetric] need_def[symmetric] skip c2 bindE_Inr prod.case
  show ?thesis
  proof (cases "get_num_free_blocks (coord_pool c1) < cnt")
    case True
    then have "allocate_slots sha256 k r num_new nc b look 0 delay enc = Inr (None, k\<lparr>kvm_coord := c1\<rparr>, r)"
      using n(1) by (simp add: eq)
    then show ?thesis using skip cnt(2) True by auto
  next
    case False
    then have free: "blocks_needed c1 ?rid need ?comp ?sh nl \<le> get_num_free_blocks (coord_pool c1)"
      using cnt(2) free_below_size(1)[OF h] by auto
    have "0 \<le> tc + num_new" using n c(2) by (simp add: tc_def)
    from allocate_phase_returns[OF i1(1) r1 f1 this free] obtain new c3 where
      c3: "allocate_phase c1 ?rid ?comp ?sh nl 0 need (tc + num_new) enc = Inr (new, c3)" "covers c3 ?rid need" by blast
    have "cache_phase sha256 k c3 r delay (tc + num_new) = Inr (r, c3)" using d by (auto simp: cache_phase_def)
    then have "allocate_slots sha256 k r num_new nc b look 0 delay enc = Inr (Some (create_kv_cache_blocks k new), k\<lparr>kvm_coord := c3\<rparr>, r)"
      using n(1) False c3(1) by (simp add: eq)
    then show ?thesis using skip c3(2) by auto
  qed
qed

end
