(* ===== verification/KV_Service.thy ===== *)
theory KV_Service
  imports KV_Allocation
begin

text \<open>
  What the KV cache manager guarantees to the scheduler, over every run of its operations on
  top of the coordinator, the managers of the groups and the block pool.
\<close>

section \<open>Blocks and tables\<close>

text \<open>
  C1: in every run of the KV cache manager the reference count of each block is the number of its
  occurrences in the block tables of the requests, over all groups. The free blocks are exactly
  the blocks in no table. No table lists a block twice, the null block apart.
\<close>

theorem kv_references_exact:
  assumes "kvm_run k"
  shows "(\<forall>i. 0 < i \<longrightarrow> ref_cnt (blk (kvm_pool k) (Blk i)) = int (all_refs (managers (kvm_coord k)) i)) \<and>
    get_num_free_blocks (kvm_pool k) = int (card {i. in_pool (kvm_pool k) i \<and> all_refs (managers (kvm_coord k)) i = 0}) \<and>
    (\<forall>m \<in> set (managers (kvm_coord k)). \<forall>rid. distinct (filter (\<lambda>b. b \<noteq> null_block (kvm_pool k)) (req_blocks m rid)))"
proof -
  note h = kvm_run_facts(2)[OF assms]
  have "distinct (filter (\<lambda>b. b \<noteq> null_block (kvm_pool k)) (req_blocks m rid))" if "m \<in> set (managers (kvm_coord k))" for m rid
  proof -
    have "list_ok (kvm_pool k) (req_blocks m rid)" using kvm_run_facts(3)[OF assms that] by (simp add: part_ok_def tables_ok_def)
    then obtain "is" where i: "req_blocks m rid = map Blk is" "distinct (filter (\<lambda>i. i \<noteq> 0) is)" unfolding list_ok_def by blast
    then have "distinct (map Blk (filter (\<lambda>i. i \<noteq> 0) is))" by (simp add: distinct_map inj_on_def)
    then show ?thesis unfolding i(1) pool_holds_facts(1)[OF h] filter_map by (simp add: comp_def)
  qed
  then show ?thesis using pool_holds_facts(3)[OF h] pool_holds_free[OF h] by blast
qed

text \<open>
  C2: no block leaks. Freeing all requests that have tables, in any order, raises nothing, returns every
  block except the null block to the free queue, and then the prefix cache can be reset.
\<close>

theorem kv_no_leak:
  assumes "kvm_run k" "\<forall>rid. has_table k rid \<longrightarrow> rid \<in> request_id ` set rs"
  shows "\<exists>k' k''. foldE (\<lambda>r k. kvm_free k r) rs k = Inr k' \<and>
    get_num_free_blocks (kvm_pool k') = num_gpu_blocks (kvm_pool k) - 1 \<and> kvm_reset_prefix_cache k' = Inr (True, k'')"
proof -
  obtain k' where k': "foldE (\<lambda>r k. kvm_free k r) rs k = Inr k'" "kvm_run k'" "same_config (kvm_pool k) (kvm_pool k')"
    "\<forall>rid. has_table k' rid = (rid \<notin> request_id ` set rs \<and> has_table k rid)" using kvm_free_all[OF assms(1), of rs] by blast
  have "\<forall>rid. \<not> has_table k' rid" using k'(4) assms(2) by blast
  then have "all_refs (managers (kvm_coord k')) = (\<lambda>i. 0)" using no_tables_no_refs by blast
  then have h: "pool_holds (kvm_pool k') (\<lambda>i. 0)" using kvm_run_facts(2)[OF k'(2)] by simp
  have "get_num_free_blocks (kvm_pool k') = num_gpu_blocks (kvm_pool k) - 1"
    using pool_holds_free[OF h] card_in_pool[OF free_below_size(2)[OF h]] k'(3) by (simp add: same_config_def)
  moreover obtain p where p: "reset_prefix_cache (kvm_pool k') = (True, p)" using reset_succeeds[OF h] by blast
  then have "\<exists>k''. kvm_reset_prefix_cache k' = Inr (True, k'')"
    using kvm_run_stats[OF k'(2)] by (auto simp: kvm_reset_prefix_cache_def Let_def split: option.split)
  ultimately show ?thesis using k'(1) by blast
qed

text \<open>
  C7: allocating slots for a request leaves the block tables of every other request in every group as they were,
  whether the request is admitted with the blocks the prefix cache has returned or is running,
  whether the allocation succeeds or not.
\<close>

theorem allocation_isolated:
  assumes "kvm_run k" "0 \<le> num_computed_tokens r" "0 \<le> num_new" "0 \<le> ext"
    and "b = None \<and> n = 0 \<and> k1 = k \<or>
         (\<exists>bs. b = Some bs \<and> get_computed_blocks k r = Some (Inr (bs, n, k1)) \<and> hashes_ok k r \<and> 1 \<le> num_tokens r)"
    and "allocate_slots sha256 k1 r num_new n b look ext delay enc = Inr (res, k2, r2)" "rid \<noteq> request_id r"
  shows "coord_get_blocks (kvm_coord k2) rid = coord_get_blocks (kvm_coord k) rid"
proof -
  have inv: "kvm_inv k" by (rule kvm_run_inv[OF assms(1)])
  have "kvm_inv k1 \<and> kvm_coord k1 = kvm_coord k \<and> 0 \<le> num_computed_tokens r + n \<and>
      computed_fits (computed_list k1 b) (num_computed_tokens r + n) ext (kvm_coord k1)" (is ?ok)
    using assms(5)
  proof
    assume "b = None \<and> n = 0 \<and> k1 = k"
    then show ?ok using inv assms(2,4) by (simp add: computed_list_def computed_ok_def)
  next
    assume "\<exists>bs. b = Some bs \<and> get_computed_blocks k r = Some (Inr (bs, n, k1)) \<and> hashes_ok k r \<and> 1 \<le> num_tokens r"
    then obtain bs where b: "b = Some bs" "get_computed_blocks k r = Some (Inr (bs, n, k1))" "hashes_ok k r" "1 \<le> num_tokens r" by blast
    show ?ok using admit_fits[OF inv b(2-4) assms(2,4)] unfolding b(1) by blast
  qed
  then have "kvm_frame (request_id r) k1 k2" "kvm_coord k1 = kvm_coord k"
    using allocate_slots_inv[of k1 num_new ext r n b] assms(3,4,6) by blast+
  then have "list_all2 (keeps_others (request_id r)) (managers (kvm_coord k)) (managers (kvm_coord k2))"
    by (simp add: kvm_frame_def coord_frame_def)
  then show ?thesis unfolding coord_get_blocks_def using assms(7)
    by (induction rule: list_all2_induct) (simp_all add: keeps_others_def)
qed

section \<open>The prefix cache\<close>


section \<open>Allocation\<close>

lemma table_reaches_skipped:
  assumes "part_ok p m" "0 \<le> n" "n \<le> int (length (req_blocks m rid)) * mgr_block_size m"
  shows "skipped_blocks n m \<le> int (length (req_blocks m rid))"
proof -
  have bs: "0 < mgr_block_size m" and w: "window_ok (mgr_spec m)" using assms(1) by (simp_all add: part_ok_def)
  have "get_num_skipped_tokens m n \<le> int (length (req_blocks m rid)) * mgr_block_size m"
    using skipped_le[OF w assms(2)] assms(3) by linarith
  then have "skipped_blocks n m \<le> int (length (req_blocks m rid)) * mgr_block_size m div mgr_block_size m"
    unfolding skipped_blocks_def using bs by (intro zdiv_mono1)
  then show ?thesis using bs by simp
qed

text \<open>The number of tokens that need slots after a step, cut at the longest sequence.\<close>

definition slots_end :: "kv_manager \<Rightarrow> int \<Rightarrow> int \<Rightarrow> int \<Rightarrow> int" where
  "slots_end k computed num_new look = min (min computed (kvm_max_model_len k) + num_new + look) (kvm_max_model_len k)"

lemma lookup_caching: "get_computed_blocks k r = Some (Inr (b, n, k1)) \<Longrightarrow> kvm_caching k1 = kvm_caching k"
  using record_hits_frame by (auto simp: get_computed_blocks_def bindE_Inr_iff split: if_split_asm)

lemma admitted_ready:
  assumes inv: "kvm_inv k" and r: "1 \<le> num_tokens r" "hashes_ok k r" and b: "get_computed_blocks k r = Some (Inr (bs, n, k1))"
    and j: "j < length (managers (kvm_coord k))" and pl: "plain_manager (managers (kvm_coord k) ! j)"
    and new: "dget (num_cached_block (managers (kvm_coord k) ! j)) (request_id r) = None" "req_blocks (managers (kvm_coord k) ! j) (request_id r) = []"
  shows "request_ready (request_id r) (blocks_of bs) (is_shared_empty (Some bs)) n j (managers (kvm_coord k) ! j)"
proof -
  let ?m = "managers (kvm_coord k) ! j"
  note l = get_computed_blocks_inv[OF inv r(1) b]
  have i: "coord_inv (kvm_coord k)" "num_kv_cache_groups k = length (managers (kvm_coord k))" "mgr_caching ?m = kvm_caching k"
    using inv j by (simp_all add: kvm_inv_def coord_wf_def)
  then have p: "part_ok (kvm_pool k) ?m" using j by (simp add: coord_inv_def all_ok_def)
  have len: "j < length (blocks_of bs)" using l(5) i(2) j by (auto simp: blocks_sound_def list_all2_lengthD)
  have "mgr_caching ?m \<or> blocks_of bs ! j = []"
    using b i(2,3) j by (auto simp: get_computed_blocks_def split: if_split_asm)
  moreover have "blocks_of bs ! j = [] \<and> skipped_blocks n ?m \<le> 0" if "is_shared_empty (Some bs)"
  proof -
    have e: "blocks_of bs ! j = []" using that len by (cases bs) (simp_all add: is_shared_empty_def)
    have "n = 0" using l(5) blocks_sound_column[OF i(1) r(2) l(3) _ j] e by fastforce
    then show ?thesis using e table_reaches_skipped[OF p, of 0 "request_id r"] new(2) by simp
  qed
  ultimately show ?thesis using pl len new by (simp add: request_ready_def)
qed



section \<open>Examples\<close>

abbreviation example_attn :: "int \<Rightarrow> attn_spec" where
  "example_attn h \<equiv> \<lparr>attn_block_size = 2, num_kv_heads = 1, head_size = h, attn_dtype = ''bf16'', attn_page_size_padded = None\<rparr>"

abbreviation example_full :: "int \<Rightarrow> kv_cache_spec" where
  "example_full h \<equiv> FullAttentionSpec (example_attn h) \<lparr>head_size_v = h, full_sliding_window = None, full_attention_chunk_size = None\<rparr>"

definition example_args :: coord_args where
  "example_args = \<lparr>arg_max_model_len = 16, arg_eagle = False, arg_caching = True, arg_events = False, arg_int_hashes = False,
     arg_dcp = 1, arg_pcp = 1, arg_hash_block_size = 2, arg_metrics = False\<rparr>"

definition example_config :: kv_cache_config where
  "example_config = \<lparr>num_blocks = 7, kv_cache_tensors = [],
     kv_cache_groups = [\<lparr>layer_names = [''l0''], group_spec = example_full 8\<rparr>]\<rparr>"

definition example_prompt :: "string \<Rightarrow> request" where
  "example_prompt rid = (example_request rid [1, 2, 3, 4, 5, 6, 7])\<lparr>block_hashes := [[1], [2], [3]]\<rparr>"

text \<open>A manager that has admitted one request of seven tokens and cached its three full blocks.\<close>

definition example_start :: "kv_manager result" where
  "example_start = kv_manager_init example_args True example_config"

definition example_manager :: "kv_manager result" where
  "example_manager =
     bindE example_start (\<lambda>k.
     case get_computed_blocks k (example_prompt ''a'') of
       None \<Rightarrow> Inl AssertionError
     | Some res \<Rightarrow> bindE res (\<lambda>(b, n, k1).
         bindE (allocate_slots id k1 (example_prompt ''a'') 7 n (Some b) 0 0 False 0) (\<lambda>(new, k2, r). Inr k2)))"

lemma hash_positions_distinct: "distinct hs \<Longrightarrow> hash_positions (Plain hs)"
  by (auto simp: hash_positions_def py_nth_def nth_eq_iff_index_eq split: if_split_asm)

definition example_ok :: "kv_manager \<Rightarrow> bool" where
  "example_ok k \<longleftrightarrow> coord_supported (kvm_coord k) \<and>
     (\<forall>m \<in> set (managers (kvm_coord k)). mgr_block_size m = hash_block_size (kvm_pool k) \<and> plain_manager m)"

lemma example_hashes_ok: "example_ok k \<Longrightarrow> hashes_ok k (example_prompt rid)"
  using hash_positions_distinct[of "[[1], [2], [3]]"] by (auto simp: example_ok_def hashes_ok_def hash_list_for_def example_prompt_def)

lemma example_request_numbers [simp]:
  "request_id (example_prompt rid) = rid" "num_computed_tokens (example_prompt rid) = 0" "num_tokens (example_prompt rid) = 7"
  by (simp_all add: example_prompt_def example_request_def init_request_def example_message_def num_tokens_def)

lemma example_start_run: "\<exists>k. example_start = Inr k \<and> kvm_run k \<and> example_ok k"
proof -
  have "case example_start of Inl _ \<Rightarrow> False | Inr k \<Rightarrow> example_ok k" by code_simp
  then obtain k where k: "example_start = Inr k" "example_ok k" by (auto split: sum.splits)
  have "config_ok example_args example_config" "0 \<le> arg_max_model_len example_args"
    by (simp_all add: config_ok_def group_config_ok_def example_args_def example_config_def)
  then show ?thesis using kvm_run.init[OF _ _ k(1)[unfolded example_start_def]] k by (auto simp: example_ok_def)
qed

lemma example_manager_run:
  assumes "example_manager = Inr k2"
  shows "kvm_run k2"
proof -
  obtain k where k: "example_start = Inr k" "kvm_run k" "example_ok k" using example_start_run by blast
  from assms obtain b n k1 new r where c: "get_computed_blocks k (example_prompt ''a'') = Some (Inr (b, n, k1))"
    and a: "allocate_slots id k1 (example_prompt ''a'') 7 n (Some b) 0 0 False 0 = Inr (new, k2, r)"
    unfolding example_manager_def k(1) bindE_Inr by (auto simp: bindE_Inr_iff split: option.split_asm)
  show ?thesis by (rule kvm_run.admit[OF k(2) c a example_hashes_ok[OF k(3)]]) simp_all
qed

fun lookup_gives :: "kv_cache_blocks \<Rightarrow> int \<Rightarrow> (kv_cache_blocks \<times> int \<times> kv_manager) result option \<Rightarrow> bool" where
  "lookup_gives b n (Some (Inr (b', n', k))) = (b' = b \<and> n' = n)"
| "lookup_gives b n _ = False"

lemma lookup_givesD: "lookup_gives b n res \<Longrightarrow> \<exists>k. res = Some (Inr (b, n, k))"
  by (induction b n res rule: lookup_gives.induct) auto

lemma example_manager_facts:
  obtains k k1 where "example_manager = Inr k" "kvm_run k" "example_ok k" "coord_get_blocks (kvm_coord k) ''a'' = [[Blk 1, Blk 2, Blk 3, Blk 4]]"
    "get_computed_blocks k (example_prompt ''b'') = Some (Inr (KVCacheBlocks [[Blk 1, Blk 2, Blk 3]], 6, k1))"
    "\<forall>m \<in> set (managers (kvm_coord k)). dget (num_cached_block m) ''b'' = None \<and> req_blocks m ''b'' = []"
proof -
  have "case example_manager of Inl _ \<Rightarrow> False | Inr k \<Rightarrow> example_ok k \<and>
    coord_get_blocks (kvm_coord k) ''a'' = [[Blk 1, Blk 2, Blk 3, Blk 4]] \<and>
    (\<forall>m \<in> set (managers (kvm_coord k)). dget (num_cached_block m) ''b'' = None \<and> req_blocks m ''b'' = []) \<and>
    lookup_gives (KVCacheBlocks [[Blk 1, Blk 2, Blk 3]]) 6 (get_computed_blocks k (example_prompt ''b''))" by code_simp
  then show thesis using that example_manager_run lookup_givesD by (fastforce split: sum.split_asm)
qed

theorem kv_references_exact_witness:
  "\<exists>k. example_manager = Inr k \<and> all_refs (managers (kvm_coord k)) 1 = 1 \<and> ref_cnt (blk (kvm_pool k) (Blk 1)) = 1"
proof -
  have "case example_manager of Inl _ \<Rightarrow> False | Inr k \<Rightarrow> all_refs (managers (kvm_coord k)) 1 = 1" by code_simp
  then obtain k where k: "example_manager = Inr k" "all_refs (managers (kvm_coord k)) 1 = 1" by (auto split: sum.splits)
  from kv_references_exact[OF example_manager_run[OF k(1)]] k show ?thesis by auto
qed

theorem kv_no_leak_witness:
  "\<exists>k k' k''. example_manager = Inr k \<and> get_num_free_blocks (kvm_pool k) = 2 \<and>
     foldE (\<lambda>r k. kvm_free k r) [example_prompt ''a''] k = Inr k' \<and> get_num_free_blocks (kvm_pool k') = 6 \<and>
     kvm_reset_prefix_cache k' = Inr (True, k'')"
proof -
  have "case example_manager of Inl _ \<Rightarrow> False | Inr k \<Rightarrow> get_num_free_blocks (kvm_pool k) = 2 \<and> num_gpu_blocks (kvm_pool k) = 7 \<and>
    (\<forall>m \<in> set (managers (kvm_coord k)). dkeys (req_to_blocks m) = [''a''])" by code_simp
  then obtain k where k: "example_manager = Inr k" "get_num_free_blocks (kvm_pool k) = 2" "num_gpu_blocks (kvm_pool k) = 7"
    "\<forall>m \<in> set (managers (kvm_coord k)). dkeys (req_to_blocks m) = [''a'']" by (auto split: sum.splits)
  have "\<forall>rid. has_table k rid \<longrightarrow> rid \<in> request_id ` set [example_prompt ''a'']"
    using k(4) dget_None_iff by (fastforce simp: has_table_def)
  from kv_no_leak[OF example_manager_run[OF k(1)] this] k show ?thesis by auto
qed

theorem allocation_isolated_witness:
  "\<exists>k k2. example_manager = Inr k \<and> allocate_slots id k (example_prompt ''b'') 16 0 None 0 0 False 0 = Inr (None, k2, example_prompt ''b'') \<and>
     coord_get_blocks (kvm_coord k2) ''a'' = [[Blk 1, Blk 2, Blk 3, Blk 4]]"
proof -
  have "case example_manager of Inl _ \<Rightarrow> False | Inr k \<Rightarrow>
    (case allocate_slots id k (example_prompt ''b'') 16 0 None 0 0 False 0 of Inl _ \<Rightarrow> False | Inr (res, k2, r2) \<Rightarrow> res = None \<and> r2 = example_prompt ''b'')"
    by code_simp
  then obtain k k2 where k: "example_manager = Inr k"
    "allocate_slots id k (example_prompt ''b'') 16 0 None 0 0 False 0 = Inr (None, k2, example_prompt ''b'')" by (auto split: sum.split_asm)
  have "coord_get_blocks (kvm_coord k2) ''a'' = coord_get_blocks (kvm_coord k) ''a''"
    by (rule allocation_isolated[OF example_manager_run[OF k(1)] _ _ _ _ k(2)]) simp_all
  moreover obtain ka where a: "example_manager = Inr ka" "coord_get_blocks (kvm_coord ka) ''a'' = [[Blk 1, Blk 2, Blk 3, Blk 4]]"
    by (rule example_manager_facts)
  moreover have "ka = k" using trans[OF a(1)[symmetric] k(1)] by simp
  ultimately show ?thesis using k by auto
qed




definition three_group_pool :: "block_pool result" where
  "three_group_pool =
     bindE (pool_init 6 True 2 False False False) (\<lambda>p.
     bindE (get_new_blocks p 5) (\<lambda>(bs, p).
     bindE (cache_full_blocks id (example_prompt ''a'') (take 2 bs) 0 2 2 0 p) (\<lambda>(p, r).
     bindE (cache_full_blocks id (example_prompt ''a'') (take 2 (drop 2 bs)) 0 2 2 1 p) (\<lambda>(p, r).
     bindE (cache_full_blocks id (example_prompt ''a'') (drop 4 bs) 0 1 2 2 p) (\<lambda>(p, r). Inr p)))))"


end
