(* ===== verification/Pair_State.thy ===== *)
theory Pair_State
  imports Prelude "HOL-Library.Word"
begin

text \<open>
  The shared memory of the pair scheduler, \<open>scheduler/src/vllm_pair_scheduler/native/pair_sched.c\<close>: two vLLM
  instances on one host take turns in running model rounds. Integers keep their width; the enumerations are
  the ints the C code stores. The futex words only say when a waiting thread looks again, so they are
  left out and waiting is looking again after any time.
\<close>

unbundle bit_operations_syntax

section \<open>Layout\<close>

type_synonym u32 = "32 word"
type_synonym u64 = "64 word"

abbreviation PS_INITIALIZING :: int where "PS_INITIALIZING \<equiv> 0"
abbreviation PS_RUNNING :: int where "PS_RUNNING \<equiv> 1"
abbreviation PS_FAILED :: int where "PS_FAILED \<equiv> 2"
abbreviation PS_SHUTDOWN :: int where "PS_SHUTDOWN \<equiv> 3"

abbreviation ROUND_OFFLINE :: int where "ROUND_OFFLINE \<equiv> 0"
abbreviation ROUND_IDLE :: int where "ROUND_IDLE \<equiv> 1"
abbreviation ROUND_INITIALIZING :: int where "ROUND_INITIALIZING \<equiv> 2"
abbreviation ROUND_COLLECTING :: int where "ROUND_COLLECTING \<equiv> 3"
abbreviation ROUND_READY :: int where "ROUND_READY \<equiv> 4"
abbreviation ROUND_RUNNING :: int where "ROUND_RUNNING \<equiv> 5"
abbreviation ROUND_COMPLETE :: int where "ROUND_COMPLETE \<equiv> 6"
abbreviation ROUND_DRAINING :: int where "ROUND_DRAINING \<equiv> 7"

abbreviation FAIL_GENERIC :: int where "FAIL_GENERIC \<equiv> 1"
abbreviation FAIL_FORWARD_TIMEOUT :: int where "FAIL_FORWARD_TIMEOUT \<equiv> 102"
abbreviation FAIL_PRIMARY_DEAD :: int where "FAIL_PRIMARY_DEAD \<equiv> 103"
abbreviation FAIL_WORKER_DEAD :: int where "FAIL_WORKER_DEAD \<equiv> 104"
abbreviation FAIL_CORRUPT_OWNER :: int where "FAIL_CORRUPT_OWNER \<equiv> 108"
abbreviation FAIL_CORRUPT_STATE :: int where "FAIL_CORRUPT_STATE \<equiv> 109"
abbreviation FAIL_FENCING :: int where "FAIL_FENCING \<equiv> 110"
abbreviation FAIL_DUPLICATE_RANK :: int where "FAIL_DUPLICATE_RANK \<equiv> 111"
abbreviation FAIL_BARRIER_TIMEOUT :: int where "FAIL_BARRIER_TIMEOUT \<equiv> 112"
abbreviation FAIL_CLOSE_ACTIVE :: int where "FAIL_CLOSE_ACTIVE \<equiv> 113"

abbreviation PS_NO_OWNER :: int where "PS_NO_OWNER \<equiv> - 1"

record worker_slot =
  slot_pid :: int
  slot_session :: u64
  slot_last_seq :: u64
  slot_heartbeat :: u64

record instance_group =
  g_state :: int
  g_error :: int
  forward_seq :: u64
  grant_id :: u64
  ready_mask :: u64
  complete_mask :: u64
  exit_mask :: u64
  online_mask :: u64
  expected_mask :: u64
  publish_ns :: u64
  workers :: "nat \<Rightarrow> worker_slot"

record shared_state =
  sh_magic :: u64
  sh_version :: u32
  sh_size :: u32
  sh_epoch :: u64
  sh_heartbeat_ms :: u32
  sh_peer_timeout_ms :: u32
  sh_forward_timeout_ms :: u32
  sh_worker_count :: u32
  sh_status :: u64
  sh_owner :: int
  sh_last_owner :: int
  deadline_ns :: u64
  primary_heartbeat_ns :: u64
  next_grant_id :: u64
  groups :: "nat \<Rightarrow> instance_group"

definition PS_MAGIC :: u64 where
  "PS_MAGIC = 0x5650534348454434"

definition PS_VERSION :: u32 where
  "PS_VERSION = 4"

section \<open>Status\<close>

definition make_status :: "int \<Rightarrow> int \<Rightarrow> u64" where
  "make_status state reason = push_bit 32 (ucast (word_of_int state :: u32)) OR ucast (word_of_int reason :: u32)"

definition status_state :: "u64 \<Rightarrow> int" where
  "status_state status = sint (ucast (drop_bit 32 status) :: u32)"

definition status_reason :: "u64 \<Rightarrow> int" where
  "status_reason status = sint (ucast status :: u32)"

lemma sint_of_int32: "- (2 ^ 31) \<le> x \<Longrightarrow> x < 2 ^ 31 \<Longrightarrow> sint (word_of_int x :: u32) = x"
  by (simp add: signed_take_bit_int_eq_self sint_sbintrunc')

lemma status_state_make: "- (2 ^ 31) \<le> state \<Longrightarrow> state < 2 ^ 31 \<Longrightarrow> status_state (make_status state reason) = state"
proof -
  have "ucast (drop_bit 32 (make_status state reason)) = (word_of_int state :: u32)"
    by (rule bit_word_eqI) (auto simp: make_status_def bit_simps)
  then show "- (2 ^ 31) \<le> state \<Longrightarrow> state < 2 ^ 31 \<Longrightarrow> ?thesis" by (simp only: status_state_def sint_of_int32)
qed

lemma status_reason_make: "- (2 ^ 31) \<le> reason \<Longrightarrow> reason < 2 ^ 31 \<Longrightarrow> status_reason (make_status state reason) = reason"
proof -
  have "ucast (make_status state reason) = (word_of_int reason :: u32)"
    by (rule bit_word_eqI) (auto simp: make_status_def bit_simps)
  then show "- (2 ^ 31) \<le> reason \<Longrightarrow> reason < 2 ^ 31 \<Longrightarrow> ?thesis" by (simp only: status_reason_def sint_of_int32)
qed

abbreviation running_status :: u64 where
  "running_status \<equiv> make_status PS_RUNNING 0"

definition is_running :: "shared_state \<Rightarrow> bool" where
  "is_running sh \<longleftrightarrow> status_state (sh_status sh) = PS_RUNNING"

definition fail_pair :: "int \<Rightarrow> shared_state \<Rightarrow> shared_state" where
  "fail_pair reason sh =
     (let effective_reason = (if reason = 0 then FAIL_GENERIC else reason) in
      if sh_status sh = running_status then sh\<lparr>sh_status := make_status PS_FAILED effective_reason\<rparr> else sh)"

section \<open>Masks\<close>

definition rank_bit :: "nat \<Rightarrow> u64" where
  "rank_bit rank = push_bit rank 1"

definition full_mask :: "u32 \<Rightarrow> u64" where
  "full_mask worker_count = (if worker_count = 64 then - 1 else push_bit (unat worker_count) 1 - 1)"

lemma bit_rank_bit [simp]: "bit (rank_bit r) k \<longleftrightarrow> k = r \<and> r < 64"
  by (auto simp: rank_bit_def bit_simps)

lemma bit_full_mask: "worker_count \<le> 64 \<Longrightarrow> bit (full_mask worker_count) k \<longleftrightarrow> k < unat worker_count"
proof -
  assume le: "worker_count \<le> 64"
  then have n: "unat worker_count \<le> 64" by (simp add: word_le_nat_alt)
  show ?thesis
  proof (cases "worker_count = 64")
    case True
    then show ?thesis by (simp add: full_mask_def bit_simps)
  next
    case False
    have "full_mask worker_count = mask (unat worker_count)" using False by (simp add: full_mask_def mask_eq_exp_minus_1 push_bit_eq_mult)
    then show ?thesis using n by (auto simp: bit_mask_iff)
  qed
qed

lemma or_rank_bit: "r < 64 \<Longrightarrow> bit (m OR rank_bit r) k \<longleftrightarrow> k = r \<or> bit m k"
  by (auto simp: bit_simps)

lemma and_rank_bit: "m AND rank_bit r = 0 \<longleftrightarrow> \<not> (r < 64 \<and> bit m r)"
  using bit_eq_iff[of "m AND rank_bit r" 0] by (auto simp: bit_and_iff)

section \<open>Liveness\<close>

definition heartbeat_expired :: "u64 \<Rightarrow> u64 \<Rightarrow> u32 \<Rightarrow> bool" where
  "heartbeat_expired heartbeat now timeout_ms \<longleftrightarrow>
     heartbeat = 0 \<or> heartbeat < now \<and> ucast timeout_ms * 1000000 < now - heartbeat"

definition worker_alive :: "worker_slot \<Rightarrow> u64 \<Rightarrow> u32 \<Rightarrow> bool" where
  "worker_alive slot now timeout_ms \<longleftrightarrow>
     0 < slot_pid slot \<and> slot_session slot \<noteq> 0 \<and> \<not> heartbeat_expired (slot_heartbeat slot) now timeout_ms"

definition group_workers_alive :: "shared_state \<Rightarrow> nat \<Rightarrow> u64 \<Rightarrow> u64 \<Rightarrow> bool" where
  "group_workers_alive sh instance m now \<longleftrightarrow>
     (\<forall>rank \<in> set [0..<unat (sh_worker_count sh)].
        m AND rank_bit rank \<noteq> 0 \<longrightarrow> worker_alive (workers (groups sh instance) rank) now (sh_peer_timeout_ms sh))"

text \<open>
  The heartbeat test is exact on the unsigned 64 bit numbers: the timeout in nanoseconds and the age of the heartbeat
  never wrap, and a heartbeat from the future is not expired.
\<close>

lemma heartbeat_expired_iff:
  "heartbeat_expired heartbeat now timeout_ms \<longleftrightarrow>
   heartbeat = 0 \<or> int (unat timeout_ms) * 1000000 < int (unat now) - int (unat heartbeat)"
proof -
  have t: "unat (ucast timeout_ms * 1000000 :: u64) = unat timeout_ms * 1000000"
  proof -
    have l: "unat timeout_ms < 2 ^ LENGTH(32)" by (rule unsigned_less)
    then have u: "unat (ucast timeout_ms :: u64) = unat timeout_ms" by (simp add: unsigned_ucast_eq take_bit_nat_eq_self)
    then have "unat (ucast timeout_ms :: u64) * unat (1000000 :: u64) < 2 ^ 64" using l by simp
    then show ?thesis using unat_mult_lem[of "ucast timeout_ms :: u64" 1000000] u by simp
  qed
  have d: "unat (now - heartbeat) = unat now - unat heartbeat" if "heartbeat < now"
    using that by (simp add: unat_sub word_le_nat_alt word_less_nat_alt)
  show ?thesis
  proof (cases "heartbeat < now")
    case True
    then have "unat heartbeat < unat now" by (simp add: word_less_nat_alt)
    then have "unat timeout_ms * 1000000 < unat now - unat heartbeat \<longleftrightarrow>
        int (unat timeout_ms) * 1000000 < int (unat now) - int (unat heartbeat)" by linarith
    then show ?thesis
      unfolding heartbeat_expired_def word_less_nat_alt[of "ucast timeout_ms * 1000000"] t d[OF True] using True by simp
  next
    case False
    then have "unat now \<le> unat heartbeat" by (simp add: word_less_nat_alt)
    then have "\<not> int (unat timeout_ms) * 1000000 < int (unat now) - int (unat heartbeat)" by linarith
    then show ?thesis using False unfolding heartbeat_expired_def by simp
  qed
qed

section \<open>Consistency of the shared memory\<close>

definition valid_round_state :: "int \<Rightarrow> bool" where
  "valid_round_state state \<longleftrightarrow> ROUND_OFFLINE \<le> state \<and> state \<le> ROUND_DRAINING"

definition valid_group :: "instance_group \<Rightarrow> bool" where
  "valid_group g \<longleftrightarrow> valid_round_state (g_state g) \<and> ready_mask g AND NOT (expected_mask g) = 0 \<and>
     complete_mask g AND NOT (expected_mask g) = 0 \<and> exit_mask g AND NOT (expected_mask g) = 0 \<and>
     online_mask g AND NOT (expected_mask g) = 0"

definition validate_shared :: "shared_state \<Rightarrow> bool \<times> shared_state" where
  "validate_shared sh =
     (if sh_owner sh \<noteq> PS_NO_OWNER \<and> (sh_owner sh < 0 \<or> 2 \<le> sh_owner sh) then (False, fail_pair FAIL_CORRUPT_OWNER sh)
      else if valid_group (groups sh 0) \<and> valid_group (groups sh 1) then (True, sh)
      else (False, fail_pair FAIL_CORRUPT_STATE sh))"

section \<open>Choice of the next instance\<close>

definition select_instance :: "bool \<Rightarrow> bool \<Rightarrow> u64 \<Rightarrow> u64 \<Rightarrow> int \<Rightarrow> int option" where
  "select_instance ready0 ready1 published0 published1 last_owner =
     (if \<not> ready0 \<and> \<not> ready1 then None
      else Some (if ready0 \<and> ready1
                 then if published0 < published1 then 0 else if published1 < published0 then 1
                      else if last_owner = 0 then 1 else 0
                 else if ready0 then 0 else 1))"

definition barrier_late :: "int \<Rightarrow> u64 \<Rightarrow> u64 \<Rightarrow> u32 \<Rightarrow> bool" where
  "barrier_late state publish now peer_timeout_ms \<longleftrightarrow>
     (state = ROUND_COLLECTING \<or> state = ROUND_READY) \<and> publish \<noteq> 0 \<and> publish < now \<and>
     ucast peer_timeout_ms * 1000000 < now - publish"

section \<open>Opening and closing\<close>

definition open_args_ok :: "int \<Rightarrow> int \<Rightarrow> u32 \<Rightarrow> u64 \<Rightarrow> u64 \<Rightarrow> u32 \<Rightarrow> u32 \<Rightarrow> u32 \<Rightarrow> bool \<Rightarrow> bool" where
  "open_args_ok instance worker_rank worker_count epoch session heartbeat_ms peer_timeout_ms forward_timeout_ms create \<longleftrightarrow>
     \<not> (instance < 0 \<or> 2 \<le> instance \<or> worker_count = 0 \<or> 64 < worker_count \<or> worker_rank < 0 \<or>
        worker_count \<le> word_of_int worker_rank \<or> epoch = 0 \<or> session = 0 \<or> heartbeat_ms = 0 \<or>
        peer_timeout_ms \<le> heartbeat_ms * 2 \<or> forward_timeout_ms = 0) \<and>
     \<not> (create \<and> (instance \<noteq> 0 \<or> worker_rank \<noteq> 0))"

definition empty_slot :: worker_slot where
  "empty_slot = \<lparr>slot_pid = 0, slot_session = 0, slot_last_seq = 0, slot_heartbeat = 0\<rparr>"

definition new_group :: "u32 \<Rightarrow> instance_group" where
  "new_group worker_count =
     \<lparr>g_state = ROUND_OFFLINE, g_error = 0, forward_seq = 0, grant_id = 0, ready_mask = 0, complete_mask = 0, exit_mask = 0,
      online_mask = 0, expected_mask = full_mask worker_count, publish_ns = 0, workers = (\<lambda>_. empty_slot)\<rparr>"

definition create_shared :: "u32 \<Rightarrow> u64 \<Rightarrow> u64 \<Rightarrow> u32 \<Rightarrow> u32 \<Rightarrow> u32 \<Rightarrow> u32 \<Rightarrow> shared_state" where
  "create_shared layout_size epoch now heartbeat_ms peer_timeout_ms forward_timeout_ms worker_count =
     \<lparr>sh_magic = PS_MAGIC, sh_version = PS_VERSION, sh_size = layout_size, sh_epoch = epoch, sh_heartbeat_ms = heartbeat_ms,
      sh_peer_timeout_ms = peer_timeout_ms, sh_forward_timeout_ms = forward_timeout_ms, sh_worker_count = worker_count,
      sh_status = running_status, sh_owner = PS_NO_OWNER, sh_last_owner = PS_NO_OWNER, deadline_ns = 0,
      primary_heartbeat_ns = now, next_grant_id = 0, groups = (\<lambda>_. new_group worker_count)\<rparr>"

definition validate_layout :: "shared_state \<Rightarrow> u32 \<Rightarrow> u64 \<Rightarrow> u32 \<Rightarrow> u32 \<Rightarrow> u32 \<Rightarrow> u32 \<Rightarrow> bool" where
  "validate_layout sh layout_size epoch heartbeat_ms peer_timeout_ms forward_timeout_ms worker_count \<longleftrightarrow>
     \<not> (sh_magic sh \<noteq> PS_MAGIC \<or> sh_version sh \<noteq> PS_VERSION \<or> sh_size sh \<noteq> layout_size) \<and> sh_epoch sh = epoch \<and>
     \<not> (sh_heartbeat_ms sh \<noteq> heartbeat_ms \<or> sh_peer_timeout_ms sh \<noteq> peer_timeout_ms \<or>
        sh_forward_timeout_ms sh \<noteq> forward_timeout_ms \<or> sh_worker_count sh \<noteq> worker_count)"

abbreviation set_group :: "nat \<Rightarrow> (instance_group \<Rightarrow> instance_group) \<Rightarrow> shared_state \<Rightarrow> shared_state" where
  "set_group i f sh \<equiv> sh\<lparr>groups := (groups sh)(i := f (groups sh i))\<rparr>"

abbreviation set_slot :: "nat \<Rightarrow> nat \<Rightarrow> (worker_slot \<Rightarrow> worker_slot) \<Rightarrow> shared_state \<Rightarrow> shared_state" where
  "set_slot i r f sh \<equiv> set_group i (\<lambda>g. g\<lparr>workers := (workers g)(r := f (workers g r))\<rparr>) sh"

definition register_worker :: "nat \<Rightarrow> nat \<Rightarrow> int \<Rightarrow> u64 \<Rightarrow> u32 \<Rightarrow> u64 \<Rightarrow> shared_state \<Rightarrow> shared_state option" where
  "register_worker i r pid session peer_timeout_ms now sh =
     (let slot = workers (groups sh i) r in
      if slot_session slot \<noteq> 0 \<and> \<not> heartbeat_expired (slot_heartbeat slot) now peer_timeout_ms then None
      else Some (set_group i (\<lambda>g. g\<lparr>online_mask := online_mask g OR rank_bit r,
                                       g_state := (if g_state g = ROUND_OFFLINE then ROUND_IDLE else g_state g)\<rparr>)
             (set_slot i r (\<lambda>_. \<lparr>slot_pid = pid, slot_session = session, slot_last_seq = 0, slot_heartbeat = now\<rparr>) sh)))"

text \<open>The part of \<open>ps_close\<close> after the threads have ended and no call is active.\<close>

definition close_worker :: "nat \<Rightarrow> nat \<Rightarrow> u64 \<Rightarrow> u64 \<Rightarrow> bool \<Rightarrow> shared_state \<Rightarrow> shared_state" where
  "close_worker i r session active_seq coordinator sh =
     (let g = groups sh i; round_state = g_state g;
          sh1 = (if slot_session (workers g r) = session
                 then let sh2 = (if active_seq \<noteq> 0 \<or> sh_owner sh = int i \<or>
                                    ((round_state = ROUND_COLLECTING \<or> round_state = ROUND_READY) \<and> ready_mask g AND rank_bit r \<noteq> 0)
                                 then fail_pair FAIL_CLOSE_ACTIVE sh else sh);
                          sh3 = set_group i (\<lambda>g. g\<lparr>online_mask := online_mask g AND NOT (rank_bit r)\<rparr>) sh2;
                          sh4 = set_slot i r (\<lambda>w. w\<lparr>slot_heartbeat := 0, slot_pid := 0, slot_session := 0\<rparr>) sh3
                      in if online_mask (groups sh4 i) = 0 \<and> round_state = ROUND_IDLE
                         then set_group i (\<lambda>g. g\<lparr>g_state := ROUND_OFFLINE\<rparr>) sh4 else sh4
                 else sh)
      in if coordinator \<and> sh_status sh1 = running_status then sh1\<lparr>sh_status := make_status PS_SHUTDOWN 0\<rparr> else sh1)"

end
