(* ===== verification/Pair_Config.thy ===== *)
theory Pair_Config
  imports Pair_State
begin

text \<open>
  The configuration of the pair scheduler, \<open>scheduler/src/vllm_pair_scheduler/config.py\<close>, and the arguments the gate of a
  worker, \<open>gate.py\<close>, passes to \<open>ps_open\<close>. The role file is an argument: \<open>None\<close> when it does not exist, else its text.
\<close>

section \<open>The configuration\<close>

record pair_config =
  cfg_mode :: string
  cfg_role :: "string option"
  cfg_instance_id :: "string option"
  cfg_pair_id :: "string option"
  cfg_init_timeout_ms :: int
  cfg_forward_timeout_ms :: int
  cfg_heartbeat_ms :: int
  cfg_peer_timeout_ms :: int

definition PAIR_ID :: string where
  "PAIR_ID = ''default''"

definition default_config :: pair_config where
  "default_config = \<lparr>cfg_mode = ''off'', cfg_role = None, cfg_instance_id = None, cfg_pair_id = None, cfg_init_timeout_ms = 30000,
     cfg_forward_timeout_ms = 30000, cfg_heartbeat_ms = 100, cfg_peer_timeout_ms = 1000\<rparr>"

definition config_post_init :: "pair_config \<Rightarrow> pair_config result" where
  "config_post_init c =
     (if cfg_mode c \<notin> {''off'', ''elastic''} then Inl ValueError
      else if cfg_mode c = ''off'' then Inr c
      else if cfg_role c \<notin> {Some ''primary'', Some ''standby''} then Inl ValueError
      else if cfg_instance_id c \<notin> {Some ''A'', Some ''B''} then Inl ValueError
      else if cfg_pair_id c \<in> {None, Some ''''} then Inl ValueError
      else if cfg_role c = Some ''primary'' \<and> cfg_instance_id c \<noteq> Some ''A'' then Inl ValueError
      else if cfg_role c = Some ''standby'' \<and> cfg_instance_id c \<noteq> Some ''B'' then Inl ValueError
      else if cfg_init_timeout_ms c \<le> 0 \<or> cfg_forward_timeout_ms c \<le> 0 \<or> cfg_heartbeat_ms c \<le> 0 \<or> cfg_peer_timeout_ms c \<le> 0
      then Inl ValueError
      else if cfg_peer_timeout_ms c \<le> cfg_heartbeat_ms c * 2 then Inl ValueError
      else Inr c)"

text \<open>\<open>str.strip\<close> and \<open>str.lower\<close> on ASCII text.\<close>

definition is_space :: "char \<Rightarrow> bool" where
  "is_space ch \<longleftrightarrow> of_char ch \<in> ({9, 10, 11, 12, 13, 28, 29, 30, 31, 32} :: nat set)"

definition strip :: "string \<Rightarrow> string" where
  "strip text = rev (dropWhile is_space (rev (dropWhile is_space text)))"

definition lower :: "string \<Rightarrow> string" where
  "lower text = map (\<lambda>ch. if 65 \<le> (of_char ch :: nat) \<and> (of_char ch :: nat) \<le> 90 then char_of (of_char ch + 32 :: nat) else ch) text"

definition from_install :: "string option \<Rightarrow> pair_config result" where
  "from_install role_file =
     (case role_file of
        None \<Rightarrow> config_post_init default_config
      | Some text \<Rightarrow>
          let role = lower (strip text) in
          if role \<notin> {''primary'', ''standby''} then Inl ValueError
          else config_post_init (default_config\<lparr>cfg_mode := ''elastic'', cfg_role := Some role,
                 cfg_instance_id := Some (if role = ''primary'' then ''A'' else ''B''), cfg_pair_id := Some PAIR_ID\<rparr>))"

section \<open>The gate of a worker\<close>

definition gate_args_ok :: "pair_config \<Rightarrow> int \<Rightarrow> int \<Rightarrow> bool" where
  "gate_args_ok c worker_rank worker_count \<longleftrightarrow>
     cfg_mode c = ''elastic'' \<and> 1 \<le> worker_count \<and> worker_count \<le> 64 \<and> 0 \<le> worker_rank \<and> worker_rank < worker_count"

definition gate_creator :: "pair_config \<Rightarrow> int \<Rightarrow> bool" where
  "gate_creator c worker_rank \<longleftrightarrow> cfg_role c = Some ''primary'' \<and> worker_rank = 0"

text \<open>Whether \<open>ps_open\<close> accepts what \<open>_native_open\<close> passes; \<open>ctypes\<close> takes the numbers modulo their width.\<close>

definition native_open_ok :: "pair_config \<Rightarrow> int \<Rightarrow> int \<Rightarrow> u64 \<Rightarrow> u64 \<Rightarrow> bool \<Rightarrow> bool" where
  "native_open_ok c worker_rank worker_count epoch session create =
     open_args_ok (if cfg_instance_id c = Some ''A'' then 0 else 1) worker_rank (word_of_int worker_count) epoch session
       (word_of_int (cfg_heartbeat_ms c)) (word_of_int (cfg_peer_timeout_ms c)) (word_of_int (cfg_forward_timeout_ms c)) create"

lemma word_order_small:
  assumes "0 \<le> a" "a < 2 ^ 32" "0 \<le> b" "b < 2 ^ 32"
  shows "(word_of_int a :: u32) < word_of_int b \<longleftrightarrow> a < b" "(word_of_int a :: u32) \<le> word_of_int b \<longleftrightarrow> a \<le> b"
    "(word_of_int a :: u32) = word_of_int b \<longleftrightarrow> a = b"
  using assms by (simp_all add: word_less_def word_le_def word_uint_eq_iff unsigned_of_int take_bit_int_eq_self)

text \<open>
  A validated configuration whose numbers fit 32 bits, the doubled heartbeat included, passes the checks of \<open>ps_open\<close>.
\<close>

lemma validated_config_opens:
  assumes c: "config_post_init c = Inr c'" "gate_args_ok c worker_rank worker_count"
    and fits: "cfg_peer_timeout_ms c < 2 ^ 32" "cfg_forward_timeout_ms c < 2 ^ 32" and nz: "epoch \<noteq> 0" "session \<noteq> 0"
  shows "native_open_ok c worker_rank worker_count epoch session (gate_creator c worker_rank)"
proof -
  have v: "0 < cfg_heartbeat_ms c" "0 < cfg_forward_timeout_ms c" "cfg_heartbeat_ms c * 2 < cfg_peer_timeout_ms c"
      "cfg_role c = Some ''primary'' \<longrightarrow> cfg_instance_id c = Some ''A''"
    using c by (auto simp: config_post_init_def gate_args_ok_def split: if_splits)
  have g: "1 \<le> worker_count" "worker_count \<le> 64" "0 \<le> worker_rank" "worker_rank < worker_count"
    using c(2) by (simp_all add: gate_args_ok_def)
  have h2: "word_of_int (cfg_heartbeat_ms c) * 2 = (word_of_int (cfg_heartbeat_ms c * 2) :: u32)" by simp
  have "\<not> (word_of_int (cfg_peer_timeout_ms c) :: u32) \<le> word_of_int (cfg_heartbeat_ms c * 2)"
    using v fits by (subst word_order_small(2)) simp_all
  moreover have "(word_of_int (cfg_heartbeat_ms c) :: u32) \<noteq> 0" "(word_of_int (cfg_forward_timeout_ms c) :: u32) \<noteq> 0"
    using v fits word_order_small(3)[of _ 0] by force+
  moreover have "(word_of_int worker_count :: u32) \<noteq> 0" "\<not> (64 :: u32) < word_of_int worker_count"
      "\<not> (word_of_int worker_count :: u32) \<le> word_of_int worker_rank"
    using g word_order_small(3)[of worker_count 0] word_order_small(1)[of 64 worker_count]
      word_order_small(2)[of worker_count worker_rank] by force+
  ultimately show ?thesis
    using g nz v(4) unfolding native_open_ok_def open_args_ok_def h2 gate_creator_def by auto
qed

abbreviation installed_config :: "string \<Rightarrow> pair_config" where
  "installed_config role \<equiv> default_config\<lparr>cfg_mode := ''elastic'', cfg_role := Some role,
     cfg_instance_id := Some (if role = ''primary'' then ''A'' else ''B''), cfg_pair_id := Some PAIR_ID\<rparr>"

lemma installed_config_ok: "role \<in> {''primary'', ''standby''} \<Longrightarrow> config_post_init (installed_config role) = Inr (installed_config role)"
  by (auto simp: config_post_init_def default_config_def PAIR_ID_def)

lemma from_install_cases:
  assumes "from_install role_file = Inr c" "cfg_mode c = ''elastic''"
  obtains role where "role \<in> {''primary'', ''standby''}" "c = installed_config role"
proof (cases role_file)
  case None
  then show ?thesis using assms by (auto simp: from_install_def config_post_init_def default_config_def)
next
  case (Some content)
  define role where "role = lower (strip content)"
  have i: "(if role \<notin> {''primary'', ''standby''} then Inl ValueError else config_post_init (installed_config role)) = Inr c"
    using assms(1) unfolding Some from_install_def Let_def role_def option.case .
  then have r: "role \<in> {''primary'', ''standby''}" by (meson Inl_Inr_False)
  then have "config_post_init (installed_config role) = Inr c" using i by argo
  then have "c = installed_config role" using installed_config_ok[OF r] by (metis Inr_inject)
  then show ?thesis by (rule that[OF r])
qed

lemma from_install_config:
  assumes "from_install role_file = Inr c" "cfg_mode c = ''elastic''"
  shows "config_post_init c = Inr c" "cfg_peer_timeout_ms c = 1000" "cfg_forward_timeout_ms c = 30000"
    "cfg_role c = Some ''primary'' \<and> cfg_instance_id c = Some ''A'' \<or> cfg_role c = Some ''standby'' \<and> cfg_instance_id c = Some ''B''"
proof -
  obtain role where r: "role \<in> {''primary'', ''standby''}" "c = installed_config role" using from_install_cases[OF assms] .
  show "config_post_init c = Inr c" unfolding r(2) by (rule installed_config_ok[OF r(1)])
  show "cfg_peer_timeout_ms c = 1000" "cfg_forward_timeout_ms c = 30000" unfolding r(2) by (simp_all add: default_config_def)
  show "cfg_role c = Some ''primary'' \<and> cfg_instance_id c = Some ''A'' \<or> cfg_role c = Some ''standby'' \<and> cfg_instance_id c = Some ''B''"
    using r(1) unfolding r(2) by auto
qed

text \<open>
  C31: a gate built from an installed role file that passes the checks of the gate also passes those of \<open>ps_open\<close>, for every
  rank, although the numbers are cut to their width on the way; the primary is instance A, the standby instance B, and exactly
  rank 0 of the primary creates the shared memory.
\<close>

theorem installed_gate_opens:
  assumes "from_install role_file = Inr c" "gate_args_ok c worker_rank worker_count" "epoch \<noteq> 0" "session \<noteq> 0"
  shows "native_open_ok c worker_rank worker_count epoch session (gate_creator c worker_rank) \<and>
    (gate_creator c worker_rank \<longleftrightarrow> cfg_instance_id c = Some ''A'' \<and> worker_rank = 0)"
proof -
  have e: "cfg_mode c = ''elastic''" using assms(2) by (simp add: gate_args_ok_def)
  note f = from_install_config[OF assms(1) e]
  show ?thesis
    using validated_config_opens[OF f(1) assms(2) _ _ assms(3,4)] f(2-4) by (auto simp: gate_creator_def)
qed

theorem installed_gate_opens_witness:
  "\<exists>c. from_install (Some (''Primary'' @ [CHR 0x0A])) = Inr c \<and> native_open_ok c 0 8 5 6 True"
proof -
  let ?c = "default_config\<lparr>cfg_mode := ''elastic'', cfg_role := Some ''primary'', cfg_instance_id := Some ''A'', cfg_pair_id := Some PAIR_ID\<rparr>"
  have i: "from_install (Some (''Primary'' @ [CHR 0x0A])) = Inr ?c" by code_simp
  have g: "gate_args_ok ?c 0 8" "gate_creator ?c 0" by (simp_all add: gate_args_ok_def gate_creator_def)
  show ?thesis using i installed_gate_opens[OF i g(1), of 5 6] g(2) by auto
qed

end
