(* ===== verification/Pair_Steps.thy ===== *)
theory Pair_Steps
  imports Pair_State
begin

text \<open>
  The threads of the pair scheduler as machines over the shared memory: every atomic load, store,
  exchange and fetch of \<open>ps_enter_forward\<close>, \<open>ps_leave_forward\<close> and the coordinator is one step, so all
  interleavings of the workers of both instances and the coordinator are runs. Two scans of the coordinator that
  only decide whether to fail or skip, \<open>validate_shared\<close> and \<open>group_workers_alive\<close>, are one step each. Each rank is
  opened by one process. Loads and stores are taken to be sequentially consistent. Opening and closing are one
  step each, and opening leaves out the check of \<open>ps_open\<close> that the primary is alive, so the model has more runs.
\<close>

section \<open>Workers\<close>

text \<open>Where a worker is: outside a call, in its round, or before an atomic access inside a call.\<close>

datatype wpc =
    Unopened | Outside | InRound | Dead
  | E_Begin | E_Status | E_State | E_CasInit | E_InitSeq | E_InitGrant | E_InitReady | E_InitComplete | E_InitExit
  | E_InitPublish | E_InitState | E_Seq int | E_LastSeq | E_OrReady | E_CasReady
  | W_Stop | W_Status | W_Primary | W_State | W_Seq int | W_Grant int u64 | W_Owner int u64 u64
  | V_Session u64 | V_Pid u64 | V_Last u64
  | L_Begin | L_Deadline | L_Status u64 | L_Time u64 | L_Active | L_Owner | L_Seq | L_Grant | L_State
  | L_Session | L_Pid | L_Last | L_OrComplete | L_CasComplete
  | X_Stop | X_Status | X_State | X_Seq int | X_OrExit | X_Ready | X_Complete | X_Grant | X_Publish | X_Idle | X_Done

record worker_ctx =
  w_pc :: wpc
  w_pid :: int
  w_session :: u64
  next_seq :: u64
  active_seq :: u64
  active_grant_id :: u64
  stopping :: bool
  arg_seq :: u64
  arg_grant :: u64

abbreviation goto :: "wpc \<Rightarrow> worker_ctx \<Rightarrow> shared_state \<Rightarrow> worker_ctx \<times> shared_state" where
  "goto pc w sh \<equiv> (w\<lparr>w_pc := pc\<rparr>, sh)"

abbreviation give_up :: "int \<Rightarrow> worker_ctx \<Rightarrow> shared_state \<Rightarrow> worker_ctx \<times> shared_state" where
  "give_up reason w sh \<equiv> (w\<lparr>w_pc := Outside\<rparr>, fail_pair reason sh)"

text \<open>\<open>ps_enter_forward\<close> up to the ready bit: joining the round of the instance or starting it.\<close>

definition join_step :: "nat \<Rightarrow> nat \<Rightarrow> u64 \<Rightarrow> worker_ctx \<Rightarrow> shared_state \<Rightarrow> worker_ctx \<times> shared_state" where
  "join_step i r now w sh =
     (let g = groups sh i in
      case w_pc w of
        E_Begin \<Rightarrow>
          if stopping w then goto Outside w sh
          else let w1 = w\<lparr>next_seq := next_seq w + 1\<rparr> in
               if active_seq w \<noteq> 0 then give_up FAIL_FENCING w1 sh else goto E_Status w1 sh
      | E_Status \<Rightarrow> if is_running sh then goto E_State w sh else goto Outside w sh
      | E_State \<Rightarrow>
          if g_state g = ROUND_IDLE then goto E_CasInit w sh
          else if g_state g = ROUND_INITIALIZING \<or> g_state g = ROUND_DRAINING then goto E_State w sh
          else goto (E_Seq (g_state g)) w sh
      | E_CasInit \<Rightarrow>
          if g_state g = ROUND_IDLE then goto E_InitSeq w (set_group i (\<lambda>g. g\<lparr>g_state := ROUND_INITIALIZING\<rparr>) sh)
          else goto E_State w sh
      | E_InitSeq \<Rightarrow> goto E_InitGrant w (set_group i (\<lambda>g. g\<lparr>forward_seq := next_seq w\<rparr>) sh)
      | E_InitGrant \<Rightarrow> goto E_InitReady w (set_group i (\<lambda>g. g\<lparr>grant_id := 0\<rparr>) sh)
      | E_InitReady \<Rightarrow> goto E_InitComplete w (set_group i (\<lambda>g. g\<lparr>ready_mask := 0\<rparr>) sh)
      | E_InitComplete \<Rightarrow> goto E_InitExit w (set_group i (\<lambda>g. g\<lparr>complete_mask := 0\<rparr>) sh)
      | E_InitExit \<Rightarrow> goto E_InitPublish w (set_group i (\<lambda>g. g\<lparr>exit_mask := 0\<rparr>) sh)
      | E_InitPublish \<Rightarrow> goto E_InitState w (set_group i (\<lambda>g. g\<lparr>publish_ns := now\<rparr>) sh)
      | E_InitState \<Rightarrow> goto E_LastSeq w (set_group i (\<lambda>g. g\<lparr>g_state := ROUND_COLLECTING\<rparr>) sh)
      | E_Seq s \<Rightarrow>
          if s = ROUND_COLLECTING \<and> forward_seq g = next_seq w then goto E_LastSeq w sh else give_up FAIL_FENCING w sh
      | E_LastSeq \<Rightarrow> goto E_OrReady w (set_slot i r (\<lambda>s. s\<lparr>slot_last_seq := next_seq w\<rparr>) sh)
      | E_OrReady \<Rightarrow>
          let sh1 = set_group i (\<lambda>g. g\<lparr>ready_mask := ready_mask g OR rank_bit r\<rparr>) sh in
          if ready_mask g AND rank_bit r \<noteq> 0 then give_up FAIL_DUPLICATE_RANK w sh1
          else if ready_mask g OR rank_bit r = expected_mask g then goto E_CasReady w sh1 else goto W_Stop w sh1
      | E_CasReady \<Rightarrow>
          if g_state g = ROUND_COLLECTING then goto W_Stop w (set_group i (\<lambda>g. g\<lparr>g_state := ROUND_READY\<rparr>) sh)
          else give_up FAIL_FENCING w sh
      | _ \<Rightarrow> (w, sh))"

text \<open>\<open>ps_enter_forward\<close> after the ready bit: waiting for the grant and the check of the own slot.\<close>

definition grant_step :: "nat \<Rightarrow> nat \<Rightarrow> u64 \<Rightarrow> worker_ctx \<Rightarrow> shared_state \<Rightarrow> worker_ctx \<times> shared_state" where
  "grant_step i r now w sh =
     (let g = groups sh i; slot = workers g r in
      case w_pc w of
        W_Stop \<Rightarrow> if stopping w then goto Outside w sh else goto W_Status w sh
      | W_Status \<Rightarrow> if is_running sh then goto W_Primary w sh else goto Outside w sh
      | W_Primary \<Rightarrow>
          if heartbeat_expired (primary_heartbeat_ns sh) now (sh_peer_timeout_ms sh) then give_up FAIL_PRIMARY_DEAD w sh
          else goto W_State w sh
      | W_State \<Rightarrow> goto (W_Seq (g_state g)) w sh
      | W_Seq s \<Rightarrow> goto (W_Grant s (forward_seq g)) w sh
      | W_Grant s q \<Rightarrow> goto (W_Owner s q (grant_id g)) w sh
      | W_Owner s q k \<Rightarrow>
          if s = ROUND_RUNNING \<and> sh_owner sh = int i \<and> q = next_seq w \<and> k \<noteq> 0 then goto (V_Session k) w sh
          else if q \<noteq> next_seq w \<or> (s \<noteq> ROUND_COLLECTING \<and> s \<noteq> ROUND_READY \<and> s \<noteq> ROUND_RUNNING) then give_up FAIL_FENCING w sh
          else goto W_Stop w sh
      | V_Session k \<Rightarrow> if slot_session slot \<noteq> w_session w then give_up FAIL_FENCING w sh else goto (V_Pid k) w sh
      | V_Pid k \<Rightarrow> if slot_pid slot \<noteq> w_pid w then give_up FAIL_FENCING w sh else goto (V_Last k) w sh
      | V_Last k \<Rightarrow>
          if slot_last_seq slot \<noteq> next_seq w then give_up FAIL_FENCING w sh
          else goto InRound (w\<lparr>active_seq := next_seq w, active_grant_id := k\<rparr>) sh
      | _ \<Rightarrow> (w, sh))"

text \<open>\<open>ps_leave_forward\<close> up to the complete bit.\<close>

definition leave_step :: "nat \<Rightarrow> nat \<Rightarrow> u64 \<Rightarrow> worker_ctx \<Rightarrow> shared_state \<Rightarrow> worker_ctx \<times> shared_state" where
  "leave_step i r now w sh =
     (let g = groups sh i; slot = workers g r; fence = (\<lambda>ok pc. if ok then goto pc w sh else give_up FAIL_FENCING w sh) in
      case w_pc w of
        L_Begin \<Rightarrow> if stopping w then goto Outside w sh else goto L_Deadline w sh
      | L_Deadline \<Rightarrow> goto (L_Status (deadline_ns sh)) w sh
      | L_Status d \<Rightarrow> if is_running sh then goto (L_Time d) w sh else goto Outside w sh
      | L_Time d \<Rightarrow> if d \<noteq> 0 \<and> d < now then give_up FAIL_FORWARD_TIMEOUT w sh else goto L_Active w sh
      | L_Active \<Rightarrow> fence (active_seq w = arg_seq w \<and> active_grant_id w = arg_grant w) L_Owner
      | L_Owner \<Rightarrow> fence (sh_owner sh = int i) L_Seq
      | L_Seq \<Rightarrow> fence (forward_seq g = arg_seq w) L_Grant
      | L_Grant \<Rightarrow> fence (grant_id g = arg_grant w) L_State
      | L_State \<Rightarrow> fence (g_state g = ROUND_RUNNING) L_Session
      | L_Session \<Rightarrow> fence (slot_session slot = w_session w) L_Pid
      | L_Pid \<Rightarrow> fence (slot_pid slot = w_pid w) L_Last
      | L_Last \<Rightarrow> fence (slot_last_seq slot = arg_seq w) L_OrComplete
      | L_OrComplete \<Rightarrow>
          let sh1 = set_group i (\<lambda>g. g\<lparr>complete_mask := complete_mask g OR rank_bit r\<rparr>) sh in
          if complete_mask g AND rank_bit r \<noteq> 0 then give_up FAIL_DUPLICATE_RANK w sh1
          else if complete_mask g OR rank_bit r = expected_mask g then goto L_CasComplete w sh1 else goto X_Stop w sh1
      | L_CasComplete \<Rightarrow>
          if g_state g = ROUND_RUNNING then goto X_Stop w (set_group i (\<lambda>g. g\<lparr>g_state := ROUND_COMPLETE\<rparr>) sh)
          else give_up FAIL_FENCING w sh
      | _ \<Rightarrow> (w, sh))"

text \<open>\<open>ps_leave_forward\<close> after the complete bit: waiting for the release and the way back to idle.\<close>

definition drain_step :: "nat \<Rightarrow> nat \<Rightarrow> worker_ctx \<Rightarrow> shared_state \<Rightarrow> worker_ctx \<times> shared_state" where
  "drain_step i r w sh =
     (let g = groups sh i in
      case w_pc w of
        X_Stop \<Rightarrow> if stopping w then goto Outside w sh else goto X_Status w sh
      | X_Status \<Rightarrow> if is_running sh then goto X_State w sh else goto Outside w sh
      | X_State \<Rightarrow> goto (X_Seq (g_state g)) w sh
      | X_Seq s \<Rightarrow>
          if s = ROUND_DRAINING \<and> forward_seq g = arg_seq w then goto X_OrExit w sh
          else if forward_seq g \<noteq> arg_seq w \<or> (s \<noteq> ROUND_RUNNING \<and> s \<noteq> ROUND_COMPLETE \<and> s \<noteq> ROUND_DRAINING)
          then give_up FAIL_FENCING w sh else goto X_Stop w sh
      | X_OrExit \<Rightarrow>
          let sh1 = set_group i (\<lambda>g. g\<lparr>exit_mask := exit_mask g OR rank_bit r\<rparr>) sh in
          if exit_mask g OR rank_bit r = expected_mask g then goto X_Ready w sh1 else goto X_Done w sh1
      | X_Ready \<Rightarrow> goto X_Complete w (set_group i (\<lambda>g. g\<lparr>ready_mask := 0\<rparr>) sh)
      | X_Complete \<Rightarrow> goto X_Grant w (set_group i (\<lambda>g. g\<lparr>complete_mask := 0\<rparr>) sh)
      | X_Grant \<Rightarrow> goto X_Publish w (set_group i (\<lambda>g. g\<lparr>grant_id := 0\<rparr>) sh)
      | X_Publish \<Rightarrow> goto X_Idle w (set_group i (\<lambda>g. g\<lparr>publish_ns := 0\<rparr>) sh)
      | X_Idle \<Rightarrow> goto X_Done w (set_group i (\<lambda>g. g\<lparr>g_state := ROUND_IDLE\<rparr>) sh)
      | X_Done \<Rightarrow> goto Outside (w\<lparr>active_seq := 0, active_grant_id := 0\<rparr>) sh
      | _ \<Rightarrow> (w, sh))"

section \<open>The coordinator\<close>

datatype cpc =
    C_Wait | C_Dead | C_Status | C_Validate | C_Heart | C_Owner u64
  | R_State u64 nat | R_Complete u64 nat int | R_Deadline u64 nat int u64
  | R_Exit u64 nat | R_Drain u64 nat | R_LastOwner u64 nat | R_ClearDeadline u64 nat | R_Release u64 nat
  | C_Status2 u64 | C_Owner2 u64 | D_Owner u64
  | D_State u64 nat "(bool \<times> u64) list" | D_Ready u64 nat "(bool \<times> u64) list" int | D_Online u64 nat "(bool \<times> u64) list" int u64
  | D_Publish u64 nat "(bool \<times> u64) list" int u64 u64 | D_Alive u64 nat "(bool \<times> u64) list" int u64 u64 u64
  | D_Select u64 "(bool \<times> u64) list" | D_Cas u64 nat | D_Grant u64 nat | D_SetGrant u64 nat u64 | D_Deadline u64 nat | D_SetOwner u64 nat

text \<open>\<open>recycle_complete\<close>: the round of the owner ends when every worker has completed it.\<close>

definition recycle_step :: "cpc \<Rightarrow> shared_state \<Rightarrow> cpc \<times> shared_state" where
  "recycle_step c sh =
     (case c of
        R_State now i \<Rightarrow> (R_Complete now i (g_state (groups sh i)), sh)
      | R_Complete now i s \<Rightarrow> (R_Deadline now i s (complete_mask (groups sh i)), sh)
      | R_Deadline now i s complete \<Rightarrow>
          if deadline_ns sh \<noteq> 0 \<and> deadline_ns sh < now then (C_Status2 now, fail_pair FAIL_FORWARD_TIMEOUT sh)
          else if s \<noteq> ROUND_COMPLETE \<or> complete \<noteq> expected_mask (groups sh i)
          then (C_Status2 now,
                if (s = ROUND_RUNNING \<or> s = ROUND_COMPLETE) \<and> \<not> group_workers_alive sh i (expected_mask (groups sh i)) now
                then fail_pair FAIL_WORKER_DEAD sh else sh)
          else (R_Exit now i, sh)
      | R_Exit now i \<Rightarrow> (R_Drain now i, set_group i (\<lambda>g. g\<lparr>exit_mask := 0\<rparr>) sh)
      | R_Drain now i \<Rightarrow> (R_LastOwner now i, set_group i (\<lambda>g. g\<lparr>g_state := ROUND_DRAINING\<rparr>) sh)
      | R_LastOwner now i \<Rightarrow> (R_ClearDeadline now i, sh\<lparr>sh_last_owner := int i\<rparr>)
      | R_ClearDeadline now i \<Rightarrow> (R_Release now i, sh\<lparr>deadline_ns := 0\<rparr>)
      | R_Release now i \<Rightarrow> (C_Status2 now, sh\<lparr>sh_owner := PS_NO_OWNER\<rparr>)
      | _ \<Rightarrow> (c, sh))"

text \<open>\<open>dispatch_next\<close>: the scan of both groups, the choice, and the grant.\<close>

definition dispatch_step :: "cpc \<Rightarrow> shared_state \<Rightarrow> cpc \<times> shared_state" where
  "dispatch_step c sh =
     (case c of
        D_Owner now \<Rightarrow> (if sh_owner sh \<noteq> PS_NO_OWNER then C_Wait else D_State now 0 [], sh)
      | D_State now k acc \<Rightarrow> (D_Ready now k acc (g_state (groups sh k)), sh)
      | D_Ready now k acc s \<Rightarrow> (D_Online now k acc s (ready_mask (groups sh k)), sh)
      | D_Online now k acc s ready \<Rightarrow> (D_Publish now k acc s ready (online_mask (groups sh k)), sh)
      | D_Publish now k acc s ready online \<Rightarrow> (D_Alive now k acc s ready online (publish_ns (groups sh k)), sh)
      | D_Alive now k acc s ready online publish \<Rightarrow>
          let expected = expected_mask (groups sh k) in
          if barrier_late s publish now (sh_peer_timeout_ms sh) \<and>
             (ready \<noteq> expected \<or> online \<noteq> expected \<or> \<not> group_workers_alive sh k ready now)
          then (C_Wait, fail_pair FAIL_BARRIER_TIMEOUT sh)
          else let acc1 = acc @ [(s = ROUND_READY \<and> ready = expected \<and> online = expected \<and> group_workers_alive sh k expected now, publish)]
               in (if k = 0 then D_State now 1 acc1 else D_Select now acc1, sh)
      | D_Select now acc \<Rightarrow>
          (case acc of
             [(ready0, published0), (ready1, published1)] \<Rightarrow>
               (case select_instance ready0 ready1 published0 published1 (sh_last_owner sh) of
                  None \<Rightarrow> (C_Wait, sh)
                | Some i \<Rightarrow> (D_Cas now (nat i), sh))
           | _ \<Rightarrow> (C_Wait, sh))
      | D_Cas now k \<Rightarrow>
          if g_state (groups sh k) = ROUND_READY then (D_Grant now k, set_group k (\<lambda>g. g\<lparr>g_state := ROUND_RUNNING\<rparr>) sh)
          else (C_Wait, sh)
      | D_Grant now k \<Rightarrow> (D_SetGrant now k (next_grant_id sh + 1), sh\<lparr>next_grant_id := next_grant_id sh + 1\<rparr>)
      | D_SetGrant now k grant \<Rightarrow> (D_Deadline now k, set_group k (\<lambda>g. g\<lparr>grant_id := grant\<rparr>) sh)
      | D_Deadline now k \<Rightarrow> (D_SetOwner now k, sh\<lparr>deadline_ns := now + ucast (sh_forward_timeout_ms sh) * 1000000\<rparr>)
      | D_SetOwner now k \<Rightarrow> (C_Wait, sh\<lparr>sh_owner := int k\<rparr>)
      | _ \<Rightarrow> (c, sh))"

definition coord_step :: "u64 \<Rightarrow> cpc \<Rightarrow> shared_state \<Rightarrow> cpc \<times> shared_state" where
  "coord_step now c sh =
     (case c of
        C_Wait \<Rightarrow> (C_Status, sh)
      | C_Status \<Rightarrow> (if is_running sh then C_Validate else C_Wait, sh)
      | C_Validate \<Rightarrow> (case validate_shared sh of (ok, sh1) \<Rightarrow> (if ok then C_Heart else C_Wait, sh1))
      | C_Heart \<Rightarrow> (C_Owner now, sh\<lparr>primary_heartbeat_ns := now\<rparr>)
      | C_Owner t \<Rightarrow> (if sh_owner sh \<noteq> PS_NO_OWNER then R_State t (nat (sh_owner sh)) else C_Status2 t, sh)
      | C_Status2 t \<Rightarrow> (if is_running sh then C_Owner2 t else C_Wait, sh)
      | C_Owner2 t \<Rightarrow> (if sh_owner sh = PS_NO_OWNER then D_Owner t else C_Wait, sh)
      | _ \<Rightarrow> (c, sh))"

section \<open>The system\<close>

record pair_sys =
  mem :: shared_state
  ctxs :: "nat \<Rightarrow> nat \<Rightarrow> worker_ctx"
  coord :: cpc
  clock :: u64

abbreviation set_ctx :: "nat \<Rightarrow> nat \<Rightarrow> worker_ctx \<Rightarrow> pair_sys \<Rightarrow> pair_sys" where
  "set_ctx i r w s \<equiv> s\<lparr>ctxs := (ctxs s)(i := (ctxs s i)(r := w))\<rparr>"

abbreviation rank_count :: "shared_state \<Rightarrow> nat" where
  "rank_count sh \<equiv> unat (sh_worker_count sh)"

definition opened_ctx :: "int \<Rightarrow> u64 \<Rightarrow> u64 \<Rightarrow> worker_ctx" where
  "opened_ctx pid session seq =
     \<lparr>w_pc = Outside, w_pid = pid, w_session = session, next_seq = seq, active_seq = 0, active_grant_id = 0,
      stopping = False, arg_seq = 0, arg_grant = 0\<rparr>"

inductive pair_step :: "pair_sys \<Rightarrow> pair_sys \<Rightarrow> bool" where
  open_call: "i < 2 \<Longrightarrow> r < rank_count (mem s) \<Longrightarrow> w_pc (ctxs s i r) = Unopened \<Longrightarrow>
    register_worker i r pid session (sh_peer_timeout_ms (mem s)) (clock s) (mem s) = Some sh \<Longrightarrow>
    pair_step s (set_ctx i r (opened_ctx pid session (forward_seq (groups sh i))) (s\<lparr>mem := sh\<rparr>))"
| enter_call: "i < 2 \<Longrightarrow> r < rank_count (mem s) \<Longrightarrow> w_pc (ctxs s i r) = Outside \<Longrightarrow>
    pair_step s (set_ctx i r ((ctxs s i r)\<lparr>w_pc := E_Begin\<rparr>) s)"
| join: "i < 2 \<Longrightarrow> r < rank_count (mem s) \<Longrightarrow> join_step i r (clock s) (ctxs s i r) (mem s) = (w, sh) \<Longrightarrow>
    pair_step s (set_ctx i r w (s\<lparr>mem := sh\<rparr>))"
| grant: "i < 2 \<Longrightarrow> r < rank_count (mem s) \<Longrightarrow> grant_step i r (clock s) (ctxs s i r) (mem s) = (w, sh) \<Longrightarrow>
    pair_step s (set_ctx i r w (s\<lparr>mem := sh\<rparr>))"
| leave_call: "i < 2 \<Longrightarrow> r < rank_count (mem s) \<Longrightarrow> w_pc (ctxs s i r) = InRound \<Longrightarrow>
    pair_step s (set_ctx i r ((ctxs s i r)\<lparr>w_pc := L_Begin, arg_seq := active_seq (ctxs s i r),
      arg_grant := active_grant_id (ctxs s i r)\<rparr>) s)"
| leave: "i < 2 \<Longrightarrow> r < rank_count (mem s) \<Longrightarrow> leave_step i r (clock s) (ctxs s i r) (mem s) = (w, sh) \<Longrightarrow>
    pair_step s (set_ctx i r w (s\<lparr>mem := sh\<rparr>))"
| drain: "i < 2 \<Longrightarrow> r < rank_count (mem s) \<Longrightarrow> drain_step i r (ctxs s i r) (mem s) = (w, sh) \<Longrightarrow>
    pair_step s (set_ctx i r w (s\<lparr>mem := sh\<rparr>))"
| heartbeat: "i < 2 \<Longrightarrow> r < rank_count (mem s) \<Longrightarrow> w_pc (ctxs s i r) \<noteq> Unopened \<Longrightarrow> w_pc (ctxs s i r) \<noteq> Dead \<Longrightarrow>
    pair_step s (s\<lparr>mem := set_slot i r (\<lambda>w. w\<lparr>slot_heartbeat := clock s\<rparr>) (mem s)\<rparr>)"
| fail_call: "pair_step s (s\<lparr>mem := fail_pair reason (mem s)\<rparr>)"
| stop: "i < 2 \<Longrightarrow> r < rank_count (mem s) \<Longrightarrow> w_pc (ctxs s i r) \<noteq> Unopened \<Longrightarrow>
    pair_step s (set_ctx i r ((ctxs s i r)\<lparr>stopping := True\<rparr>) s)"
| close: "i < 2 \<Longrightarrow> r < rank_count (mem s) \<Longrightarrow> stopping (ctxs s i r) \<Longrightarrow>
    w_pc (ctxs s i r) = Outside \<or> w_pc (ctxs s i r) = InRound \<Longrightarrow> creator = (i = 0 \<and> r = 0) \<Longrightarrow>
    creator \<longrightarrow> coord s = C_Wait \<or> coord s = C_Dead \<Longrightarrow>
    pair_step s (set_ctx i r ((ctxs s i r)\<lparr>w_pc := Dead\<rparr>)
      (s\<lparr>mem := close_worker i r (w_session (ctxs s i r)) (active_seq (ctxs s i r)) creator (mem s),
         coord := (if creator then C_Dead else coord s)\<rparr>))"
| crash: "i < 2 \<Longrightarrow> r < rank_count (mem s) \<Longrightarrow> pair_step s (set_ctx i r ((ctxs s i r)\<lparr>w_pc := Dead\<rparr>) s)"
| coordinator: "coord_step (clock s) (coord s) (mem s) = (c, sh) \<Longrightarrow> pair_step s (s\<lparr>mem := sh, coord := c\<rparr>)"
| recycle: "recycle_step (coord s) (mem s) = (c, sh) \<Longrightarrow> pair_step s (s\<lparr>mem := sh, coord := c\<rparr>)"
| dispatch: "dispatch_step (coord s) (mem s) = (c, sh) \<Longrightarrow> pair_step s (s\<lparr>mem := sh, coord := c\<rparr>)"
| coord_crash: "pair_step s (s\<lparr>coord := C_Dead\<rparr>)"
| tick: "clock s \<le> t \<Longrightarrow> pair_step s (s\<lparr>clock := t\<rparr>)"

definition pair_init :: "pair_sys \<Rightarrow> bool" where
  "pair_init s \<longleftrightarrow> (\<exists>layout epoch heartbeat_ms peer_ms forward_ms n. 1 \<le> n \<and> n \<le> 64 \<and>
     mem s = create_shared layout epoch (clock s) heartbeat_ms peer_ms forward_ms n) \<and>
     (\<forall>i r. w_pc (ctxs s i r) = Unopened) \<and> coord s = C_Wait"

definition pair_reachable :: "pair_sys \<Rightarrow> bool" where
  "pair_reachable s \<longleftrightarrow> (\<exists>s0. pair_init s0 \<and> pair_step\<^sup>*\<^sup>* s0 s)"

end
