(* ===== verification/Pair_Phases.thy ===== *)
theory Pair_Phases
  imports Pair_Steps
begin

text \<open>
  The phases a worker of the pair scheduler goes through, what each phase says of the state and the
  masks of its group, and the writes that keep the phases of the other workers.
\<close>

section \<open>Phases of a worker\<close>

datatype phase =
    PFresh | POut | PStart | PClean | PInit | PJoining | PReady | PJoined | PJoinedRun | PExec | PComplete
  | PDone | PDrain | PReset0 | PReset1 | PReset2 | PDead

fun phase_of :: "wpc \<Rightarrow> phase" where
  "phase_of Unopened = PFresh"
| "phase_of Outside = POut"
| "phase_of InRound = PExec"
| "phase_of Dead = PDead"
| "phase_of E_Begin = POut"
| "phase_of E_Status = PStart"
| "phase_of E_State = PClean"
| "phase_of E_CasInit = PClean"
| "phase_of E_InitSeq = PInit"
| "phase_of E_InitGrant = PInit"
| "phase_of E_InitReady = PInit"
| "phase_of E_InitComplete = PInit"
| "phase_of E_InitExit = PInit"
| "phase_of E_InitPublish = PInit"
| "phase_of E_InitState = PInit"
| "phase_of (E_Seq s) = (if s = ROUND_COLLECTING then PJoining else PClean)"
| "phase_of E_LastSeq = PJoining"
| "phase_of E_OrReady = PJoining"
| "phase_of E_CasReady = PReady"
| "phase_of W_Stop = PJoined"
| "phase_of W_Status = PJoined"
| "phase_of W_Primary = PJoined"
| "phase_of W_State = PJoined"
| "phase_of (W_Seq s) = (if s = ROUND_RUNNING then PJoinedRun else PJoined)"
| "phase_of (W_Grant s q) = (if s = ROUND_RUNNING then PJoinedRun else PJoined)"
| "phase_of (W_Owner s q k) = (if s = ROUND_RUNNING then PJoinedRun else PJoined)"
| "phase_of L_CasComplete = PComplete"
| "phase_of X_Stop = PDone"
| "phase_of X_Status = PDone"
| "phase_of X_State = PDone"
| "phase_of (X_Seq s) = (if s = ROUND_DRAINING then PDrain else PDone)"
| "phase_of X_OrExit = PDrain"
| "phase_of X_Ready = PReset0"
| "phase_of X_Complete = PReset1"
| "phase_of X_Grant = PReset2"
| "phase_of X_Publish = PReset2"
| "phase_of X_Idle = PReset2"
| "phase_of X_Done = PClean"
| "phase_of _ = PExec"

text \<open>A worker that has not joined: the round cannot get past it, or it has left a round that is draining.\<close>

definition fresh :: "instance_group \<Rightarrow> nat \<Rightarrow> bool" where
  "fresh g r \<longleftrightarrow> g_state g \<in> {ROUND_OFFLINE, ROUND_IDLE, ROUND_INITIALIZING, ROUND_COLLECTING} \<and> \<not> bit (ready_mask g) r"

definition clean :: "instance_group \<Rightarrow> nat \<Rightarrow> bool" where
  "clean g r \<longleftrightarrow> fresh g r \<or> g_state g = ROUND_DRAINING \<and> bit (exit_mask g) r"

abbreviation all_bits :: "nat \<Rightarrow> u64 \<Rightarrow> bool" where
  "all_bits n m \<equiv> \<forall>k < n. bit m k"

fun phase_ok :: "nat \<Rightarrow> bool \<Rightarrow> int \<Rightarrow> nat \<Rightarrow> instance_group \<Rightarrow> nat \<Rightarrow> bool \<Rightarrow> phase \<Rightarrow> bool" where
  "phase_ok n run own i g r stop PFresh = fresh g r"
| "phase_ok n run own i g r stop POut = (clean g r \<or> \<not> run \<or> stop)"
| "phase_ok n run own i g r stop PStart = (clean g r \<or> \<not> run)"
| "phase_ok n run own i g r stop PClean = clean g r"
| "phase_ok n run own i g r stop PInit = (g_state g = ROUND_INITIALIZING)"
| "phase_ok n run own i g r stop PJoining = (g_state g = ROUND_COLLECTING \<and> \<not> bit (ready_mask g) r)"
| "phase_ok n run own i g r stop PReady = (g_state g = ROUND_COLLECTING \<and> all_bits n (ready_mask g))"
| "phase_ok n run own i g r stop PJoined =
     (g_state g \<in> {ROUND_COLLECTING, ROUND_READY, ROUND_RUNNING} \<and> bit (ready_mask g) r \<and> \<not> bit (complete_mask g) r)"
| "phase_ok n run own i g r stop PJoinedRun = (g_state g = ROUND_RUNNING \<and> bit (ready_mask g) r \<and> \<not> bit (complete_mask g) r)"
| "phase_ok n run own i g r stop PExec =
     (g_state g = ROUND_RUNNING \<and> own = int i \<and> bit (ready_mask g) r \<and> \<not> bit (complete_mask g) r)"
| "phase_ok n run own i g r stop PComplete = (g_state g = ROUND_RUNNING \<and> all_bits n (complete_mask g))"
| "phase_ok n run own i g r stop PDone =
     (bit (complete_mask g) r \<and> g_state g \<in> {ROUND_RUNNING, ROUND_COMPLETE, ROUND_DRAINING} \<and>
      (g_state g = ROUND_DRAINING \<longrightarrow> \<not> bit (exit_mask g) r))"
| "phase_ok n run own i g r stop PDrain = (g_state g = ROUND_DRAINING \<and> \<not> bit (exit_mask g) r \<and> bit (complete_mask g) r)"
| "phase_ok n run own i g r stop PReset0 = (g_state g = ROUND_DRAINING \<and> all_bits n (exit_mask g))"
| "phase_ok n run own i g r stop PReset1 = (g_state g = ROUND_DRAINING \<and> all_bits n (exit_mask g) \<and> ready_mask g = 0)"
| "phase_ok n run own i g r stop PReset2 =
     (g_state g = ROUND_DRAINING \<and> all_bits n (exit_mask g) \<and> ready_mask g = 0 \<and> complete_mask g = 0)"
| "phase_ok n run own i g r stop PDead = True"

text \<open>Phases that only one worker of a group is in.\<close>

fun single :: "phase \<Rightarrow> nat" where
  "single PInit = 1" | "single PReady = 2" | "single PComplete = 3" | "single PReset0 = 4" | "single PReset1 = 4"
| "single PReset2 = 4" | "single _ = 0"

definition within :: "nat \<Rightarrow> u64 \<Rightarrow> bool" where
  "within n m \<longleftrightarrow> (\<forall>k. bit m k \<longrightarrow> k < n)"

lemma within_zero [simp]: "within n 0"
  by (simp add: within_def)

lemma within_or: "within n m \<Longrightarrow> r < n \<Longrightarrow> within n (m OR rank_bit r)"
  by (auto simp: within_def bit_or_iff)

definition masks_ok :: "nat \<Rightarrow> instance_group \<Rightarrow> bool" where
  "masks_ok n g \<longleftrightarrow> n \<le> 64 \<and> (\<forall>k. bit (expected_mask g) k \<longleftrightarrow> k < n) \<and> within n (ready_mask g) \<and>
     within n (complete_mask g) \<and> within n (exit_mask g) \<and>
     (g_state g \<in> {ROUND_OFFLINE, ROUND_IDLE, ROUND_INITIALIZING} \<longrightarrow> ready_mask g = 0) \<and>
     (g_state g \<in> {ROUND_OFFLINE, ROUND_IDLE, ROUND_INITIALIZING, ROUND_COLLECTING, ROUND_READY} \<longrightarrow> complete_mask g = 0) \<and>
     (g_state g \<in> {ROUND_READY, ROUND_RUNNING, ROUND_COMPLETE} \<longrightarrow> all_bits n (ready_mask g)) \<and>
     (g_state g = ROUND_COMPLETE \<longrightarrow> all_bits n (complete_mask g))"

definition group_ok :: "nat \<Rightarrow> bool \<Rightarrow> int \<Rightarrow> nat \<Rightarrow> instance_group \<Rightarrow> (nat \<Rightarrow> worker_ctx) \<Rightarrow> bool" where
  "group_ok n run own i g ws \<longleftrightarrow> masks_ok n g \<and>
     (\<forall>r < n. phase_ok n run own i g r (stopping (ws r)) (phase_of (w_pc (ws r)))) \<and>
     (\<forall>r < n. \<forall>k < n. single (phase_of (w_pc (ws r))) = single (phase_of (w_pc (ws k))) \<longrightarrow>
        single (phase_of (w_pc (ws r))) \<noteq> 0 \<longrightarrow> r = k)"

lemma mask_full: "masks_ok n g \<Longrightarrow> (\<forall>k. bit m k \<longrightarrow> k < n) \<Longrightarrow> m = expected_mask g \<longleftrightarrow> all_bits n m"
proof -
  assume a: "masks_ok n g" "\<forall>k. bit m k \<longrightarrow> k < n"
  have e: "bit (expected_mask g) k \<longleftrightarrow> k < n" for k using a(1) unfolding masks_ok_def by blast
  have "m = expected_mask g" if "all_bits n m"
    by (rule bit_word_eqI) (use that a(2) e in blast)
  then show ?thesis using e by blast
qed

text \<open>One worker steps: its own new phase holds, and it keeps what the others rely on.\<close>

lemma group_ok_step:
  assumes "group_ok n run own i g ws" "r < n" "masks_ok n g'"
    and "phase_ok n run' own i g' r (stopping w) (phase_of (w_pc w))"
    and "\<And>k p stop. k < n \<Longrightarrow> k \<noteq> r \<Longrightarrow> phase_ok n run own i g k stop p \<Longrightarrow>
      (single p \<noteq> 0 \<longrightarrow> single p \<noteq> single (phase_of (w_pc (ws r)))) \<Longrightarrow> phase_ok n run' own i g' k stop p"
    and "single (phase_of (w_pc w)) \<noteq> 0 \<Longrightarrow> single (phase_of (w_pc w)) \<noteq> single (phase_of (w_pc (ws r))) \<Longrightarrow>
      \<forall>k < n. k \<noteq> r \<longrightarrow> single (phase_of (w_pc (ws k))) \<noteq> single (phase_of (w_pc w))"
  shows "group_ok n run' own i g' (ws(r := w))"
proof -
  define old where "old k = phase_of (w_pc (ws k))" for k
  define new where "new k = phase_of (w_pc ((ws(r := w)) k))" for k
  have new: "new r = phase_of (w_pc w)" "k \<noteq> r \<Longrightarrow> new k = old k" for k by (simp_all add: new_def old_def)
  have ok: "phase_ok n run own i g k (stopping (ws k)) (old k)" if "k < n" for k
    using assms(1) that by (simp add: group_ok_def old_def)
  have one: "k = l" if "k < n" "l < n" "single (old k) = single (old l)" "single (old k) \<noteq> 0" for k l
    using assms(1) that unfolding group_ok_def old_def by blast
  have "phase_ok n run' own i g' k (stopping ((ws(r := w)) k)) (new k)" if "k < n" for k
  proof (cases "k = r")
    case False
    have "single (old k) \<noteq> 0 \<longrightarrow> single (old k) \<noteq> single (old r)" using one[OF that assms(2)] False by blast
    then show ?thesis using assms(5)[OF that False ok[OF that]] False by (simp add: new(2) old_def)
  qed (use assms(4) in \<open>simp add: new(1)\<close>)
  moreover have own: "single (new k) \<noteq> single (new r)" if "k < n" "k \<noteq> r" "single (new r) \<noteq> 0" for k
    using one[of k r] assms(2,6) that unfolding new(1) new(2)[OF that(2)] old_def by (metis (no_types))
  then have "k = l" if "k < n" "l < n" "single (new k) = single (new l)" "single (new k) \<noteq> 0" for k l
    using one[of k l] own[of k] own[of l] that by (cases "k = r"; cases "l = r") (simp_all add: new(2))
  ultimately show ?thesis using assms(3) unfolding group_ok_def new_def by blast
qed

text \<open>The writes of one worker, in phase class \<open>c\<close>, that leave the phases of the other workers in place.\<close>

definition keeps :: "nat \<Rightarrow> nat \<Rightarrow> nat \<Rightarrow> instance_group \<Rightarrow> instance_group \<Rightarrow> bool" where
  "keeps n r c g g' \<longleftrightarrow> (\<forall>run own i k p stop. k < n \<longrightarrow> k \<noteq> r \<longrightarrow> phase_ok n run own i g k stop p \<longrightarrow>
     (single p \<noteq> 0 \<longrightarrow> single p \<noteq> c) \<longrightarrow> phase_ok n run own i g' k stop p)"

lemma keepsI:
  "(\<And>run own i k p stop. k < n \<Longrightarrow> k \<noteq> r \<Longrightarrow> phase_ok n run own i g k stop p \<Longrightarrow> single p \<noteq> 0 \<longrightarrow> single p \<noteq> c \<Longrightarrow>
     phase_ok n run own i g' k stop p) \<Longrightarrow> keeps n r c g g'"
  unfolding keeps_def by blast

lemma phase_ok_view:
  assumes "phase_ok n run own i g k stop p" "run' \<longrightarrow> run" "g_state g' = g_state g" "ready_mask g' = ready_mask g"
    "complete_mask g' = complete_mask g" "exit_mask g' = exit_mask g"
  shows "phase_ok n run' own i g' k stop p"
  using assms by (cases p) (auto simp: fresh_def clean_def)

lemma keeps_view:
  "g_state g' = g_state g \<Longrightarrow> ready_mask g' = ready_mask g \<Longrightarrow> complete_mask g' = complete_mask g \<Longrightarrow>
   exit_mask g' = exit_mask g \<Longrightarrow> keeps n r c g g'"
  by (rule keepsI) (erule phase_ok_view; simp)

lemma keeps_claim: "g_state g = ROUND_IDLE \<Longrightarrow> keeps n r c g (g\<lparr>g_state := ROUND_INITIALIZING\<rparr>)"
  by (rule keepsI; case_tac p) (auto simp: fresh_def clean_def)

lemma keeps_init_mask:
  assumes "g_state g = ROUND_INITIALIZING" "masks_ok n g"
  shows "keeps n r 1 g (g\<lparr>ready_mask := 0\<rparr>)" "keeps n r 1 g (g\<lparr>complete_mask := 0\<rparr>)" "keeps n r 1 g (g\<lparr>exit_mask := 0\<rparr>)"
  using assms by - (rule keepsI; case_tac p; auto simp: fresh_def clean_def)+

lemma keeps_collect: "g_state g = ROUND_INITIALIZING \<Longrightarrow> keeps n r 1 g (g\<lparr>g_state := ROUND_COLLECTING\<rparr>)"
  by (rule keepsI; case_tac p) (auto simp: fresh_def clean_def)

lemma keeps_join:
  assumes "g_state g = ROUND_COLLECTING" "\<not> bit (ready_mask g) r" "r < n" "n \<le> 64"
  shows "keeps n r c g (g\<lparr>ready_mask := ready_mask g OR rank_bit r\<rparr>)"
  using assms by - (rule keepsI; case_tac p; auto simp: fresh_def clean_def bit_or_iff)

lemma keeps_ready:
  assumes "g_state g = ROUND_COLLECTING" "all_bits n (ready_mask g)"
  shows "keeps n r 2 g (g\<lparr>g_state := ROUND_READY\<rparr>)"
  using assms by - (rule keepsI; case_tac p; auto simp: fresh_def clean_def)

lemma keeps_complete_bit:
  assumes "g_state g = ROUND_RUNNING" "\<not> bit (complete_mask g) r" "r < n" "n \<le> 64"
  shows "keeps n r c g (g\<lparr>complete_mask := complete_mask g OR rank_bit r\<rparr>)"
  using assms by - (rule keepsI; case_tac p; auto simp: fresh_def clean_def bit_or_iff)

lemma keeps_complete:
  assumes "g_state g = ROUND_RUNNING" "all_bits n (complete_mask g)"
  shows "keeps n r 3 g (g\<lparr>g_state := ROUND_COMPLETE\<rparr>)"
  using assms by - (rule keepsI; case_tac p; auto simp: fresh_def clean_def)

lemma keeps_exit:
  assumes "g_state g = ROUND_DRAINING" "\<not> bit (exit_mask g) r" "r < n" "n \<le> 64"
  shows "keeps n r c g (g\<lparr>exit_mask := exit_mask g OR rank_bit r\<rparr>)"
  using assms by - (rule keepsI; case_tac p; auto simp: fresh_def clean_def bit_or_iff)

lemma keeps_reset:
  assumes "g_state g = ROUND_DRAINING" "all_bits n (exit_mask g)"
  shows "keeps n r 4 g (g\<lparr>ready_mask := 0\<rparr>)" "keeps n r 4 g (g\<lparr>complete_mask := 0\<rparr>)"
    "ready_mask g = 0 \<Longrightarrow> keeps n r 4 g (g\<lparr>g_state := ROUND_IDLE\<rparr>)"
  using assms by - (rule keepsI; case_tac p; auto simp: fresh_def clean_def)+

section \<open>Steps of a worker\<close>

definition status_ok :: "shared_state \<Rightarrow> bool" where
  "status_ok sh \<longleftrightarrow> (is_running sh \<longrightarrow> sh_status sh = running_status)"

lemma fail_pair_frame [simp]:
  "groups (fail_pair reason sh) = groups sh" "sh_owner (fail_pair reason sh) = sh_owner sh"
  "sh_worker_count (fail_pair reason sh) = sh_worker_count sh" "deadline_ns (fail_pair reason sh) = deadline_ns sh"
  by (simp_all add: fail_pair_def Let_def)

lemma fail_pair_stops: "status_ok sh \<Longrightarrow> \<not> is_running (fail_pair reason sh)"
  by (auto simp: fail_pair_def Let_def status_ok_def is_running_def status_state_make)

lemma fail_pair_running: "is_running (fail_pair reason sh) \<Longrightarrow> is_running sh"
  by (auto simp: fail_pair_def Let_def is_running_def status_state_make split: if_splits)

lemma fail_pair_status_ok: "status_ok sh \<Longrightarrow> status_ok (fail_pair reason sh)"
  by (simp add: fail_pair_stops status_ok_def[of "fail_pair reason sh"])

definition moves :: "nat \<Rightarrow> nat \<Rightarrow> nat \<Rightarrow> worker_ctx \<Rightarrow> shared_state \<Rightarrow> worker_ctx \<Rightarrow> shared_state \<Rightarrow> bool" where
  "moves n i r w sh w' sh' \<longleftrightarrow> masks_ok n (groups sh' i) \<and> keeps n r (single (phase_of (w_pc w))) (groups sh i) (groups sh' i) \<and>
     phase_ok n (is_running sh') (sh_owner sh) i (groups sh' i) r (stopping w') (phase_of (w_pc w')) \<and>
     (single (phase_of (w_pc w')) \<in> {0, single (phase_of (w_pc w))} \<or>
       (\<forall>k run own p stop. k < n \<longrightarrow> k \<noteq> r \<longrightarrow> single p = single (phase_of (w_pc w')) \<longrightarrow>
          \<not> phase_ok n run own i (groups sh i) k stop p)) \<and>
     (\<forall>j. j \<noteq> i \<longrightarrow> groups sh' j = groups sh j) \<and> sh_owner sh' = sh_owner sh \<and> sh_worker_count sh' = sh_worker_count sh \<and>
     (is_running sh' \<longrightarrow> is_running sh) \<and> status_ok sh'"

lemma moves_group_ok:
  assumes "group_ok n (is_running sh) (sh_owner sh) i (groups sh i) ws" "r < n" "moves n i r (ws r) sh w sh'"
  shows "group_ok n (is_running sh') (sh_owner sh') i (groups sh' i) (ws(r := w))"
proof -
  let ?g = "groups sh i" and ?g' = "groups sh' i" and ?c = "single (phase_of (w_pc w))"
  have m: "masks_ok n ?g'" "keeps n r (single (phase_of (w_pc (ws r)))) ?g ?g'" "is_running sh' \<longrightarrow> is_running sh" "sh_owner sh' = sh_owner sh"
      "phase_ok n (is_running sh') (sh_owner sh) i ?g' r (stopping w) (phase_of (w_pc w))"
      "?c \<in> {0, single (phase_of (w_pc (ws r)))} \<or> (\<forall>k run own p stop. k < n \<longrightarrow> k \<noteq> r \<longrightarrow> single p = ?c \<longrightarrow> \<not> phase_ok n run own i ?g k stop p)"
    using assms(3) unfolding moves_def by blast+
  show ?thesis unfolding m(4)
  proof (rule group_ok_step[OF assms(1,2) m(1) m(5)])
    fix k p stop assume a: "k < n" "k \<noteq> r" "phase_ok n (is_running sh) (sh_owner sh) i ?g k stop p"
      "single p \<noteq> 0 \<longrightarrow> single p \<noteq> single (phase_of (w_pc (ws r)))"
    have "phase_ok n (is_running sh) (sh_owner sh) i ?g' k stop p" using m(2) a unfolding keeps_def by blast
    then show "phase_ok n (is_running sh') (sh_owner sh) i ?g' k stop p" using m(3) by (rule phase_ok_view) simp_all
  next
    assume c: "?c \<noteq> 0" "?c \<noteq> single (phase_of (w_pc (ws r)))"
    have ok: "phase_ok n (is_running sh) (sh_owner sh) i ?g k (stopping (ws k)) (phase_of (w_pc (ws k)))" if "k < n" for k
      using assms(1) that unfolding group_ok_def by blast
    show "\<forall>k<n. k \<noteq> r \<longrightarrow> single (phase_of (w_pc (ws k))) \<noteq> ?c" using m(6) c ok by blast
  qed
qed

lemma status_frame [simp]: "is_running (sh\<lparr>groups := x\<rparr>) = is_running sh" "status_ok (sh\<lparr>groups := x\<rparr>) = status_ok sh"
  by (simp_all add: is_running_def status_ok_def)

lemma masks_ok_or:
  assumes "masks_ok n g" "r < n"
  shows "g_state g = ROUND_COLLECTING \<Longrightarrow> masks_ok n (g\<lparr>ready_mask := ready_mask g OR rank_bit r\<rparr>)"
    "g_state g = ROUND_RUNNING \<Longrightarrow> masks_ok n (g\<lparr>complete_mask := complete_mask g OR rank_bit r\<rparr>)"
    "masks_ok n (g\<lparr>exit_mask := exit_mask g OR rank_bit r\<rparr>)"
  using assms by (simp_all add: masks_ok_def within_or)

lemma masks_ok_view:
  "masks_ok n g \<Longrightarrow> g_state g' = g_state g \<Longrightarrow> ready_mask g' = ready_mask g \<Longrightarrow> complete_mask g' = complete_mask g \<Longrightarrow>
   exit_mask g' = exit_mask g \<Longrightarrow> expected_mask g' = expected_mask g \<Longrightarrow> masks_ok n g'"
  by (simp add: masks_ok_def)

lemma or_full:
  assumes "masks_ok n g" "r < n" "\<forall>k. bit m k \<longrightarrow> k < n"
  shows "m OR rank_bit r = expected_mask g \<longleftrightarrow> all_bits n (m OR rank_bit r)"
  using assms by (intro mask_full) (auto simp: bit_or_iff)

lemma masks_okD:
  assumes "masks_ok n g"
  shows "bit (ready_mask g) k \<Longrightarrow> k < n" "bit (complete_mask g) k \<Longrightarrow> k < n" "bit (exit_mask g) k \<Longrightarrow> k < n" "n \<le> 64"
    "g_state g \<in> {ROUND_OFFLINE, ROUND_IDLE, ROUND_INITIALIZING} \<Longrightarrow> ready_mask g = 0"
    "g_state g \<in> {ROUND_OFFLINE, ROUND_IDLE, ROUND_INITIALIZING, ROUND_COLLECTING, ROUND_READY} \<Longrightarrow> complete_mask g = 0"
  using assms unfolding masks_ok_def within_def by blast+

text \<open>A step that touches neither the state nor the masks of the group.\<close>

lemma moves_quiet:
  assumes "masks_ok n (groups sh i)" "g_state (groups sh' i) = g_state (groups sh i)" "ready_mask (groups sh' i) = ready_mask (groups sh i)"
    "complete_mask (groups sh' i) = complete_mask (groups sh i)" "exit_mask (groups sh' i) = exit_mask (groups sh i)"
    "expected_mask (groups sh' i) = expected_mask (groups sh i)"
    "phase_ok n (is_running sh') (sh_owner sh) i (groups sh i) r (stopping w') (phase_of (w_pc w'))"
    "single (phase_of (w_pc w')) \<in> {0, single (phase_of (w_pc w))}"
    "\<forall>j. j \<noteq> i \<longrightarrow> groups sh' j = groups sh j" "sh_owner sh' = sh_owner sh" "sh_worker_count sh' = sh_worker_count sh"
    "is_running sh' \<longrightarrow> is_running sh" "status_ok sh'"
  shows "moves n i r w sh w' sh'"
  unfolding moves_def
  using masks_ok_view[OF assms(1-6)] keeps_view[OF assms(2-5)] phase_ok_view[OF assms(7) _ assms(2-5)] assms(8-13) by blast

end
