(* ===== verification/Pair_Safety.thy ===== *)
theory Pair_Safety
  imports Pair_Phases
begin

text \<open>
  Every step of a worker of the pair scheduler keeps the phases of all workers, and what the coordinator relies on.
\<close>

section \<open>Every step of a worker keeps the phases\<close>

abbreviation at_phase :: "nat \<Rightarrow> nat \<Rightarrow> nat \<Rightarrow> worker_ctx \<Rightarrow> shared_state \<Rightarrow> bool" where
  "at_phase n i r w sh \<equiv> masks_ok n (groups sh i) \<and> r < n \<and> status_ok sh \<and>
     phase_ok n (is_running sh) (sh_owner sh) i (groups sh i) r (stopping w) (phase_of (w_pc w))"

lemma moves_refl: "at_phase n i r w sh \<Longrightarrow> moves n i r w sh w sh"
  by (rule moves_quiet) auto

lemma moves_goto:
  "at_phase n i r w sh \<Longrightarrow> phase_ok n (is_running sh) (sh_owner sh) i (groups sh i) r (stopping w') (phase_of (w_pc w')) \<Longrightarrow>
   single (phase_of (w_pc w')) = 0 \<or> single (phase_of (w_pc w')) = single (phase_of (w_pc w)) \<Longrightarrow> moves n i r w sh w' sh"
  by (rule moves_quiet) auto

lemma moves_give_up:
  "at_phase n i r w sh \<Longrightarrow> w_pc w' = Outside \<Longrightarrow> moves n i r w sh w' (fail_pair reason sh)"
  by (rule moves_quiet) (auto simp: fail_pair_stops fail_pair_status_ok)

lemma grant_moves:
  assumes a: "at_phase n i r w sh" and "grant_step i r now w sh = (w', sh')"
  shows "moves n i r w sh w' sh'"
  using assms
  by (cases "w_pc w") (auto simp: grant_step_def Let_def intro!: moves_give_up moves_goto moves_refl split: if_splits)

lemma moves_write:
  assumes "at_phase n i r w sh" "masks_ok n g'" "keeps n r (single (phase_of (w_pc w))) (groups sh i) g'"
    "phase_ok n (is_running sh) (sh_owner sh) i g' r (stopping w') (phase_of (w_pc w'))"
    "single (phase_of (w_pc w')) \<in> {0, single (phase_of (w_pc w))} \<or>
      (\<forall>k run own p stop. k < n \<longrightarrow> k \<noteq> r \<longrightarrow> single p = single (phase_of (w_pc w')) \<longrightarrow>
          \<not> phase_ok n run own i (groups sh i) k stop p)"
  shows "moves n i r w sh w' (sh\<lparr>groups := (groups sh)(i := g')\<rparr>)"
  using assms unfolding moves_def by auto

lemma single_entry:
  "g_state g = ROUND_IDLE \<Longrightarrow> single p = 1 \<Longrightarrow> \<not> phase_ok n run own i g k stop p"
  "\<not> bit (ready_mask g) r \<Longrightarrow> r < n \<Longrightarrow> single p = 2 \<Longrightarrow> \<not> phase_ok n run own i g k stop p"
  "\<not> bit (complete_mask g) r \<Longrightarrow> r < n \<Longrightarrow> single p = 3 \<Longrightarrow> \<not> phase_ok n run own i g k stop p"
  "\<not> bit (exit_mask g) r \<Longrightarrow> r < n \<Longrightarrow> single p = 4 \<Longrightarrow> \<not> phase_ok n run own i g k stop p"
  by (cases p; auto)+

lemma masks_ok_round:
  assumes "masks_ok n g"
  shows "g_state g = ROUND_IDLE \<Longrightarrow> masks_ok n (g\<lparr>g_state := ROUND_INITIALIZING\<rparr>)"
    "g_state g = ROUND_INITIALIZING \<Longrightarrow> masks_ok n (g\<lparr>g_state := ROUND_COLLECTING\<rparr>)"
    "g_state g = ROUND_COLLECTING \<Longrightarrow> all_bits n (ready_mask g) \<Longrightarrow> masks_ok n (g\<lparr>g_state := ROUND_READY\<rparr>)"
    "g_state g = ROUND_READY \<Longrightarrow> masks_ok n (g\<lparr>g_state := ROUND_RUNNING\<rparr>)"
    "g_state g = ROUND_RUNNING \<Longrightarrow> all_bits n (complete_mask g) \<Longrightarrow> masks_ok n (g\<lparr>g_state := ROUND_COMPLETE\<rparr>)"
    "masks_ok n (g\<lparr>g_state := ROUND_DRAINING\<rparr>)"
    "ready_mask g = 0 \<Longrightarrow> complete_mask g = 0 \<Longrightarrow> masks_ok n (g\<lparr>g_state := ROUND_IDLE\<rparr>)"
    "g_state g \<notin> {ROUND_READY, ROUND_RUNNING, ROUND_COMPLETE} \<Longrightarrow> masks_ok n (g\<lparr>ready_mask := 0\<rparr>)" "g_state g \<noteq> ROUND_COMPLETE \<Longrightarrow> masks_ok n (g\<lparr>complete_mask := 0\<rparr>)" "masks_ok n (g\<lparr>exit_mask := 0\<rparr>)"
  using assms by (simp_all add: masks_ok_def)

lemma claim_moves:
  "at_phase n i r w sh \<Longrightarrow> w_pc w = E_CasInit \<Longrightarrow> g_state (groups sh i) = ROUND_IDLE \<Longrightarrow>
   moves n i r w sh (w\<lparr>w_pc := E_InitSeq\<rparr>) (set_group i (\<lambda>g. g\<lparr>g_state := ROUND_INITIALIZING\<rparr>) sh)"
  by (rule moves_write) (simp_all add: keeps_claim masks_ok_round single_entry)

lemma init_moves:
  assumes a: "at_phase n i r w sh" and p: "phase_of (w_pc w) = PInit" "phase_of c = PInit"
  shows "moves n i r w sh (w\<lparr>w_pc := c\<rparr>) (set_group i (\<lambda>g. g\<lparr>ready_mask := 0\<rparr>) sh)"
    "moves n i r w sh (w\<lparr>w_pc := c\<rparr>) (set_group i (\<lambda>g. g\<lparr>complete_mask := 0\<rparr>) sh)"
    "moves n i r w sh (w\<lparr>w_pc := c\<rparr>) (set_group i (\<lambda>g. g\<lparr>exit_mask := 0\<rparr>) sh)"
    "moves n i r w sh (w\<lparr>w_pc := E_LastSeq\<rparr>) (set_group i (\<lambda>g. g\<lparr>g_state := ROUND_COLLECTING\<rparr>) sh)"
  using assms masks_okD(5)[of n "groups sh i"]
  by - (rule moves_write[OF a]; simp add: keeps_init_mask[simplified] keeps_collect[simplified] masks_ok_round)+

lemma moves_quiet_write:
  "at_phase n i r w sh \<Longrightarrow> phase_of c = phase_of (w_pc w) \<Longrightarrow> g_state g' = g_state (groups sh i) \<Longrightarrow>
   ready_mask g' = ready_mask (groups sh i) \<Longrightarrow> complete_mask g' = complete_mask (groups sh i) \<Longrightarrow>
   exit_mask g' = exit_mask (groups sh i) \<Longrightarrow> expected_mask g' = expected_mask (groups sh i) \<Longrightarrow>
   moves n i r w sh (w\<lparr>w_pc := c\<rparr>) (sh\<lparr>groups := (groups sh)(i := g')\<rparr>)"
  by (rule moves_quiet) auto

lemma ready_bit_moves:
  assumes a: "at_phase n i r w sh" and p: "phase_of (w_pc w) = PJoining"
  shows "ready_mask (groups sh i) AND rank_bit r = 0"
    "ready_mask (groups sh i) OR rank_bit r = expected_mask (groups sh i) \<Longrightarrow>
     moves n i r w sh (w\<lparr>w_pc := E_CasReady\<rparr>) (set_group i (\<lambda>g. g\<lparr>ready_mask := ready_mask g OR rank_bit r\<rparr>) sh)"
    "moves n i r w sh (w\<lparr>w_pc := W_Stop\<rparr>) (set_group i (\<lambda>g. g\<lparr>ready_mask := ready_mask g OR rank_bit r\<rparr>) sh)"
proof -
  let ?g = "groups sh i"
  have g: "masks_ok n ?g" "r < n" "g_state ?g = ROUND_COLLECTING" "\<not> bit (ready_mask ?g) r" using a p by auto
  note n = masks_okD(4)[OF g(1)]
  show "ready_mask ?g AND rank_bit r = 0" using g by (simp add: and_rank_bit)
  show "moves n i r w sh (w\<lparr>w_pc := E_CasReady\<rparr>) (set_group i (\<lambda>g. g\<lparr>ready_mask := ready_mask g OR rank_bit r\<rparr>) sh)"
    if "ready_mask ?g OR rank_bit r = expected_mask ?g"
  proof (rule moves_write[OF a])
    have "all_bits n (ready_mask ?g OR rank_bit r)" using that or_full[OF g(1,2)] masks_okD(1)[OF g(1)] by blast
    then show "phase_ok n (is_running sh) (sh_owner sh) i (?g\<lparr>ready_mask := ready_mask ?g OR rank_bit r\<rparr>) r
        (stopping (w\<lparr>w_pc := E_CasReady\<rparr>)) (phase_of (w_pc (w\<lparr>w_pc := E_CasReady\<rparr>)))" using g by simp
  qed (use g n p in \<open>auto simp: keeps_join masks_ok_or single_entry(2)[where r=r]\<close>)
  show "moves n i r w sh (w\<lparr>w_pc := W_Stop\<rparr>) (set_group i (\<lambda>g. g\<lparr>ready_mask := ready_mask g OR rank_bit r\<rparr>) sh)"
    by (rule moves_write[OF a]) (use g n p masks_okD(6)[OF g(1)] in \<open>auto simp: keeps_join masks_ok_or bit_or_iff\<close>)
qed

lemma complete_bit_moves:
  assumes a: "at_phase n i r w sh" and p: "phase_of (w_pc w) = PExec"
  shows "complete_mask (groups sh i) AND rank_bit r = 0"
    "complete_mask (groups sh i) OR rank_bit r = expected_mask (groups sh i) \<Longrightarrow>
     moves n i r w sh (w\<lparr>w_pc := L_CasComplete\<rparr>) (set_group i (\<lambda>g. g\<lparr>complete_mask := complete_mask g OR rank_bit r\<rparr>) sh)"
    "moves n i r w sh (w\<lparr>w_pc := X_Stop\<rparr>) (set_group i (\<lambda>g. g\<lparr>complete_mask := complete_mask g OR rank_bit r\<rparr>) sh)"
proof -
  let ?g = "groups sh i"
  have g: "masks_ok n ?g" "r < n" "g_state ?g = ROUND_RUNNING" "\<not> bit (complete_mask ?g) r" using a p by auto
  note n = masks_okD(4)[OF g(1)]
  show "complete_mask ?g AND rank_bit r = 0" using g by (simp add: and_rank_bit)
  show "moves n i r w sh (w\<lparr>w_pc := L_CasComplete\<rparr>) (set_group i (\<lambda>g. g\<lparr>complete_mask := complete_mask g OR rank_bit r\<rparr>) sh)"
    if "complete_mask ?g OR rank_bit r = expected_mask ?g"
  proof (rule moves_write[OF a])
    have "all_bits n (complete_mask ?g OR rank_bit r)" using that or_full[OF g(1,2)] masks_okD(2)[OF g(1)] by blast
    then show "phase_ok n (is_running sh) (sh_owner sh) i (?g\<lparr>complete_mask := complete_mask ?g OR rank_bit r\<rparr>) r
        (stopping (w\<lparr>w_pc := L_CasComplete\<rparr>)) (phase_of (w_pc (w\<lparr>w_pc := L_CasComplete\<rparr>)))" using g by simp
  qed (use g n p in \<open>auto simp: keeps_complete_bit masks_ok_or single_entry(3)[where r=r]\<close>)
  show "moves n i r w sh (w\<lparr>w_pc := X_Stop\<rparr>) (set_group i (\<lambda>g. g\<lparr>complete_mask := complete_mask g OR rank_bit r\<rparr>) sh)"
    by (rule moves_write[OF a]) (use g n p in \<open>auto simp: keeps_complete_bit masks_ok_or bit_or_iff\<close>)
qed

lemma exit_bit_moves:
  assumes a: "at_phase n i r w sh" and p: "phase_of (w_pc w) = PDrain"
  shows "exit_mask (groups sh i) OR rank_bit r = expected_mask (groups sh i) \<Longrightarrow>
     moves n i r w sh (w\<lparr>w_pc := X_Ready\<rparr>) (set_group i (\<lambda>g. g\<lparr>exit_mask := exit_mask g OR rank_bit r\<rparr>) sh)"
    "moves n i r w sh (w\<lparr>w_pc := X_Done\<rparr>) (set_group i (\<lambda>g. g\<lparr>exit_mask := exit_mask g OR rank_bit r\<rparr>) sh)"
proof -
  let ?g = "groups sh i"
  have g: "masks_ok n ?g" "r < n" "g_state ?g = ROUND_DRAINING" "\<not> bit (exit_mask ?g) r" using a p by auto
  note n = masks_okD(4)[OF g(1)]
  show "moves n i r w sh (w\<lparr>w_pc := X_Ready\<rparr>) (set_group i (\<lambda>g. g\<lparr>exit_mask := exit_mask g OR rank_bit r\<rparr>) sh)"
    if "exit_mask ?g OR rank_bit r = expected_mask ?g"
  proof (rule moves_write[OF a])
    have "all_bits n (exit_mask ?g OR rank_bit r)" using that or_full[OF g(1,2)] masks_okD(3)[OF g(1)] by blast
    then show "phase_ok n (is_running sh) (sh_owner sh) i (?g\<lparr>exit_mask := exit_mask ?g OR rank_bit r\<rparr>) r
        (stopping (w\<lparr>w_pc := X_Ready\<rparr>)) (phase_of (w_pc (w\<lparr>w_pc := X_Ready\<rparr>)))" using g by simp
  qed (use g n p in \<open>auto simp: keeps_exit masks_ok_or single_entry(4)[where r=r]\<close>)
  show "moves n i r w sh (w\<lparr>w_pc := X_Done\<rparr>) (set_group i (\<lambda>g. g\<lparr>exit_mask := exit_mask g OR rank_bit r\<rparr>) sh)"
    by (rule moves_write[OF a]) (use g n p in \<open>auto simp: keeps_exit masks_ok_or clean_def bit_or_iff\<close>)
qed

lemma publish_moves:
  assumes a: "at_phase n i r w sh"
  shows "w_pc w = E_CasReady \<Longrightarrow> moves n i r w sh (w\<lparr>w_pc := W_Stop\<rparr>) (set_group i (\<lambda>g. g\<lparr>g_state := ROUND_READY\<rparr>) sh)"
    "w_pc w = L_CasComplete \<Longrightarrow> moves n i r w sh (w\<lparr>w_pc := X_Stop\<rparr>) (set_group i (\<lambda>g. g\<lparr>g_state := ROUND_COMPLETE\<rparr>) sh)"
  using a masks_okD(6)[of n "groups sh i"]
  by - (rule moves_write[OF a]; simp add: keeps_ready keeps_complete masks_ok_round)+

lemma reset_moves:
  assumes a: "at_phase n i r w sh"
  shows "w_pc w = X_Ready \<Longrightarrow> moves n i r w sh (w\<lparr>w_pc := X_Complete\<rparr>) (set_group i (\<lambda>g. g\<lparr>ready_mask := 0\<rparr>) sh)"
    "w_pc w = X_Complete \<Longrightarrow> moves n i r w sh (w\<lparr>w_pc := X_Grant\<rparr>) (set_group i (\<lambda>g. g\<lparr>complete_mask := 0\<rparr>) sh)"
    "w_pc w = X_Idle \<Longrightarrow> moves n i r w sh (w\<lparr>w_pc := X_Done\<rparr>) (set_group i (\<lambda>g. g\<lparr>g_state := ROUND_IDLE\<rparr>) sh)"
  using a by - (rule moves_write[OF a]; simp add: keeps_reset masks_ok_round clean_def fresh_def)+

lemma leave_moves:
  assumes a: "at_phase n i r w sh" and s: "leave_step i r now w sh = (w', sh')"
  shows "moves n i r w sh w' sh'"
proof (cases "w_pc w")
  case L_OrComplete
  then show ?thesis using s complete_bit_moves[OF a] by (auto simp: leave_step_def Let_def split: if_splits)
next
  case L_CasComplete
  then show ?thesis using s a publish_moves(2)[OF a] by (auto simp: leave_step_def Let_def split: if_splits)
qed (use assms in \<open>auto simp: leave_step_def Let_def intro!: moves_give_up moves_goto moves_refl split: if_splits\<close>)

lemma drain_moves:
  assumes a: "at_phase n i r w sh" and s: "drain_step i r w sh = (w', sh')"
  shows "moves n i r w sh w' sh'"
proof (cases "w_pc w")
  case X_OrExit
  then show ?thesis using s exit_bit_moves[OF a] by (auto simp: drain_step_def Let_def split: if_splits)
next
  case X_Ready
  then show ?thesis using s reset_moves(1)[OF a] by (simp add: drain_step_def Let_def)
next
  case X_Complete
  then show ?thesis using s reset_moves(2)[OF a] by (simp add: drain_step_def Let_def)
next
  case X_Grant
  then show ?thesis using s moves_quiet_write[OF a, of X_Publish] by (auto simp: drain_step_def Let_def)
next
  case X_Publish
  then show ?thesis using s moves_quiet_write[OF a, of X_Idle] by (auto simp: drain_step_def Let_def)
next
  case X_Idle
  then show ?thesis using s reset_moves(3)[OF a] by (simp add: drain_step_def Let_def)
qed (use assms in \<open>auto simp: drain_step_def Let_def intro!: moves_give_up moves_goto moves_refl split: if_splits\<close>)

lemma join_moves:
  assumes a: "at_phase n i r w sh" and s: "join_step i r now w sh = (w', sh')"
  shows "moves n i r w sh w' sh'"
proof (cases "w_pc w")
  case E_CasInit
  then show ?thesis using s a claim_moves[OF a] by (auto simp: join_step_def Let_def intro!: moves_goto split: if_splits)
next
  case E_InitSeq
  then show ?thesis using s moves_quiet_write[OF a, of E_InitGrant] by (auto simp: join_step_def Let_def)
next
  case E_InitGrant
  then show ?thesis using s moves_quiet_write[OF a, of E_InitReady] by (auto simp: join_step_def Let_def)
next
  case E_InitReady
  then show ?thesis using s init_moves(1)[OF a, of E_InitComplete] by (auto simp: join_step_def Let_def)
next
  case E_InitComplete
  then show ?thesis using s init_moves(2)[OF a, of E_InitExit] by (auto simp: join_step_def Let_def)
next
  case E_InitExit
  then show ?thesis using s init_moves(3)[OF a, of E_InitPublish] by (auto simp: join_step_def Let_def)
next
  case E_InitPublish
  then show ?thesis using s moves_quiet_write[OF a, of E_InitState] by (auto simp: join_step_def Let_def)
next
  case E_InitState
  then show ?thesis using s init_moves(4)[OF a, of E_InitState] by (auto simp: join_step_def Let_def)
next
  case E_LastSeq
  then show ?thesis using s moves_quiet_write[OF a, of E_OrReady] by (auto simp: join_step_def Let_def)
next
  case E_OrReady
  then show ?thesis using s ready_bit_moves[OF a] by (auto simp: join_step_def Let_def split: if_splits)
next
  case E_CasReady
  then show ?thesis using s a publish_moves(1)[OF a] by (auto simp: join_step_def Let_def split: if_splits)
next
  case E_State
  then show ?thesis using s a
    by (auto simp: join_step_def Let_def clean_def fresh_def intro!: moves_goto moves_refl split: if_splits)
qed (use assms in \<open>auto simp: join_step_def Let_def intro!: moves_give_up moves_goto moves_refl split: if_splits\<close>)

section \<open>What the coordinator relies on\<close>

text \<open>Workers do not touch a complete round, and do not start a round to run.\<close>

definition steady :: "instance_group \<Rightarrow> instance_group \<Rightarrow> bool" where
  "steady g g' \<longleftrightarrow> (g_state g = ROUND_COMPLETE \<longrightarrow> g_state g' = ROUND_COMPLETE \<and> exit_mask g' = exit_mask g) \<and>
     (g_state g \<notin> {ROUND_RUNNING, ROUND_COMPLETE} \<longrightarrow> g_state g' \<notin> {ROUND_RUNNING, ROUND_COMPLETE})"

lemma steady_view: "g_state g' = g_state g \<Longrightarrow> exit_mask g' = exit_mask g \<Longrightarrow> steady g g'"
  by (simp add: steady_def)

lemma worker_steady:
  assumes "at_phase n i r w sh"
  shows "join_step i r now w sh = (w', sh') \<Longrightarrow> steady (groups sh i) (groups sh' i)"
    and "grant_step i r now w sh = (w', sh') \<Longrightarrow> steady (groups sh i) (groups sh' i)"
    and "leave_step i r now w sh = (w', sh') \<Longrightarrow> steady (groups sh i) (groups sh' i)"
    and "drain_step i r w sh = (w', sh') \<Longrightarrow> steady (groups sh i) (groups sh' i)"
  using assms
  by - (cases "w_pc w"; auto simp: join_step_def grant_step_def leave_step_def drain_step_def Let_def steady_def split: if_splits)+

fun coord_ok :: "cpc \<Rightarrow> shared_state \<Rightarrow> bool" where
  "coord_ok (R_State t i) sh = (sh_owner sh = int i)"
| "coord_ok (R_Complete t i s) sh = (sh_owner sh = int i \<and> (s = ROUND_COMPLETE \<longrightarrow> g_state (groups sh i) = ROUND_COMPLETE))"
| "coord_ok (R_Deadline t i s c) sh = (sh_owner sh = int i \<and> (s = ROUND_COMPLETE \<longrightarrow> g_state (groups sh i) = ROUND_COMPLETE))"
| "coord_ok (R_Exit t i) sh = (sh_owner sh = int i \<and> g_state (groups sh i) = ROUND_COMPLETE)"
| "coord_ok (R_Drain t i) sh = (sh_owner sh = int i \<and> g_state (groups sh i) = ROUND_COMPLETE \<and> exit_mask (groups sh i) = 0)"
| "coord_ok (R_LastOwner t i) sh = (sh_owner sh = int i \<and> g_state (groups sh i) \<notin> {ROUND_RUNNING, ROUND_COMPLETE})"
| "coord_ok (R_ClearDeadline t i) sh = (sh_owner sh = int i \<and> g_state (groups sh i) \<notin> {ROUND_RUNNING, ROUND_COMPLETE})"
| "coord_ok (R_Release t i) sh = (sh_owner sh = int i \<and> g_state (groups sh i) \<notin> {ROUND_RUNNING, ROUND_COMPLETE})"
| "coord_ok (D_State t k acc) sh = (sh_owner sh = PS_NO_OWNER)"
| "coord_ok (D_Ready t k acc s) sh = (sh_owner sh = PS_NO_OWNER)"
| "coord_ok (D_Online t k acc s ready) sh = (sh_owner sh = PS_NO_OWNER)"
| "coord_ok (D_Publish t k acc s ready online) sh = (sh_owner sh = PS_NO_OWNER)"
| "coord_ok (D_Alive t k acc s ready online publish) sh = (sh_owner sh = PS_NO_OWNER)"
| "coord_ok (D_Select t acc) sh = (sh_owner sh = PS_NO_OWNER)"
| "coord_ok (D_Cas t k) sh = (sh_owner sh = PS_NO_OWNER \<and> k < 2)"
| "coord_ok (D_Grant t k) sh = (sh_owner sh = PS_NO_OWNER \<and> k < 2)"
| "coord_ok (D_SetGrant t k grant) sh = (sh_owner sh = PS_NO_OWNER \<and> k < 2)"
| "coord_ok (D_Deadline t k) sh = (sh_owner sh = PS_NO_OWNER \<and> k < 2)"
| "coord_ok (D_SetOwner t k) sh = (sh_owner sh = PS_NO_OWNER \<and> k < 2)"
| "coord_ok _ sh = True"

lemma coord_ok_steady:
  "coord_ok c sh \<Longrightarrow> sh_owner sh' = sh_owner sh \<Longrightarrow> (\<And>j. steady (groups sh j) (groups sh' j)) \<Longrightarrow> coord_ok c sh'"
  unfolding steady_def by (cases c) auto

definition pair_inv :: "pair_sys \<Rightarrow> bool" where
  "pair_inv s \<longleftrightarrow> status_ok (mem s) \<and> sh_owner (mem s) \<in> {PS_NO_OWNER, 0, 1} \<and> coord_ok (coord s) (mem s) \<and>
     (\<forall>i < 2. group_ok (rank_count (mem s)) (is_running (mem s)) (sh_owner (mem s)) i (groups (mem s) i) (ctxs s i))"

lemma pair_inv_phase: "pair_inv s \<Longrightarrow> i < 2 \<Longrightarrow> r < rank_count (mem s) \<Longrightarrow> at_phase (rank_count (mem s)) i r (ctxs s i r) (mem s)"
  by (simp add: pair_inv_def group_ok_def)

lemma group_ok_keeps:
  assumes "group_ok n run own i g ws" "masks_ok n g'" "keeps n n 0 g g'" "run' \<longrightarrow> run" "own = int i \<and> g_state g' = ROUND_RUNNING \<longrightarrow> own' = int i"
  shows "group_ok n run' own' i g' ws"
proof -
  have "phase_ok n run' own' i g' k (stopping (ws k)) (phase_of (w_pc (ws k)))" if "k < n" for k
  proof -
    have "phase_ok n run own i g' k (stopping (ws k)) (phase_of (w_pc (ws k)))"
      using assms(1,3) that unfolding keeps_def group_ok_def by blast
    then show ?thesis using assms(4,5) by (cases "phase_of (w_pc (ws k))") auto
  qed
  then show ?thesis using assms(1,2) unfolding group_ok_def by blast
qed

lemma worker_inv:
  assumes inv: "pair_inv s" and i: "i < 2" and r: "r < rank_count (mem s)"
    and m: "moves (rank_count (mem s)) i r (ctxs s i r) (mem s) w sh" and st: "steady (groups (mem s) i) (groups sh i)"
    and c: "c = coord s \<or> c = C_Dead"
  shows "pair_inv (set_ctx i r w (s\<lparr>mem := sh, coord := c\<rparr>))"
proof -
  let ?n = "rank_count (mem s)"
  have f: "\<And>j. j \<noteq> i \<Longrightarrow> groups sh j = groups (mem s) j" "sh_owner sh = sh_owner (mem s)"
      "sh_worker_count sh = sh_worker_count (mem s)" "is_running sh \<longrightarrow> is_running (mem s)" "status_ok sh"
    using m unfolding moves_def by blast+
  have g: "group_ok ?n (is_running (mem s)) (sh_owner (mem s)) j (groups (mem s) j) (ctxs s j)" if "j < 2" for j
    using inv that by (simp add: pair_inv_def)
  have "group_ok ?n (is_running sh) (sh_owner sh) j (groups sh j) (((ctxs s)(i := (ctxs s i)(r := w))) j)" if "j < 2" for j
  proof (cases "j = i")
    case True
    then show ?thesis using moves_group_ok[OF g[OF i] r m] by simp
  next
    case False
    have "group_ok ?n (is_running sh) (sh_owner sh) j (groups (mem s) j) (ctxs s j)"
      by (rule group_ok_keeps[OF g[OF that]]) (use g[OF that] f in \<open>auto simp: group_ok_def keeps_view\<close>)
    then show ?thesis using False f(1) by simp
  qed
  moreover have "coord_ok c sh"
    using c inv st f(1,2) coord_ok_steady[of "coord s" "mem s" sh] steady_view[of "groups (mem s) j" "groups (mem s) j" for j]
    by (metis coord_ok.simps(21) pair_inv_def)
  ultimately show ?thesis using f inv by (simp add: pair_inv_def)
qed

end
