(* ===== verification/Pair_Exclusion.thy ===== *)
theory Pair_Exclusion
  imports Pair_Safety
begin

text \<open>
  Every step of the pair scheduler keeps its invariant, so the workers of the two instances are never in a
  round at the same time.
\<close>

section \<open>Opening, closing and the coordinator\<close>

lemma keeps_opened: "g_state g = ROUND_OFFLINE \<Longrightarrow> keeps n r c g (g\<lparr>g_state := ROUND_IDLE\<rparr>)"
  by (rule keepsI; case_tac p) (auto simp: fresh_def clean_def)

lemma keeps_closed: "g_state g = ROUND_IDLE \<Longrightarrow> keeps n r c g (g\<lparr>g_state := ROUND_OFFLINE\<rparr>)"
  by (rule keepsI; case_tac p) (auto simp: fresh_def clean_def)

lemma keeps_trans: "keeps n r c g h \<Longrightarrow> keeps n r c h k \<Longrightarrow> keeps n r c g k"
  unfolding keeps_def by blast

lemma register_moves:
  assumes a: "at_phase n i r w sh" "w_pc w = Unopened" and s: "register_worker i r pid session peer now sh = Some sh'"
    and w: "w_pc w' = Outside"
  shows "moves n i r w sh w' sh'" "steady (groups sh i) (groups sh' i)"
proof -
  obtain g' where g': "sh' = sh\<lparr>groups := (groups sh)(i := g')\<rparr>" "ready_mask g' = ready_mask (groups sh i)"
      "complete_mask g' = complete_mask (groups sh i)" "exit_mask g' = exit_mask (groups sh i)"
      "expected_mask g' = expected_mask (groups sh i)"
      "g_state g' = (if g_state (groups sh i) = ROUND_OFFLINE then ROUND_IDLE else g_state (groups sh i))"
    using s by (auto simp: register_worker_def Let_def split: if_splits)
  have k: "keeps n r c (groups sh i) g'" for c
  proof (cases "g_state (groups sh i) = ROUND_OFFLINE")
    case True
    show ?thesis by (rule keeps_trans[OF keeps_opened[OF True] keeps_view]) (use g' True in simp_all)
  qed (use g' in \<open>simp add: keeps_view\<close>)
  have m: "masks_ok n g'" using a g'(2-6) by (auto simp: masks_ok_def)
  show "moves n i r w sh w' sh'" unfolding g'(1)
    by (rule moves_write[OF a(1) m k]) (use a w g'(2-6) in \<open>auto simp: clean_def fresh_def\<close>)
  show "steady (groups sh i) (groups sh' i)" using g' by (simp add: steady_def)
qed

lemma close_frame:
  assumes "sh' = close_worker i r session act creator sh"
  shows "sh_owner sh' = sh_owner sh" "sh_worker_count sh' = sh_worker_count sh" "j \<noteq> i \<Longrightarrow> groups sh' j = groups sh j"
    "ready_mask (groups sh' i) = ready_mask (groups sh i)" "complete_mask (groups sh' i) = complete_mask (groups sh i)"
    "exit_mask (groups sh' i) = exit_mask (groups sh i)" "expected_mask (groups sh' i) = expected_mask (groups sh i)"
    "g_state (groups sh' i) = g_state (groups sh i) \<or> g_state (groups sh i) = ROUND_IDLE \<and> g_state (groups sh' i) = ROUND_OFFLINE"
  unfolding assms close_worker_def Let_def by auto

lemma close_status:
  assumes "sh' = close_worker i r session act creator sh" "status_ok sh"
  shows "is_running sh' \<longrightarrow> is_running sh" "status_ok sh'"
proof -
  have st: "sh_status sh' = sh_status sh \<or> (\<exists>reason. sh_status sh' = sh_status (fail_pair reason sh)) \<or> sh_status sh' = make_status PS_SHUTDOWN 0"
    unfolding assms(1) close_worker_def Let_def by auto
  moreover have "status_state (make_status PS_SHUTDOWN 0) = 3" by (simp add: status_state_make)
  moreover note fail_pair_stops[OF assms(2)]
  ultimately show "is_running sh' \<longrightarrow> is_running sh" "status_ok sh'"
    using assms(2) by (auto simp: is_running_def status_ok_def)
qed

lemma masks_ok_closed: "masks_ok n g \<Longrightarrow> g_state g = ROUND_IDLE \<Longrightarrow> masks_ok n (g\<lparr>g_state := ROUND_OFFLINE\<rparr>)"
  by (simp add: masks_ok_def)

lemma close_moves:
  assumes a: "at_phase n i r w sh" and s: "sh' = close_worker i r session act creator sh" and w: "w_pc w' = Dead"
  shows "moves n i r w sh w' sh'" "steady (groups sh i) (groups sh' i)"
proof -
  note f = close_frame[OF s]
  have a': "masks_ok n (groups sh i)" using a by blast
  have "(\<forall>c. keeps n r c (groups sh i) (groups sh' i)) \<and> masks_ok n (groups sh' i)"
  proof (cases "g_state (groups sh' i) = g_state (groups sh i)")
    case True
    show ?thesis using keeps_view[OF True f(4-6)] masks_ok_view[OF a' True f(4-7)] by blast
  next
    case False
    then have off: "g_state (groups sh i) = ROUND_IDLE" "g_state (groups sh' i) = ROUND_OFFLINE" using f(8) by blast+
    have "keeps n r c (groups sh i) (groups sh' i)" for c
      by (rule keeps_trans[OF keeps_closed[OF off(1)] keeps_view]) (simp_all add: f(4-6) off)
    moreover have "masks_ok n (groups sh' i)"
      by (rule masks_ok_view[OF masks_ok_closed[OF a' off(1)]]) (simp_all add: f(4-7) off)
    ultimately show ?thesis by blast
  qed
  then have k: "keeps n r c (groups sh i) (groups sh' i)" and m: "masks_ok n (groups sh' i)" for c by blast+
  have fr: "\<forall>j. j \<noteq> i \<longrightarrow> groups sh' j = groups sh j" using f(3) by blast
  have st: "status_ok sh" using a by blast
  show "moves n i r w sh w' sh'"
    unfolding moves_def w phase_of.simps phase_ok.simps single.simps
    using m k f(1,2) fr close_status[OF s st] by blast
  show "steady (groups sh i) (groups sh' i)" using f(8) unfolding steady_def f(6) by (elim disjE conjE) simp_all
qed

lemma keeps_coordinator:
  shows "g_state g = ROUND_READY \<Longrightarrow> keeps n n 0 g (g\<lparr>g_state := ROUND_RUNNING\<rparr>)"
    "g_state g = ROUND_COMPLETE \<Longrightarrow> keeps n n 0 g (g\<lparr>exit_mask := 0\<rparr>)"
    "g_state g = ROUND_COMPLETE \<Longrightarrow> exit_mask g = 0 \<Longrightarrow> keeps n n 0 g (g\<lparr>g_state := ROUND_DRAINING\<rparr>)"
  by (rule keepsI; case_tac p; auto simp: fresh_def clean_def)+

text \<open>A step of the coordinator that writes at most one group.\<close>

lemma coord_inv:
  assumes inv: "pair_inv s" and n: "sh_worker_count sh = sh_worker_count (mem s)" and st: "is_running sh \<longrightarrow> is_running (mem s)" "status_ok sh"
    and "sh_owner sh \<in> {PS_NO_OWNER, 0, 1}" "coord_ok c sh"
    and g: "\<And>i. i < 2 \<Longrightarrow> groups sh i = groups (mem s) i \<or>
      (\<forall>n. masks_ok n (groups (mem s) i) \<longrightarrow> masks_ok n (groups sh i) \<and> keeps n n 0 (groups (mem s) i) (groups sh i))"
    and own: "\<And>i. i < 2 \<Longrightarrow> sh_owner (mem s) = int i \<Longrightarrow> g_state (groups sh i) = ROUND_RUNNING \<Longrightarrow> sh_owner sh = int i"
  shows "pair_inv (s\<lparr>mem := sh, coord := c\<rparr>)"
proof -
  let ?n = "rank_count (mem s)"
  have "group_ok ?n (is_running sh) (sh_owner sh) i (groups sh i) (ctxs s i)" if "i < 2" for i
  proof -
    have ok: "group_ok ?n (is_running (mem s)) (sh_owner (mem s)) i (groups (mem s) i) (ctxs s i)"
      using inv that by (simp add: pair_inv_def)
    then have m: "masks_ok ?n (groups (mem s) i)" by (simp add: group_ok_def)
    have "masks_ok ?n (groups sh i)" "keeps ?n ?n 0 (groups (mem s) i) (groups sh i)"
      using g[OF that] m keeps_view[OF refl refl refl refl, of ?n ?n 0 "groups (mem s) i"] by metis+
    then show ?thesis by (rule group_ok_keeps[OF ok _ _ st(1)]) (use own[OF that] in blast)
  qed
  then show ?thesis using assms(2-6) by (simp add: pair_inv_def)
qed

lemma shared_frame [simp]:
  "is_running (sh\<lparr>primary_heartbeat_ns := t\<rparr>) = is_running sh" "status_ok (sh\<lparr>primary_heartbeat_ns := t\<rparr>) = status_ok sh"
  "is_running (sh\<lparr>deadline_ns := t\<rparr>) = is_running sh" "status_ok (sh\<lparr>deadline_ns := t\<rparr>) = status_ok sh"
  "is_running (sh\<lparr>sh_owner := k\<rparr>) = is_running sh" "status_ok (sh\<lparr>sh_owner := k\<rparr>) = status_ok sh"
  "is_running (sh\<lparr>sh_last_owner := k\<rparr>) = is_running sh" "status_ok (sh\<lparr>sh_last_owner := k\<rparr>) = status_ok sh"
  "is_running (sh\<lparr>next_grant_id := t\<rparr>) = is_running sh" "status_ok (sh\<lparr>next_grant_id := t\<rparr>) = status_ok sh"
  by (simp_all add: is_running_def status_ok_def)

lemma pair_invD:
  assumes "pair_inv s"
  shows "status_ok (mem s)" "sh_owner (mem s) \<in> {PS_NO_OWNER, 0, 1}" "coord_ok (coord s) (mem s)"
  using assms unfolding pair_inv_def by blast+

lemma coord_quiet:
  assumes "pair_inv s" "groups sh = groups (mem s)" "sh_owner sh = sh_owner (mem s)" "sh_worker_count sh = sh_worker_count (mem s)"
    "is_running sh \<longrightarrow> is_running (mem s)" "status_ok sh" "coord_ok c sh"
  shows "pair_inv (s\<lparr>mem := sh, coord := c\<rparr>)"
  by (rule coord_inv[OF assms(1,4-6)]) (use assms(2,3,7) pair_invD(2)[OF assms(1)] in simp_all)

lemma coord_fail: "pair_inv s \<Longrightarrow> coord_ok c (mem s) \<Longrightarrow> pair_inv (s\<lparr>mem := fail_pair reason (mem s), coord := c\<rparr>)"
  by (rule coord_quiet)
    (auto simp: fail_pair_status_ok pair_invD(1) dest: fail_pair_running intro: coord_ok_steady[OF _ _ steady_view])

lemma coord_stay: "pair_inv s \<Longrightarrow> coord_ok c (mem s) \<Longrightarrow> pair_inv (s\<lparr>mem := mem s, coord := c\<rparr>)"
  by (rule coord_quiet) (simp_all add: pair_invD(1))

lemma coord_step_inv:
  assumes inv: "pair_inv s" and s: "coord_step now (coord s) (mem s) = (c, sh)"
  shows "pair_inv (s\<lparr>mem := sh, coord := c\<rparr>)"
proof (cases "coord s")
  case C_Heart
  then show ?thesis using s pair_invD(1)[OF inv] by (auto simp: coord_step_def intro!: coord_quiet[OF inv])
next
  case (C_Owner t)
  then show ?thesis using s pair_invD(2)[OF inv] by (auto simp: coord_step_def split: if_splits intro!: coord_stay[OF inv, simplified])
qed (use s pair_invD(3)[OF inv] in \<open>auto simp: coord_step_def validate_shared_def split: if_splits
      intro!: coord_stay[OF inv] coord_fail[OF inv]\<close>)

lemma coord_write:
  assumes inv: "pair_inv s" and m: "\<And>n. masks_ok n (groups (mem s) i) \<Longrightarrow> masks_ok n g' \<and> keeps n n 0 (groups (mem s) i) g'"
    and c: "coord_ok c (mem s\<lparr>groups := (groups (mem s))(i := g')\<rparr>)"
  shows "pair_inv (s\<lparr>mem := mem s\<lparr>groups := (groups (mem s))(i := g')\<rparr>, coord := c\<rparr>)"
  by (rule coord_inv[OF inv _ _ _ _ c]) (use m pair_invD(1,2)[OF inv] in auto)

lemma recycle_step_inv:
  assumes inv: "pair_inv s" and s: "recycle_step (coord s) (mem s) = (c, sh)"
  shows "pair_inv (s\<lparr>mem := sh, coord := c\<rparr>)"
proof (cases "coord s")
  case (R_Exit t i)
  then have g: "g_state (groups (mem s) i) = ROUND_COMPLETE" "sh_owner (mem s) = int i" using pair_invD(3)[OF inv] by simp_all
  show ?thesis using s R_Exit coord_write[OF inv, of i _ "R_Drain t i"] g
    by (auto simp: recycle_step_def keeps_coordinator masks_ok_round)
next
  case (R_Drain t i)
  then have g: "g_state (groups (mem s) i) = ROUND_COMPLETE" "sh_owner (mem s) = int i" "exit_mask (groups (mem s) i) = 0"
    using pair_invD(3)[OF inv] by simp_all
  show ?thesis using s R_Drain coord_write[OF inv, of i _ "R_LastOwner t i"] g
    by (auto simp: recycle_step_def keeps_coordinator masks_ok_round)
next
  case (R_LastOwner t i)
  then show ?thesis using s pair_invD(1,3)[OF inv] by (auto simp: recycle_step_def intro!: coord_quiet[OF inv])
next
  case (R_ClearDeadline t i)
  then show ?thesis using s pair_invD(1,3)[OF inv] by (auto simp: recycle_step_def intro!: coord_quiet[OF inv])
next
  case (R_Release t i)
  then have g: "g_state (groups (mem s) i) \<noteq> ROUND_RUNNING" "sh_owner (mem s) = int i" using pair_invD(3)[OF inv] by simp_all
  have "pair_inv (s\<lparr>mem := (mem s)\<lparr>sh_owner := PS_NO_OWNER\<rparr>, coord := C_Status2 t\<rparr>)"
    by (rule coord_inv[OF inv]) (use g pair_invD(1)[OF inv] in auto)
  then show ?thesis using s R_Release by (simp add: recycle_step_def)
qed (use s pair_invD(3)[OF inv] in \<open>auto simp: recycle_step_def split: if_splits intro!: coord_stay[OF inv] coord_fail[OF inv]\<close>)

lemma select_instance_range: "select_instance a b p q l = Some i \<Longrightarrow> i = 0 \<or> i = 1"
  by (auto simp: select_instance_def split: if_splits)

lemma dispatch_step_inv:
  assumes inv: "pair_inv s" and s: "dispatch_step (coord s) (mem s) = (c, sh)"
  shows "pair_inv (s\<lparr>mem := sh, coord := c\<rparr>)"
proof (cases "coord s")
  case (D_Cas t k)
  then show ?thesis using s coord_write[OF inv, of k _ "D_Grant t k"] coord_stay[OF inv, of C_Wait] pair_invD(3)[OF inv]
    by (auto simp: dispatch_step_def keeps_coordinator masks_ok_round split: if_splits)
next
  case (D_Grant t k)
  then show ?thesis using s pair_invD(1,3)[OF inv] by (auto simp: dispatch_step_def intro!: coord_quiet[OF inv])
next
  case (D_Deadline t k)
  then show ?thesis using s pair_invD(1,3)[OF inv] by (auto simp: dispatch_step_def intro!: coord_quiet[OF inv])
next
  case (D_SetGrant t k grant)
  have "pair_inv (s\<lparr>mem := set_group k (\<lambda>g. g\<lparr>grant_id := grant\<rparr>) (mem s), coord := D_Deadline t k\<rparr>)"
    by (rule coord_write[OF inv]) (use D_SetGrant pair_invD(3)[OF inv] in \<open>simp_all add: keeps_view masks_ok_def\<close>)
  then show ?thesis using s D_SetGrant by (simp add: dispatch_step_def)
next
  case (D_SetOwner t k)
  then have g: "sh_owner (mem s) = PS_NO_OWNER" "k < 2" using pair_invD(3)[OF inv] by simp_all
  have "pair_inv (s\<lparr>mem := (mem s)\<lparr>sh_owner := int k\<rparr>, coord := C_Wait\<rparr>)"
    by (rule coord_inv[OF inv]) (use g pair_invD(1)[OF inv] in auto)
  then show ?thesis using s D_SetOwner by (simp add: dispatch_step_def)
next
  case (D_Select t acc)
  then show ?thesis using s pair_invD(3)[OF inv]
    by (auto simp: dispatch_step_def dest!: select_instance_range split: list.splits option.splits intro!: coord_stay[OF inv])
next
  case (D_Alive t k acc st ready online publish)
  then show ?thesis using s pair_invD(3)[OF inv]
    by (auto simp: dispatch_step_def Let_def split: if_splits intro!: coord_stay[OF inv] coord_fail[OF inv])
qed (use s pair_invD(3)[OF inv] in \<open>auto simp: dispatch_step_def split: if_splits intro!: coord_stay[OF inv]\<close>)

section \<open>The invariant of the system\<close>

lemma phase_ok_stop: "phase_ok n run own i g r stop p \<Longrightarrow> phase_ok n run own i g r True p"
  by (cases p) auto

lemma view_inv:
  assumes inv: "pair_inv s" and "sh_owner sh = sh_owner (mem s)" "sh_worker_count sh = sh_worker_count (mem s)"
    "is_running sh \<longrightarrow> is_running (mem s)" "status_ok sh"
    and g: "\<And>j. g_state (groups sh j) = g_state (groups (mem s) j) \<and> ready_mask (groups sh j) = ready_mask (groups (mem s) j) \<and>
      complete_mask (groups sh j) = complete_mask (groups (mem s) j) \<and> exit_mask (groups sh j) = exit_mask (groups (mem s) j) \<and>
      expected_mask (groups sh j) = expected_mask (groups (mem s) j)"
  shows "pair_inv (s\<lparr>mem := sh\<rparr>)"
proof -
  have c: "coord_ok (coord s) sh" using coord_ok_steady[OF pair_invD(3)[OF inv] assms(2)] steady_view g by blast
  have k: "masks_ok n (groups sh i) \<and> keeps n n 0 (groups (mem s) i) (groups sh i)" if "masks_ok n (groups (mem s) i)" for n i
    using that masks_ok_view[of n "groups (mem s) i" "groups sh i"] keeps_view[of "groups sh i" "groups (mem s) i" n n 0] g[of i] by blast
  have "pair_inv (s\<lparr>mem := sh, coord := coord s\<rparr>)"
    by (rule coord_inv[OF inv assms(3-5) _ c]) (use k pair_invD(2)[OF inv] assms(2) in simp_all)
  then show ?thesis by simp
qed

lemma set_ctx_inv:
  assumes inv: "pair_inv s" "i < 2" "r < rank_count (mem s)" and m: "moves (rank_count (mem s)) i r (ctxs s i r) (mem s) w (mem s)"
  shows "pair_inv (set_ctx i r w s)"
  using worker_inv[OF inv m steady_view[OF refl refl], of "coord s"] by simp

lemma worker_inv_same:
  assumes "pair_inv s" "i < 2" "r < rank_count (mem s)" "moves (rank_count (mem s)) i r (ctxs s i r) (mem s) w sh"
    "steady (groups (mem s) i) (groups sh i)"
  shows "pair_inv (set_ctx i r w (s\<lparr>mem := sh\<rparr>))"
  using worker_inv[OF assms, of "coord s"] by simp

lemma pair_step_inv: "pair_step s s' \<Longrightarrow> pair_inv s \<Longrightarrow> pair_inv s'"
proof (induction rule: pair_step.induct)
  case (open_call i r s pid session sh)
  note a = pair_inv_phase[OF open_call(5,1,2)]
  have "w_pc (opened_ctx pid session (forward_seq (groups sh i))) = Outside" by (simp add: opened_ctx_def)
  then show ?case using register_moves[OF a open_call(3,4)] worker_inv_same[OF open_call(5,1,2)] by blast
next
  case (enter_call i r s)
  then show ?case using pair_inv_phase[of s i r] by (intro set_ctx_inv moves_goto) simp_all
next
  case (join i r s w sh)
  note a = pair_inv_phase[OF join(4,1,2)]
  show ?case by (rule worker_inv_same[OF join(4,1,2) join_moves[OF a join(3)] worker_steady(1)[OF a join(3)]])
next
  case (grant i r s w sh)
  note a = pair_inv_phase[OF grant(4,1,2)]
  show ?case by (rule worker_inv_same[OF grant(4,1,2) grant_moves[OF a grant(3)] worker_steady(2)[OF a grant(3)]])
next
  case (leave_call i r s)
  then show ?case using pair_inv_phase[of s i r] by (intro set_ctx_inv moves_goto) simp_all
next
  case (leave i r s w sh)
  note a = pair_inv_phase[OF leave(4,1,2)]
  show ?case by (rule worker_inv_same[OF leave(4,1,2) leave_moves[OF a leave(3)] worker_steady(3)[OF a leave(3)]])
next
  case (drain i r s w sh)
  note a = pair_inv_phase[OF drain(4,1,2)]
  show ?case by (rule worker_inv_same[OF drain(4,1,2) drain_moves[OF a drain(3)] worker_steady(4)[OF a drain(3)]])
next
  case (heartbeat i r s)
  then show ?case by (intro view_inv) (auto simp: pair_invD(1))
next
  case (fail_call s reason)
  then show ?case by (intro view_inv) (auto simp: pair_invD(1) fail_pair_status_ok dest: fail_pair_running)
next
  case (stop i r s)
  then show ?case using pair_inv_phase[of s i r] by (intro set_ctx_inv moves_goto) (auto intro: phase_ok_stop)
next
  case (close i r s creator)
  note a = pair_inv_phase[OF close(7,1,2)]
  have "w_pc ((ctxs s i r)\<lparr>w_pc := Dead\<rparr>) = Dead" by simp
  note m = close_moves[OF a refl this, of "w_session (ctxs s i r)" "active_seq (ctxs s i r)" creator]
  show ?case by (rule worker_inv[OF close(7,1,2) m]) simp
next
  case (crash i r s)
  then show ?case using pair_inv_phase[of s i r] by (intro set_ctx_inv moves_goto) simp_all
next
  case (coordinator s c sh)
  then show ?case using coord_step_inv by blast
next
  case (recycle s c sh)
  then show ?case using recycle_step_inv by blast
next
  case (dispatch s c sh)
  then show ?case using dispatch_step_inv by blast
next
  case (coord_crash s)
  then show ?case by (simp add: pair_inv_def)
next
  case (tick s t)
  then show ?case by (simp add: pair_inv_def)
qed

lemma pair_init_inv: "pair_init s \<Longrightarrow> pair_inv s"
proof -
  assume "pair_init s"
  then obtain layout epoch h p f n where s: "1 \<le> n" "n \<le> 64" "mem s = create_shared layout epoch (clock s) h p f n"
      "\<And>i r. w_pc (ctxs s i r) = Unopened" "coord s = C_Wait"
    unfolding pair_init_def by blast
  have "masks_ok (unat n) (new_group n)"
    using s(2) bit_full_mask[OF s(2)] by (simp add: masks_ok_def new_group_def word_le_nat_alt)
  then have "group_ok (unat n) run own i (new_group n) (ctxs s i)" for run own i
    by (simp add: group_ok_def s(4) fresh_def new_group_def)
  then show ?thesis by (simp add: pair_inv_def s(3,5) create_shared_def status_ok_def)
qed

lemma pair_reachable_inv: "pair_reachable s \<Longrightarrow> pair_inv s"
proof -
  assume "pair_reachable s"
  then obtain s0 where "pair_init s0" "pair_step\<^sup>*\<^sup>* s0 s" unfolding pair_reachable_def by blast
  from this(2,1) show ?thesis by induction (auto simp: pair_init_inv pair_step_inv)
qed

end
