(* ===== verification/Pair_Service.thy ===== *)
theory Pair_Service
  imports Pair_Exclusion
begin

text \<open>
  What the pair scheduler guarantees its callers, with runs that reach the states the guarantees speak of.
\<close>

section \<open>Runs\<close>

text \<open>A schedule names the next thread to take a step; running it gives a run of the system.\<close>

datatype act =
    Open nat nat int u64 | Enter nat nat | Join nat nat | Grant nat nat | LeaveCall nat nat | Leave nat nat | Drain nat nat
  | Crash nat nat | Coord | Recycle | Dispatch

definition thread_step ::
  "(worker_ctx \<Rightarrow> shared_state \<Rightarrow> worker_ctx \<times> shared_state) \<Rightarrow> nat \<Rightarrow> nat \<Rightarrow> pair_sys \<Rightarrow> pair_sys" where
  "thread_step f i r s = (case f (ctxs s i r) (mem s) of (w, sh) \<Rightarrow> set_ctx i r w (s\<lparr>mem := sh\<rparr>))"

definition act_step :: "act \<Rightarrow> pair_sys \<Rightarrow> pair_sys option" where
  "act_step a s =
     (let worker = (\<lambda>i r ok s'. if i < 2 \<and> r < rank_count (mem s) \<and> ok then Some s' else None) in
      case a of
        Open i r pid session \<Rightarrow>
          (case register_worker i r pid session (sh_peer_timeout_ms (mem s)) (clock s) (mem s) of
             None \<Rightarrow> None
           | Some sh \<Rightarrow> worker i r (w_pc (ctxs s i r) = Unopened)
               (set_ctx i r (opened_ctx pid session (forward_seq (groups sh i))) (s\<lparr>mem := sh\<rparr>)))
      | Enter i r \<Rightarrow> worker i r (w_pc (ctxs s i r) = Outside) (set_ctx i r ((ctxs s i r)\<lparr>w_pc := E_Begin\<rparr>) s)
      | Join i r \<Rightarrow> worker i r True (thread_step (join_step i r (clock s)) i r s)
      | Grant i r \<Rightarrow> worker i r True (thread_step (grant_step i r (clock s)) i r s)
      | LeaveCall i r \<Rightarrow> worker i r (w_pc (ctxs s i r) = InRound)
          (set_ctx i r ((ctxs s i r)\<lparr>w_pc := L_Begin, arg_seq := active_seq (ctxs s i r),
             arg_grant := active_grant_id (ctxs s i r)\<rparr>) s)
      | Leave i r \<Rightarrow> worker i r True (thread_step (leave_step i r (clock s)) i r s)
      | Drain i r \<Rightarrow> worker i r True (thread_step (drain_step i r) i r s)
      | Crash i r \<Rightarrow> worker i r True (set_ctx i r ((ctxs s i r)\<lparr>w_pc := Dead\<rparr>) s)
      | Coord \<Rightarrow> (case coord_step (clock s) (coord s) (mem s) of (c, sh) \<Rightarrow> Some (s\<lparr>mem := sh, coord := c\<rparr>))
      | Recycle \<Rightarrow> (case recycle_step (coord s) (mem s) of (c, sh) \<Rightarrow> Some (s\<lparr>mem := sh, coord := c\<rparr>))
      | Dispatch \<Rightarrow> (case dispatch_step (coord s) (mem s) of (c, sh) \<Rightarrow> Some (s\<lparr>mem := sh, coord := c\<rparr>)))"

fun act_run :: "act list \<Rightarrow> pair_sys \<Rightarrow> pair_sys option" where
  "act_run [] s = Some s"
| "act_run (a # as) s = (case act_step a s of None \<Rightarrow> None | Some s' \<Rightarrow> act_run as s')"

lemma act_step_sound: "act_step a s = Some s' \<Longrightarrow> pair_step s s'"
  by (cases a)
    (auto simp: act_step_def thread_step_def Let_def split: if_splits prod.splits option.splits intro: pair_step.intros[simplified])

lemma act_run_sound: "act_run as s = Some s' \<Longrightarrow> pair_step\<^sup>*\<^sup>* s s'"
  by (induction as s rule: act_run.induct) (auto split: option.splits dest: act_step_sound intro: converse_rtranclp_into_rtranclp)

definition pair_start :: "u32 \<Rightarrow> pair_sys" where
  "pair_start n = \<lparr>mem = create_shared 0 1 1 100 1000 1000 n, ctxs = (\<lambda>_ _. (opened_ctx 0 0 0)\<lparr>w_pc := Unopened\<rparr>), coord = C_Wait, clock = 1\<rparr>"

lemma pair_start_init: "1 \<le> n \<Longrightarrow> n \<le> 64 \<Longrightarrow> pair_init (pair_start n)"
  unfolding pair_init_def by (simp add: pair_start_def) blast

lemma act_run_reachable: "act_run as (pair_start n) = Some s \<Longrightarrow> 1 \<le> n \<Longrightarrow> n \<le> 64 \<Longrightarrow> pair_reachable s"
  unfolding pair_reachable_def
  by (rule exI[of _ "pair_start n"]) (simp add: act_run_sound pair_start_init)

text \<open>
  Every rank of one instance enters a round and the coordinator grants it; then every rank completes it and the
  coordinator releases the instance.
\<close>

definition enter_acts :: "nat \<Rightarrow> nat list \<Rightarrow> act list" where
  "enter_acts i ranks =
     map (\<lambda>r. Open i r 7 9) ranks @ concat (map (\<lambda>r. Enter i r # replicate 14 (Join i r)) ranks) @
     replicate 7 Coord @ replicate 17 Dispatch @ concat (map (\<lambda>r. replicate 10 (Grant i r)) ranks)"

definition complete_acts :: "nat \<Rightarrow> nat list \<Rightarrow> act list" where
  "complete_acts i ranks =
     concat (map (\<lambda>r. LeaveCall i r # replicate 14 (Leave i r)) ranks) @ replicate 5 Coord @ replicate 8 Recycle"

definition round_run :: "pair_sys option" where
  "round_run = act_run (enter_acts 0 [0, 1]) (pair_start 2)"

lemma round_run_state:
  "map_option (\<lambda>s. (w_pc (ctxs s 0 0), w_pc (ctxs s 0 1), rank_count (mem s))) round_run = Some (InRound, InRound, 2)"
  by code_simp

lemma round_run_reachable: "\<exists>s. pair_reachable s \<and> rank_count (mem s) = 2 \<and> w_pc (ctxs s 0 0) = InRound \<and> w_pc (ctxs s 0 1) = InRound"
  using round_run_state act_run_reachable[of "enter_acts 0 [0, 1]" 2] by (auto simp: round_run_def)

text \<open>Rank 0 dies while the round drains; rank 1 has left the round and enters the next one.\<close>

definition stuck_acts :: "act list" where
  "stuck_acts =
     enter_acts 0 [0, 1] @ complete_acts 0 [0, 1] @ replicate 7 (Drain 0 1) @ [Crash 0 0, Enter 0 1, Join 0 1, Join 0 1]"

definition stuck_run :: "pair_sys option" where
  "stuck_run = act_run stuck_acts (pair_start 2)"

lemma stuck_run_state:
  "map_option (\<lambda>s. (w_pc (ctxs s 0 0), w_pc (ctxs s 0 1), rank_count (mem s), g_state (groups (mem s) 0),
     exit_mask (groups (mem s) 0))) stuck_run = Some (Dead, E_State, 2, ROUND_DRAINING, 2)"
  by code_simp

section \<open>Rounds\<close>

text \<open>A worker is in a round from the return of \<open>ps_enter_forward\<close> until it sets its complete bit in \<open>ps_leave_forward\<close>.\<close>

fun in_round :: "wpc \<Rightarrow> bool" where
  "in_round InRound = True"
| "in_round L_Begin = True"
| "in_round L_Deadline = True"
| "in_round (L_Status d) = True"
| "in_round (L_Time d) = True"
| "in_round L_Active = True"
| "in_round L_Owner = True"
| "in_round L_Seq = True"
| "in_round L_Grant = True"
| "in_round L_State = True"
| "in_round L_Session = True"
| "in_round L_Pid = True"
| "in_round L_Last = True"
| "in_round L_OrComplete = True"
| "in_round _ = False"

lemma in_round_phase: "in_round c \<Longrightarrow> phase_of c = PExec"
  by (cases c) auto

lemma in_round_facts:
  assumes "pair_reachable s" "i < 2" "r < rank_count (mem s)" "in_round (w_pc (ctxs s i r))"
  shows "sh_owner (mem s) = int i" "g_state (groups (mem s) i) = ROUND_RUNNING" "masks_ok (rank_count (mem s)) (groups (mem s) i)"
  using pair_inv_phase[OF pair_reachable_inv[OF assms(1)] assms(2,3)] in_round_phase[OF assms(4)] by simp_all

text \<open>
  C3: mutual exclusion. Whatever the interleaving of the workers of both instances, the coordinator, failures, closes and
  crashes, two workers that are in a round at the same time belong to the same instance, which is the owner and whose
  group is running.
\<close>

theorem pair_mutual_exclusion:
  assumes "pair_reachable s" "i < 2" "r < rank_count (mem s)" "in_round (w_pc (ctxs s i r))"
    and "j < 2" "k < rank_count (mem s)" "in_round (w_pc (ctxs s j k))"
  shows "i = j \<and> sh_owner (mem s) = int i \<and> g_state (groups (mem s) i) = ROUND_RUNNING"
  using in_round_facts[OF assms(1-4)] in_round_facts[OF assms(1,5-7)] by simp

theorem pair_mutual_exclusion_witness:
  "\<exists>s. pair_reachable s \<and> rank_count (mem s) = 2 \<and> in_round (w_pc (ctxs s 0 0)) \<and> in_round (w_pc (ctxs s 0 1)) \<and>
     sh_owner (mem s) = 0 \<and> g_state (groups (mem s) 0) = ROUND_RUNNING"
proof -
  obtain s where s: "pair_reachable s" "rank_count (mem s) = 2" "w_pc (ctxs s 0 0) = InRound" "w_pc (ctxs s 0 1) = InRound"
    using round_run_reachable by blast
  then show ?thesis using pair_mutual_exclusion[of s 0 0 0 1] by (intro exI[of _ s]) simp
qed

text \<open>
  C8: a round is collective. While one worker is in a round, every rank of its instance has set its ready bit, no rank of
  the instance is unopened or is entering the next round, and a rank that is outside got there by a failure of the
  pair or by closing.
\<close>

theorem round_is_collective:
  assumes "pair_reachable s" "i < 2" "r < rank_count (mem s)" "in_round (w_pc (ctxs s i r))" "k < rank_count (mem s)"
  shows "bit (ready_mask (groups (mem s) i)) k \<and> w_pc (ctxs s i k) \<notin> {Unopened, E_State, E_CasInit, E_LastSeq, E_OrReady, E_CasReady} \<and>
    (w_pc (ctxs s i k) = Outside \<longrightarrow> \<not> is_running (mem s) \<or> stopping (ctxs s i k))"
proof -
  have ready: "all_bits (rank_count (mem s)) (ready_mask (groups (mem s) i))"
    using in_round_facts(2,3)[OF assms(1-4)] unfolding masks_ok_def by blast
  have "phase_ok (rank_count (mem s)) (is_running (mem s)) (sh_owner (mem s)) i (groups (mem s) i) k (stopping (ctxs s i k))
      (phase_of (w_pc (ctxs s i k)))"
    using pair_inv_phase[OF pair_reachable_inv[OF assms(1)] assms(2,5)] by blast
  then show ?thesis using ready assms(5) in_round_facts(2)[OF assms(1-4)]
    by (auto simp: clean_def fresh_def)
qed

theorem round_is_collective_witness:
  "\<exists>s. pair_reachable s \<and> rank_count (mem s) = 2 \<and> in_round (w_pc (ctxs s 0 0)) \<and> bit (ready_mask (groups (mem s) 0)) 1"
proof -
  obtain s where s: "pair_reachable s" "rank_count (mem s) = 2" "w_pc (ctxs s 0 0) = InRound"
    using round_run_reachable by blast
  then show ?thesis using round_is_collective[of s 0 0 1] by (intro exI[of _ s]) simp
qed

text \<open>
  C9: the barriers are exact. A worker about to set its ready or complete bit finds it clear, so neither duplicate-rank failure
  can happen; a worker about to publish a ready or complete round finds every rank's bit set and the state it expects, so
  the exchanges cannot fail.
\<close>

theorem barriers_exact:
  assumes "pair_reachable s" "i < 2" "r < rank_count (mem s)"
  shows "(w_pc (ctxs s i r) = E_OrReady \<longrightarrow> ready_mask (groups (mem s) i) AND rank_bit r = 0) \<and>
    (w_pc (ctxs s i r) = E_CasReady \<longrightarrow>
       g_state (groups (mem s) i) = ROUND_COLLECTING \<and> ready_mask (groups (mem s) i) = expected_mask (groups (mem s) i)) \<and>
    (w_pc (ctxs s i r) = L_OrComplete \<longrightarrow> complete_mask (groups (mem s) i) AND rank_bit r = 0) \<and>
    (w_pc (ctxs s i r) = L_CasComplete \<longrightarrow>
       g_state (groups (mem s) i) = ROUND_RUNNING \<and> complete_mask (groups (mem s) i) = expected_mask (groups (mem s) i))"
proof -
  note a = pair_inv_phase[OF pair_reachable_inv[OF assms(1)] assms(2,3)]
  then have m: "masks_ok (rank_count (mem s)) (groups (mem s) i)" by blast
  show ?thesis using a mask_full[OF m] masks_okD(1,2)[OF m] by (auto simp: and_rank_bit)
qed

definition publish_acts :: "act list" where
  "publish_acts = Open 0 0 7 9 # Enter 0 0 # replicate 13 (Join 0 0)"

definition publish_run :: "pair_sys option" where
  "publish_run = act_run publish_acts (pair_start 1)"

lemma publish_run_state: "map_option (\<lambda>s. (w_pc (ctxs s 0 0), rank_count (mem s))) publish_run = Some (E_CasReady, 1)"
  by code_simp

theorem barriers_exact_witness:
  "\<exists>s. pair_reachable s \<and> rank_count (mem s) = 1 \<and> w_pc (ctxs s 0 0) = E_CasReady \<and>
     ready_mask (groups (mem s) 0) = expected_mask (groups (mem s) 0)"
proof -
  obtain s where s: "pair_reachable s" "rank_count (mem s) = 1" "w_pc (ctxs s 0 0) = E_CasReady"
    using publish_run_state act_run_reachable[of publish_acts 1] by (auto simp: publish_run_def)
  then show ?thesis using barriers_exact[of s 0 0] by (intro exI[of _ s]) simp
qed

section \<open>A worker that dies while its round drains\<close>

text \<open>Rank \<open>r\<close> is dead and has not left the draining round, rank \<open>k\<close> waits in \<open>ps_enter_forward\<close> for the round to end.\<close>

definition waiting :: "pair_sys \<Rightarrow> nat \<Rightarrow> nat \<Rightarrow> nat \<Rightarrow> bool" where
  "waiting s i r k \<longleftrightarrow> w_pc (ctxs s i r) = Dead \<and> g_state (groups (mem s) i) = ROUND_DRAINING \<and>
     \<not> bit (exit_mask (groups (mem s) i)) r \<and> w_pc (ctxs s i k) \<in> {E_State, Dead}"

lemma draining_stays:
  assumes p: "phase_ok n run own i (groups sh i) k stop (phase_of (w_pc w))"
    and r: "r < n" "k \<noteq> r" "g_state (groups sh i) = ROUND_DRAINING" "\<not> bit (exit_mask (groups sh i)) r"
  shows "join_step i k now w sh = (w', sh') \<Longrightarrow> g_state (groups sh' i) = ROUND_DRAINING \<and> \<not> bit (exit_mask (groups sh' i)) r"
    and "grant_step i k now w sh = (w', sh') \<Longrightarrow> g_state (groups sh' i) = ROUND_DRAINING \<and> \<not> bit (exit_mask (groups sh' i)) r"
    and "leave_step i k now w sh = (w', sh') \<Longrightarrow> g_state (groups sh' i) = ROUND_DRAINING \<and> \<not> bit (exit_mask (groups sh' i)) r"
    and "drain_step i k w sh = (w', sh') \<Longrightarrow> g_state (groups sh' i) = ROUND_DRAINING \<and> \<not> bit (exit_mask (groups sh' i)) r"
proof -
  have e: "\<not> bit (exit_mask (groups sh i) OR rank_bit k) r" using r by (simp add: bit_or_iff)
  show "g_state (groups sh' i) = ROUND_DRAINING \<and> \<not> bit (exit_mask (groups sh' i)) r" if "drain_step i k w sh = (w', sh')"
    using that p r e by (cases "w_pc w") (auto simp: drain_step_def Let_def split: if_splits)
  show "g_state (groups sh' i) = ROUND_DRAINING \<and> \<not> bit (exit_mask (groups sh' i)) r" if "grant_step i k now w sh = (w', sh')"
    using that r by (cases "w_pc w") (auto simp: grant_step_def Let_def split: if_splits)
  show "g_state (groups sh' i) = ROUND_DRAINING \<and> \<not> bit (exit_mask (groups sh' i)) r" if "join_step i k now w sh = (w', sh')"
    using that p r by (cases "w_pc w") (simp_all add: join_step_def Let_def split: if_splits, auto?)
  show "g_state (groups sh' i) = ROUND_DRAINING \<and> \<not> bit (exit_mask (groups sh' i)) r" if "leave_step i k now w sh = (w', sh')"
    using that p r by (cases "w_pc w") (simp_all add: leave_step_def Let_def split: if_splits, auto?)
qed
lemma still_steps:
  assumes "w_pc w = Dead \<or> w_pc w = E_State \<and> g_state (groups sh i) = ROUND_DRAINING"
  shows "join_step i r now w sh = (w, sh)" "grant_step i r now w sh = (w, sh)" "leave_step i r now w sh = (w, sh)"
    "drain_step i r w sh = (w, sh)"
  using assms by (auto simp: join_step_def grant_step_def leave_step_def drain_step_def)

lemma waiting_set_ctx:
  assumes "waiting s i r k" "g_state (groups sh i) = ROUND_DRAINING" "\<not> bit (exit_mask (groups sh i)) r"
    and "j = i \<Longrightarrow> l = r \<Longrightarrow> w_pc w = Dead" "j = i \<Longrightarrow> l = k \<Longrightarrow> w_pc w \<in> {E_State, Dead}"
  shows "waiting (set_ctx j l w (s\<lparr>mem := sh, coord := c\<rparr>)) i r k"
  using assms by (auto simp: waiting_def)

lemma waiting_thread:
  assumes wait: "waiting s i r k" and r: "r < rank_count (mem s)" and s: "f (ctxs s j l) (mem s) = (w, sh)"
    and still: "\<And>w sh. w_pc w = Dead \<or> w_pc w = E_State \<and> g_state (groups sh j) = ROUND_DRAINING \<Longrightarrow> f w sh = (w, sh)"
    and drain: "\<And>n run own stop. phase_ok n run own j (groups (mem s) j) l stop (phase_of (w_pc (ctxs s j l))) \<Longrightarrow> r < n \<Longrightarrow> l \<noteq> r \<Longrightarrow>
      g_state (groups (mem s) j) = ROUND_DRAINING \<Longrightarrow> \<not> bit (exit_mask (groups (mem s) j)) r \<Longrightarrow>
      g_state (groups sh j) = ROUND_DRAINING \<and> \<not> bit (exit_mask (groups sh j)) r"
    and a: "at_phase (rank_count (mem s)) j l (ctxs s j l) (mem s)"
    and m: "moves (rank_count (mem s)) j l (ctxs s j l) (mem s) w sh"
  shows "waiting (set_ctx j l w (s\<lparr>mem := sh\<rparr>)) i r k"
proof -
  have own: "w = ctxs s j l \<and> sh = mem s" if "j = i" "l = r \<or> l = k"
    using still[of "ctxs s j l" "mem s"] wait s that by (auto simp: waiting_def)
  have g: "g_state (groups sh i) = ROUND_DRAINING \<and> \<not> bit (exit_mask (groups sh i)) r"
  proof (cases "j = i")
    case True
    have p: "phase_ok (rank_count (mem s)) (is_running (mem s)) (sh_owner (mem s)) j (groups (mem s) j) l (stopping (ctxs s j l))
        (phase_of (w_pc (ctxs s j l)))" using a by blast
    have w: "g_state (groups (mem s) j) = ROUND_DRAINING" "\<not> bit (exit_mask (groups (mem s) j)) r"
      using wait True by (simp_all add: waiting_def)
    show ?thesis using drain[OF p r _ w] own True w by (cases "l = r") simp_all
  next
    case False
    have "\<forall>h. h \<noteq> j \<longrightarrow> groups sh h = groups (mem s) h" using m unfolding moves_def by blast
    then have "groups sh i = groups (mem s) i" using False by simp
    then show ?thesis using wait by (simp add: waiting_def)
  qed
  have "waiting (set_ctx j l w (s\<lparr>mem := sh, coord := coord s\<rparr>)) i r k"
    by (rule waiting_set_ctx[OF wait]) (use g own wait in \<open>auto simp: waiting_def\<close>)
  then show ?thesis by simp
qed

lemma waiting_coordinator:
  assumes "waiting s i r k"
    and "coord_step (clock s) (coord s) (mem s) = (c, sh) \<or> recycle_step (coord s) (mem s) = (c, sh) \<or> dispatch_step (coord s) (mem s) = (c, sh)"
  shows "waiting (s\<lparr>mem := sh, coord := c\<rparr>) i r k"
proof -
  have "g_state (groups sh i) = ROUND_DRAINING \<and> \<not> bit (exit_mask (groups sh i)) r"
    using assms by (cases "coord s")
      (auto simp: waiting_def coord_step_def validate_shared_def recycle_step_def dispatch_step_def Let_def
        split: if_splits list.splits option.splits)
  then show ?thesis using assms(1) by (simp add: waiting_def)
qed

lemma waiting_step:
  assumes "pair_step s s'" "pair_inv s" "waiting s i r k" "r < rank_count (mem s)"
  shows "waiting s' i r k"
  using assms
proof (induction rule: pair_step.induct)
  case (open_call j l s pid session sh)
  note a = pair_inv_phase[OF open_call(5,1,2)]
  have g: "groups sh i = groups (mem s) i \<or> g_state (groups (mem s) i) = ROUND_OFFLINE \<or>
      g_state (groups sh i) = g_state (groups (mem s) i) \<and> exit_mask (groups sh i) = exit_mask (groups (mem s) i)"
    using open_call(4) by (auto simp: register_worker_def Let_def split: if_splits)
  have "waiting (set_ctx j l (opened_ctx pid session (forward_seq (groups sh j))) (s\<lparr>mem := sh, coord := coord s\<rparr>)) i r k"
    by (rule waiting_set_ctx[OF open_call(6)]) (use g open_call(3,6) in \<open>auto simp: waiting_def\<close>)
  then show ?case by simp
next
  case (enter_call j l s)
  then show ?case by (auto simp: waiting_def)
next
  case (join j l s w sh)
  note a = pair_inv_phase[OF join(4,1,2)]
  show ?case
    by (rule waiting_thread[OF join(5,6,3) still_steps(1) draining_stays(1)[OF _ _ _ _ _ join(3)] a join_moves[OF a join(3)]])
next
  case (grant j l s w sh)
  note a = pair_inv_phase[OF grant(4,1,2)]
  show ?case
    by (rule waiting_thread[OF grant(5,6,3) still_steps(2) draining_stays(2)[OF _ _ _ _ _ grant(3)] a grant_moves[OF a grant(3)]])
next
  case (leave_call j l s)
  then show ?case by (auto simp: waiting_def)
next
  case (leave j l s w sh)
  note a = pair_inv_phase[OF leave(4,1,2)]
  show ?case
    by (rule waiting_thread[OF leave(5,6,3) still_steps(3) draining_stays(3)[OF _ _ _ _ _ leave(3)] a leave_moves[OF a leave(3)]])
next
  case (drain j l s w sh)
  note a = pair_inv_phase[OF drain(4,1,2)]
  show ?case
    by (rule waiting_thread[OF drain(5,6,3) still_steps(4) draining_stays(4)[OF _ _ _ _ _ drain(3)] a drain_moves[OF a drain(3)]])
next
  case (close j l s creator)
  note f = close_frame[OF refl, where i=j and r=l and session="w_session (ctxs s j l)" and act="active_seq (ctxs s j l)"
      and creator=creator and sh="mem s"]
  let ?sh = "close_worker j l (w_session (ctxs s j l)) (active_seq (ctxs s j l)) creator (mem s)"
  have "g_state (groups ?sh i) = ROUND_DRAINING \<and> \<not> bit (exit_mask (groups ?sh i)) r"
    using f(3)[of i] f(6,8) close(8) by (cases "i = j") (simp_all add: waiting_def)
  then show ?case by (intro waiting_set_ctx[OF close(8)]) simp_all
next
  case (coordinator s c sh)
  then show ?case using waiting_coordinator by blast
next
  case (recycle s c sh)
  then show ?case using waiting_coordinator by blast
next
  case (dispatch s c sh)
  then show ?case using waiting_coordinator by blast
qed (auto simp: waiting_def)

lemma coordinator_count:
  assumes "coord_step now c sh = (c', sh') \<or> recycle_step c sh = (c', sh') \<or> dispatch_step c sh = (c', sh')"
  shows "sh_worker_count sh' = sh_worker_count sh"
  using assms by (cases c)
    (auto simp: coord_step_def validate_shared_def recycle_step_def dispatch_step_def Let_def
      split: if_splits list.splits option.splits)

lemma pair_step_count:
  assumes "pair_step s s'" "pair_inv s"
  shows "sh_worker_count (mem s') = sh_worker_count (mem s)"
proof -
  have m: "moves n i r w sh w' sh' \<Longrightarrow> sh_worker_count sh' = sh_worker_count sh" for n i r w sh w' sh'
    unfolding moves_def by blast
  from assms show ?thesis
  proof (induction rule: pair_step.induct)
    case (join i r s w sh)
    show ?case using m[OF join_moves[OF pair_inv_phase[OF join(4,1,2)] join(3)]] by simp
  next
    case (grant i r s w sh)
    show ?case using m[OF grant_moves[OF pair_inv_phase[OF grant(4,1,2)] grant(3)]] by simp
  next
    case (leave i r s w sh)
    show ?case using m[OF leave_moves[OF pair_inv_phase[OF leave(4,1,2)] leave(3)]] by simp
  next
    case (drain i r s w sh)
    show ?case using m[OF drain_moves[OF pair_inv_phase[OF drain(4,1,2)] drain(3)]] by simp
  qed (auto simp: register_worker_def Let_def close_frame(2)[OF refl] split: if_splits dest: coordinator_count[OF disjI1]
      coordinator_count[OF disjI2[OF disjI1]] coordinator_count[OF disjI2[OF disjI2]])
qed

text \<open>
  C40: once a worker has died in a draining round without setting its exit bit, a rank of the same instance that waits in
  \<open>ps_enter_forward\<close> for the round to end never gets out of that loop, whatever happens afterwards: not when the pair
  fails, not when its own context is closed, only by being killed.
\<close>

theorem enter_waits_for_dead_worker:
  assumes "pair_reachable s" "r < rank_count (mem s)" "w_pc (ctxs s i r) = Dead" "g_state (groups (mem s) i) = ROUND_DRAINING"
    and "\<not> bit (exit_mask (groups (mem s) i)) r" "w_pc (ctxs s i k) = E_State" "pair_step\<^sup>*\<^sup>* s s'"
  shows "w_pc (ctxs s' i k) \<in> {E_State, Dead}"
proof -
  from assms(7) have "pair_inv s' \<and> waiting s' i r k \<and> r < rank_count (mem s')"
  proof (induction rule: rtranclp_induct)
    case base
    then show ?case using assms(1-6) pair_reachable_inv by (simp add: waiting_def)
  next
    case (step y z)
    then show ?case using pair_step_inv waiting_step pair_step_count by metis
  qed
  then show ?thesis by (simp add: waiting_def)
qed

theorem enter_waits_for_dead_worker_witness:
  "\<exists>s s'. pair_reachable s \<and> rank_count (mem s) = 2 \<and> w_pc (ctxs s 0 0) = Dead \<and> g_state (groups (mem s) 0) = ROUND_DRAINING \<and>
     w_pc (ctxs s 0 1) = E_State \<and> pair_step\<^sup>*\<^sup>* s s' \<and> \<not> is_running (mem s') \<and> w_pc (ctxs s' 0 1) \<in> {E_State, Dead}"
proof -
  obtain s where s: "stuck_run = Some s" "w_pc (ctxs s 0 0) = Dead" "w_pc (ctxs s 0 1) = E_State" "rank_count (mem s) = 2"
      "g_state (groups (mem s) 0) = ROUND_DRAINING" "exit_mask (groups (mem s) 0) = 2"
    using stuck_run_state by auto
  then have r: "pair_reachable s" using act_run_reachable[of stuck_acts 2 s] by (simp add: stuck_run_def)
  have e: "\<not> bit (exit_mask (groups (mem s) 0)) 0" unfolding s(6) by simp
  let ?s = "s\<lparr>mem := fail_pair 1 (mem s)\<rparr>"
  have st: "pair_step\<^sup>*\<^sup>* s ?s" by (rule r_into_rtranclp[of pair_step, OF fail_call])
  have f: "\<not> is_running (mem ?s)" using fail_pair_stops[OF pair_invD(1)[OF pair_reachable_inv[OF r]]] by simp
  have "w_pc (ctxs ?s 0 1) \<in> {E_State, Dead}" by (rule enter_waits_for_dead_worker[OF r _ s(2,5) e s(3) st]) (simp add: s(4))
  then show ?thesis using r s st f by (intro exI[of _ s] exI[of _ ?s]) blast
qed

end
