(* ===== verification/Spec2Isabelle.thy ===== *)
theory Spec2Isabelle
  imports Pool_Runs Sched_Utils Request_Queue Encoder_Schedule KV_Config KV_Service Pair_Config Pair_Service
begin

text \<open>
  Verification of the KV cache management and scheduling core of vLLM v1 and of the pair scheduler that lets two vLLM
  instances on one host take turns.

  \<^bold>\<open>The program.\<close> A vLLM engine cuts the attention cache of a device into blocks. The scheduler takes requests from a
  waiting queue, asks the KV cache manager for the blocks that an earlier request with the same prefix has left
  (prefix caching), then for the slots of the tokens of the next step, and gives the blocks back when the request ends.
  The manager drives a coordinator, the coordinator one manager per group of layers with the same cache format, and all of
  them draw on one block pool: a queue of free blocks in eviction order and an index from block hashes to blocks. The
  pair scheduler is native code in shared memory: the workers of an instance meet at a barrier, a coordinator thread grants
  one of two instances a round, the workers run it, meet again and release it.

  \<^bold>\<open>Theories and sources\<close> (under \<open>src/vllm/vllm/v1\<close> unless said otherwise).
  \<^item> \<open>Prelude\<close>: results of fallible code (\<open>Inl\<close> the raise), Python dictionaries, slices and integer operations.
  \<^item> \<open>Free_Queue\<close>: \<open>KVCacheBlock\<close> and \<open>FreeKVCacheBlockQueue\<close> of \<open>core/kv_cache_utils.py\<close>, a doubly linked list in an explicit
    heap, refines a list (locale \<open>free_list\<close>).
  \<^item> \<open>Hash_Map\<close>, \<open>Block_Pool\<close>, \<open>Pool_Caching\<close>, \<open>Pool_Runs\<close>, \<open>Pool_Users\<close>: \<open>core/block_pool.py\<close>. The invariant of every reachable pool;
    a block in use is never lent, every free block is, and a lookup answers with blocks of the hash asked for.
  \<^item> \<open>Block_Hash\<close>: the block hashes of \<open>core/kv_cache_utils.py\<close>. Equal hashes mean equal prefixes and extra keys, when the hash
    function has no collision; hashing a request step by step gives the hashes of hashing it at once.
  \<^item> \<open>Requests\<close>: \<open>request.py\<close> and the records it reads. \<open>Heapq\<close>, \<open>Request_Queue\<close>: \<open>core/sched/request_queue.py\<close> on Python's heaps
    (locales \<open>weak_order\<close>, \<open>queue_contract\<close>) and the queue selection of \<open>core/sched/scheduler.py\<close>. \<open>Sched_Utils\<close>: \<open>core/sched/utils.py\<close>
    and the loop of the scheduler over sampled tokens.
  \<^item> \<open>Encoder_Cache\<close>, \<open>Encoder_Schedule\<close>: \<open>core/encoder_cache_manager.py\<close>, the scheduling of encoder inputs in
    \<open>core/sched/scheduler.py\<close>, and the cache of the worker in \<open>worker/gpu_model_runner.py\<close>, which always has the embeddings it reads.
  \<^item> \<open>KV_Spec\<close>: \<open>kv_cache_interface.py\<close>. \<open>KV_Config\<close>: the grouping of layers and the configuration of the workers in
    \<open>core/kv_cache_utils.py\<close>; groups partition the layers and the tensors fit the memory.
  \<^item> \<open>Single_Type\<close>, \<open>Cache_Hits\<close>, \<open>Manager_Runs\<close>: \<open>core/single_type_kv_cache_manager.py\<close>, every class of manager, its prefix lookup
    and its invariant: its tables account for the references it holds.
  \<^item> \<open>Coordinator\<close>, \<open>Coordinator_Hits\<close>, \<open>Coordinator_Runs\<close>: \<open>core/kv_cache_coordinator.py\<close>; the locales \<open>manager_loop\<close>, \<open>request_loop\<close> and
    \<open>total_loop\<close> prove a loop over the managers once from the contract of its body.
  \<^item> \<open>KV_Manager\<close>, \<open>KV_Manager_Runs\<close>, \<open>KV_Allocation\<close>, \<open>KV_Service\<close>: \<open>core/kv_cache_manager.py\<close>. Over every run: reference counts are
    the occurrences in the block tables, nothing leaks, a lookup is sound and returns, and an allocation never raises
    after the check of the free blocks, covers the tokens and touches no other request.
  \<^item> \<open>Pair_State\<close>, \<open>Pair_Steps\<close>: \<open>src/scheduler/src/vllm_pair_scheduler/native/pair_sched.c\<close>, shared memory at its width and
    all threads as one step relation. \<open>Pair_Phases\<close>, \<open>Pair_Safety\<close>, \<open>Pair_Exclusion\<close>: the invariant of every step. \<open>Pair_Service\<close>: mutual
    exclusion of the instances, the barriers, and a wait that never ends. \<open>Pair_Config\<close>: \<open>config.py\<close> and the checks of \<open>gate.py\<close>.

  \<^bold>\<open>Loops and bounds.\<close> Two loops that could run forever, the walk over the free list and the iteration of the hybrid lookup,
  are partial functions with \<open>None\<close> for not returning, and are proved to return; all others are structural or have a
  termination proof. There is no fuel. Python numbers are unbounded integers. In the pair scheduler integers are
  words, masks have at most 64 ranks, as \<open>ps_open\<close> checks, and times are 64 bit nanoseconds.

  \<^bold>\<open>Parameters.\<close> The hash function and the serialisation it is given are parameters; the theorems on hashes assume that
  the hash has no collision on the inputs used, which the witnesses satisfy.

  \<^bold>\<open>Assumptions on the threads.\<close> Atomic accesses of the pair scheduler are sequentially consistent, though the code asks
  for acquire and release, and relaxed inside a claimed round. A rank is opened by one process, which may die at any point;
  a process that takes over the slot of a dead one is not covered. Waiting on a futex is looking again at any time, so
  lost or spurious wake-ups are covered.

  \<^bold>\<open>Not modelled.\<close> The main loop of \<open>Scheduler.schedule\<close> and \<open>update_from_output\<close>: it mixes the modelled parts with connectors,
  speculative tokens, structured output and batch records that would have to be modelled first. Log output, metrics
  and residency sampling, which do not change what is allocated. Engine processes, executors, attention, models and
  kernels, sampling, speculative decoding, KV transfer: tensors, sockets and devices. vLLM Ascend and vCANN-RT: device back
  ends and driver interception. The file handling, tracing and Python lock of \<open>gate.py\<close>, the snapshot readers, the patches that
  put the gate around the model execution, and the deployment scripts.
\<close>

end
